(* ===== verification/Prelude.thy ===== *)
theory Prelude
  imports Main "HOL-Library.Word" "HOL-Library.Product_Lexorder" "HOL-Library.Option_ord"
begin

text \<open>
  Shared vocabulary of the development.

  \<^item> Go's fixed-width integers are machine words.  An \<^verbatim>\<open>int64\<close> is a 64 bit word that is
    read with \<^term>\<open>sint\<close>; the conversions \<^verbatim>\<open>int64(x)\<close> and \<^verbatim>\<open>uint64(x)\<close> between the two 64 bit
    types are then the identity, as they are in Go.
  \<^item> Identifiers of iota.go (account, output, block, commitment identifiers) are fixed-length
    byte arrays.  They are represented by the number their bytes spell in big-endian order, so
    equality, the all-zero identifier and \<^verbatim>\<open>bytes.Compare\<close> are equality, 0 and the order of nat.
  \<^item> A fallible function returns a value of the sum type \<open>'e + 'a\<close>; \<open>and_then\<close> is the
    \<^verbatim>\<open>if err != nil { return err }\<close> of the source.
  \<^item> A \<^verbatim>\<open>range\<close> over a Go map visits the keys in an order the language leaves open.  Every such
    loop takes the order from a parameter \<open>iter\<close>, of which only \<open>enumerates\<close> is assumed.
  \<^item> \<open>safemath\<close> collects the functions of hive.go's package safemath the program calls.  They
    are parameters; \<open>safemath_ok\<close> states their documented behaviour (the exact result, or an
    error when it does not fit the type).
  \<^item> \<open>api\<close> collects what the program asks of iota.go's \<^verbatim>\<open>iotago.API\<close> (protocol parameters,
    time provider, mana decay provider), again as parameters.
\<close>

section \<open>Types\<close>

type_synonym u8 = "8 word"
type_synonym u32 = "32 word"
type_synonym u64 = "64 word"
type_synonym i64 = "64 word"

type_synonym slot_index = u32
type_synonym epoch_index = u32
type_synonym mana = u64
type_synonym base_token = u64
type_synonym work_score = u32

type_synonym account_id = nat
type_synonym output_id = nat
type_synonym issuer_key = nat
type_synonym hash_id = nat

text \<open>A block identifier is a hash and the slot that \<^verbatim>\<open>BlockID.Slot()\<close> reads from it.\<close>

record block_id =
  bid_hash :: hash_id
  bid_slot :: slot_index

text \<open>Block identifiers are ordered by hash, then slot.\<close>

instantiation block_id_ext :: (linorder) linorder
begin

definition less_eq_block_id_ext :: "'a block_id_scheme \<Rightarrow> 'a block_id_scheme \<Rightarrow> bool" where
  "less_eq_block_id_ext a b \<longleftrightarrow>
     (bid_hash a, bid_slot a, block_id.more a) \<le> (bid_hash b, bid_slot b, block_id.more b)"

definition less_block_id_ext :: "'a block_id_scheme \<Rightarrow> 'a block_id_scheme \<Rightarrow> bool" where
  "less_block_id_ext a b \<longleftrightarrow>
     (bid_hash a, bid_slot a, block_id.more a) < (bid_hash b, bid_slot b, block_id.more b)"

instance
  by standard
    (auto simp: less_eq_block_id_ext_def less_block_id_ext_def intro!: block_id.equality)

end

section \<open>Collections of facts\<close>

named_theorems go_result \<open>simplification of results\<close>
named_theorems go_arith \<open>machine integers\<close>

section \<open>Results\<close>

definition and_then :: "'e + 'a \<Rightarrow> ('a \<Rightarrow> 'e + 'b) \<Rightarrow> 'e + 'b" where
  "and_then r f = (case r of Inl e \<Rightarrow> Inl e | Inr a \<Rightarrow> f a)"

definition or_err :: "'e \<Rightarrow> 'a option \<Rightarrow> 'e + 'a" where
  "or_err e r = (case r of None \<Rightarrow> Inl e | Some a \<Rightarrow> Inr a)"

fun is_ok :: "'e + 'a \<Rightarrow> bool" where
  "is_ok (Inl _) = False"
| "is_ok (Inr _) = True"

fun range_loop :: "('k \<Rightarrow> 's \<Rightarrow> 'e + 's) \<Rightarrow> 'k list \<Rightarrow> 's \<Rightarrow> 'e + 's" where
  "range_loop f [] s = Inr s"
| "range_loop f (k # ks) s = and_then (f k s) (range_loop f ks)"

definition enumerates :: "('k set \<Rightarrow> 'k list) \<Rightarrow> bool" where
  "enumerates iter \<longleftrightarrow> (\<forall>A. finite A \<longrightarrow> set (iter A) = A \<and> distinct (iter A))"

section \<open>The safemath package\<close>

record safemath =
  add_i64 :: "i64 \<Rightarrow> i64 \<Rightarrow> i64 option"
  sub_i64 :: "i64 \<Rightarrow> i64 \<Rightarrow> i64 option"
  mul_i64 :: "i64 \<Rightarrow> i64 \<Rightarrow> i64 option"
  div_i64 :: "i64 \<Rightarrow> i64 \<Rightarrow> i64 option"
  add_u64 :: "u64 \<Rightarrow> u64 \<Rightarrow> u64 option"
  sub_u64 :: "u64 \<Rightarrow> u64 \<Rightarrow> u64 option"
  mul_u64 :: "u64 \<Rightarrow> u64 \<Rightarrow> u64 option"
  div_u64 :: "u64 \<Rightarrow> u64 \<Rightarrow> u64 option"
  shl_u64 :: "u64 \<Rightarrow> u8 \<Rightarrow> u64 option"
  muldiv_u64 :: "u64 \<Rightarrow> u64 \<Rightarrow> u64 \<Rightarrow> u64 option"

definition in_i64 :: "int \<Rightarrow> bool" where
  "in_i64 x \<longleftrightarrow> - (2 ^ 63) \<le> x \<and> x < 2 ^ 63"

definition trunc_div :: "int \<Rightarrow> int \<Rightarrow> int" where
  "trunc_div a b = sgn a * sgn b * (\<bar>a\<bar> div \<bar>b\<bar>)"

definition fit_i64 :: "int \<Rightarrow> i64 option" where
  "fit_i64 x = (if in_i64 x then Some (word_of_int x) else None)"

definition fit_u64 :: "nat \<Rightarrow> u64 option" where
  "fit_u64 n = (if n < 2 ^ 64 then Some (word_of_nat n) else None)"

definition safemath_ok :: "safemath \<Rightarrow> bool" where
  "safemath_ok sm \<longleftrightarrow>
     (\<forall>a b. add_i64 sm a b = fit_i64 (sint a + sint b)) \<and>
     (\<forall>a b. sub_i64 sm a b = fit_i64 (sint a - sint b)) \<and>
     (\<forall>a b. mul_i64 sm a b = fit_i64 (sint a * sint b)) \<and>
     (\<forall>a b. div_i64 sm a b = (if b = 0 then None else fit_i64 (trunc_div (sint a) (sint b)))) \<and>
     (\<forall>a b. add_u64 sm a b = fit_u64 (unat a + unat b)) \<and>
     (\<forall>a b. sub_u64 sm a b = (if unat b \<le> unat a then Some (a - b) else None)) \<and>
     (\<forall>a b. mul_u64 sm a b = fit_u64 (unat a * unat b)) \<and>
     (\<forall>a b. div_u64 sm a b = (if b = 0 then None else Some (a div b))) \<and>
     (\<forall>a n. shl_u64 sm a n = fit_u64 (unat a * 2 ^ unat n)) \<and>
     (\<forall>a b c. muldiv_u64 sm a b c =
        (if c = 0 then None else fit_u64 (unat a * unat b div unat c)))"

definition checked_math :: safemath where
  "checked_math = \<lparr>
     add_i64 = (\<lambda>a b. fit_i64 (sint a + sint b)),
     sub_i64 = (\<lambda>a b. fit_i64 (sint a - sint b)),
     mul_i64 = (\<lambda>a b. fit_i64 (sint a * sint b)),
     div_i64 = (\<lambda>a b. if b = 0 then None else fit_i64 (trunc_div (sint a) (sint b))),
     add_u64 = (\<lambda>a b. fit_u64 (unat a + unat b)),
     sub_u64 = (\<lambda>a b. if unat b \<le> unat a then Some (a - b) else None),
     mul_u64 = (\<lambda>a b. fit_u64 (unat a * unat b)),
     div_u64 = (\<lambda>a b. if b = 0 then None else Some (a div b)),
     shl_u64 = (\<lambda>a n. fit_u64 (unat a * 2 ^ unat n)),
     muldiv_u64 = (\<lambda>a b c. if c = 0 then None else fit_u64 (unat a * unat b div unat c))\<rparr>"

section \<open>The protocol parameters and providers of iota.go\<close>

record api =
  GenesisSlot :: slot_index
  MaxCommittableAge :: slot_index
  ValidationBlocksPerSlot :: u8
  PunishmentEpochs :: u32
  EpochDurationSlots :: slot_index
  SlotsPerEpochExponent :: u8
  MinReferenceManaCost :: mana
  RMCIncrease :: mana
  RMCDecrease :: mana
  RMCIncreaseThreshold :: work_score
  RMCDecreaseThreshold :: work_score
  EpochFromSlot :: "slot_index \<Rightarrow> epoch_index"
  DecayManaBySlots :: "mana \<Rightarrow> slot_index \<Rightarrow> slot_index \<Rightarrow> mana option"
  GenerateManaAndDecayBySlots :: "base_token \<Rightarrow> slot_index \<Rightarrow> slot_index \<Rightarrow> mana option"

section \<open>Lemmas on results and loops\<close>

lemma and_then_simps [simp]:
  "and_then (Inl e) f = Inl e" "and_then (Inr a) f = f a"
  by (simp_all add: and_then_def)

lemma and_then_Inr_iff [go_result]:
  "and_then r f = Inr b \<longleftrightarrow> (\<exists>a. r = Inr a \<and> f a = Inr b)"
  by (cases r) simp_all

lemma and_then_cong [fundef_cong]:
  assumes "r = r'" "\<And>a. r' = Inr a \<Longrightarrow> f a = g a"
  shows "and_then r f = and_then r' g"
  using assms by (cases r') simp_all

lemma or_err_simps [simp]:
  "or_err e None = Inl e" "or_err e (Some a) = Inr a"
  by (simp_all add: or_err_def)

lemma or_err_Inr_iff [go_result]: "or_err e r = Inr a \<longleftrightarrow> r = Some a"
  by (cases r) simp_all

lemma range_loop_append:
  "range_loop f (xs @ ys) s = and_then (range_loop f xs s) (range_loop f ys)"
proof (induction xs arbitrary: s)
  case Nil
  then show ?case by simp
next
  case (Cons x xs)
  then show ?case by (cases "f x s") simp_all
qed

lemma range_loop_invariant:
  assumes "range_loop f ks s = Inr t" "P s"
    and "\<And>k s s'. k \<in> set ks \<Longrightarrow> P s \<Longrightarrow> f k s = Inr s' \<Longrightarrow> P s'"
  shows "P t"
  using assms
proof (induction ks arbitrary: s)
  case Nil
  then show ?case by simp
next
  case (Cons k ks)
  from Cons.prems(1) obtain s' where s': "f k s = Inr s'" "range_loop f ks s' = Inr t"
    by (auto simp: go_result)
  have "P s'" by (rule Cons.prems(3) [OF _ Cons.prems(2) s'(1)]) simp
  then show ?case
  proof (rule Cons.IH [OF s'(2)])
    fix j u u' assume j: "j \<in> set ks" and u: "P u" "f j u = Inr u'"
    from j have "j \<in> set (k # ks)" by simp
    then show "P u'" using u by (rule Cons.prems(3))
  qed
qed

lemma unat_pred [go_arith]: "(t :: 'a::len word) < d \<Longrightarrow> unat (d - 1) = unat d - 1"
  by (metis unat_minus_one word_not_simps(1))

lemma unat_pred_less [go_arith]: "(t :: 'a::len word) < d \<Longrightarrow> unat (d - 1) < unat d"
  using unat_pred [of t d] word_less_nat_alt [of t d] by linarith

lemma less_next_slot: "(t :: slot_index) + 1 \<noteq> 0 \<Longrightarrow> t < t + 1"
  using unatSuc [of t] by (simp add: word_less_nat_alt add.commute)

text \<open>The loop \<^verbatim>\<open>for slot := from; slot > to; slot--\<close>.\<close>

function down_loop :: "(slot_index \<Rightarrow> 's \<Rightarrow> 'e + 's) \<Rightarrow> slot_index \<Rightarrow> slot_index \<Rightarrow> 's \<Rightarrow> 'e + 's" where
  "down_loop f fromSlot toSlot s =
     (if fromSlot > toSlot then and_then (f fromSlot s) (down_loop f (fromSlot - 1) toSlot) else Inr s)"
  by pat_completeness auto

termination
  by (relation "measure (\<lambda>(f, fromSlot, toSlot, s). unat fromSlot)") (auto intro: unat_pred_less)

declare down_loop.simps [simp del]

lemma down_loop_stop [simp]: "\<not> fromSlot > toSlot \<Longrightarrow> down_loop f fromSlot toSlot s = Inr s"
  by (simp add: down_loop.simps)

lemma down_loop_invariant:
  assumes "down_loop f fromSlot toSlot s = Inr t" "P s" "\<And>slot s s'. P s \<Longrightarrow> f slot s = Inr s' \<Longrightarrow> P s'"
  shows "P t"
  using assms
proof (induction f fromSlot toSlot s arbitrary: t rule: down_loop.induct)
  case (1 f fromSlot toSlot s)
  show ?case
  proof (cases "fromSlot > toSlot")
    case True
    with "1.prems"(1) obtain s1 where s1: "f fromSlot s = Inr s1" "down_loop f (fromSlot - 1) toSlot s1 = Inr t"
      by (subst (asm) down_loop.simps) (auto simp: go_result)
    show ?thesis
      by (rule "1.IH" [OF True s1 "1.prems"(3) [OF "1.prems"(2) s1(1)]]) (rule "1.prems"(3))
  next
    case False
    then show ?thesis using "1.prems" by simp
  qed
qed

lemma enumerates_set [simp]: "enumerates iter \<Longrightarrow> finite A \<Longrightarrow> set (iter A) = A"
  by (simp add: enumerates_def)

lemma enumerates_distinct [simp]: "enumerates iter \<Longrightarrow> finite A \<Longrightarrow> distinct (iter A)"
  by (simp add: enumerates_def)

lemma enumerates_sorted_list: "enumerates (sorted_list_of_set :: 'a::linorder set \<Rightarrow> 'a list)"
  by (simp add: enumerates_def)

subsection \<open>State that is updated key by key\<close>

text \<open>
  Many loops of the program visit the keys of a map and change, for each key, only the state
  filed under that key.  The interface names the read and the write of one key; its lemma says
  that such a loop computes, for each visited key, the body at the state the loop started in.
\<close>

locale keyed_state =
  fixes get :: "'s \<Rightarrow> 'k \<Rightarrow> 'v"
    and put :: "'k \<Rightarrow> 'v \<Rightarrow> 's \<Rightarrow> 's"
  assumes get_put: "get (put k v s) j = (if j = k then v else get s j)"
begin

lemma loop_pointwise:
  assumes "range_loop f ks s = Inr t" "distinct ks"
    and f: "\<And>k s. f k s = map_sum id (\<lambda>v. put k v s) (g k (get s k))"
  shows "(\<forall>k\<in>set ks. g k (get s k) = Inr (get t k)) \<and> (\<forall>k. k \<notin> set ks \<longrightarrow> get t k = get s k)"
  using assms(1,2)
proof (induction ks arbitrary: s)
  case Nil
  then show ?case by simp
next
  case (Cons k ks)
  from Cons.prems(1) obtain s' where s': "f k s = Inr s'" "range_loop f ks s' = Inr t"
    by (auto simp: go_result)
  from s'(1) obtain v where v: "g k (get s k) = Inr v" "s' = put k v s"
    unfolding f by (cases "g k (get s k)") auto
  have IH: "\<forall>j\<in>set ks. g j (get s' j) = Inr (get t j)" "\<forall>j. j \<notin> set ks \<longrightarrow> get t j = get s' j"
    using Cons.IH [OF s'(2)] Cons.prems(2) by auto
  have k: "get t k = v" using IH(2) Cons.prems(2) v by (simp add: get_put)
  have other: "\<And>j. j \<noteq> k \<Longrightarrow> get s' j = get s j" using v by (simp add: get_put)
  show ?case
  proof (intro conjI ballI allI impI)
    fix j assume "j \<in> set (k # ks)"
    then show "g j (get s j) = Inr (get t j)"
      using IH(1) k v other by (cases "j = k") auto
  next
    fix j assume "j \<notin> set (k # ks)"
    then show "get t j = get s j" using IH(2) other by auto
  qed
qed

lemma loop_succeeds:
  assumes "distinct ks" "\<forall>k\<in>set ks. is_ok (g k (get s k))"
    and f: "\<And>k s. f k s = map_sum id (\<lambda>v. put k v s) (g k (get s k))"
  shows "\<exists>t. range_loop f ks s = Inr t"
  using assms(1,2)
proof (induction ks arbitrary: s)
  case Nil
  then show ?case by simp
next
  case (Cons k ks)
  then obtain v where v: "g k (get s k) = Inr v"
    by (cases "g k (get s k)") auto
  have "\<forall>j\<in>set ks. is_ok (g j (get (put k v s) j))"
    using Cons.prems by (auto simp: get_put)
  then show ?case using Cons.IH [of "put k v s"] Cons.prems(1) v by (simp add: f)
qed

end

text \<open>A map is keyed state.\<close>

interpretation map_keyed: keyed_state
  "\<lambda>m. m" "\<lambda>k v m. m(k := v)"
  by unfold_locales simp

subsection \<open>Reversible steps\<close>

text \<open>
  Two ledgers of the program apply the changes of a slot and can revert them.  The interface is
  one step, its reversal, the condition under which a step can be reverted and the relation
  between a state and its restored copy; its lemma reverts any sequence of steps.
\<close>

fun steps_ok :: "('d \<Rightarrow> 's \<Rightarrow> 'e + 's) \<Rightarrow> ('d \<Rightarrow> 's \<Rightarrow> bool) \<Rightarrow> 'd list \<Rightarrow> 's \<Rightarrow> bool" where
  "steps_ok step ok [] s = True"
| "steps_ok step ok (d # ds) s =
     (ok d s \<and> (case step d s of Inl _ \<Rightarrow> True | Inr t \<Rightarrow> steps_ok step ok ds t))"

lemma steps_ok_append:
  "steps_ok step ok (ds @ es) s \<longleftrightarrow> steps_ok step ok ds s \<and>
     (case range_loop step ds s of Inl _ \<Rightarrow> True | Inr t \<Rightarrow> steps_ok step ok es t)"
proof (induction ds arbitrary: s)
  case Nil
  then show ?case by simp
next
  case (Cons d ds)
  then show ?case by (cases "step d s") auto
qed

locale reversible =
  fixes step :: "'d \<Rightarrow> 's \<Rightarrow> 'e + 's"
    and undo :: "'d \<Rightarrow> 's \<Rightarrow> 'e + 's"
    and ok :: "'d \<Rightarrow> 's \<Rightarrow> bool"
    and restores :: "'s \<Rightarrow> 's \<Rightarrow> bool"
  assumes restores_refl: "restores s s"
    and undo_step: "ok d s \<Longrightarrow> step d s = Inr t \<Longrightarrow> restores t u \<Longrightarrow> \<exists>v. undo d u = Inr v \<and> restores s v"
begin

lemma undo_all:
  assumes "range_loop step ds s = Inr t" "steps_ok step ok ds s" "restores t u"
  shows "\<exists>v. range_loop undo (rev ds) u = Inr v \<and> restores s v"
  using assms
proof (induction ds arbitrary: s)
  case Nil
  then show ?case by auto
next
  case (Cons d ds)
  from Cons.prems obtain s1 where s1: "step d s = Inr s1" "range_loop step ds s1 = Inr t"
    "ok d s" "steps_ok step ok ds s1" by (auto simp: go_result)
  obtain v1 where v1: "range_loop undo (rev ds) u = Inr v1" "restores s1 v1"
    using Cons.IH [OF s1(2,4) Cons.prems(3)] by blast
  obtain v where "undo d v1 = Inr v" "restores s v" using undo_step [OF s1(3,1) v1(2)] by blast
  then show ?case using v1 by (auto simp: range_loop_append)
qed

end

text \<open>Steps that commit consecutive slots and are undone by a loop down the slots.\<close>

locale reversible_slots = reversible step "\<lambda>d. undo_at (slot_of d)" ok restores
  for step :: "'d \<Rightarrow> 's \<Rightarrow> 'e + 's" and undo_at :: "slot_index \<Rightarrow> 's \<Rightarrow> 'e + 's"
    and slot_of :: "'d \<Rightarrow> slot_index" and ok :: "'d \<Rightarrow> 's \<Rightarrow> bool" and restores :: "'s \<Rightarrow> 's \<Rightarrow> bool" +
  fixes latest :: "'s \<Rightarrow> slot_index"
  assumes step_slot: "ok d s \<Longrightarrow> step d s = Inr t \<Longrightarrow>
    slot_of d = latest s + 1 \<and> slot_of d \<noteq> 0 \<and> latest t = slot_of d"
begin

text \<open>A loop down the committed slots visits the steps in reverse order.\<close>

lemma down_loop_steps:
  assumes "range_loop step ds s = Inr t" "steps_ok step ok ds s"
  shows "latest s \<le> latest t \<and>
    down_loop f (latest t) (latest s) u = range_loop (\<lambda>d. f (slot_of d)) (rev ds) u"
  using assms
proof (induction ds arbitrary: t u rule: rev_induct)
  case Nil
  then show ?case by simp
next
  case (snoc d ds)
  from snoc.prems obtain s1 where s1: "range_loop step ds s = Inr s1" "step d s1 = Inr t"
    "steps_ok step ok ds s" "ok d s1"
    by (auto simp: range_loop_append steps_ok_append go_result)
  note sl = step_slot [OF s1(4,2)]
  have lt: "latest s1 < latest t" "latest t - 1 = latest s1"
    using sl less_next_slot [of "latest s1"] by auto
  have IH: "latest s \<le> latest s1"
    "\<And>u. down_loop f (latest s1) (latest s) u = range_loop (\<lambda>d. f (slot_of d)) (rev ds) u"
    using snoc.IH [OF s1(1,3)] by auto
  have "down_loop f (latest t) (latest s) u = and_then (f (latest t) u) (down_loop f (latest s1) (latest s))"
    using lt IH(1) by (subst down_loop.simps) auto
  also have "down_loop f (latest s1) (latest s) = range_loop (\<lambda>d. f (slot_of d)) (rev ds)"
    using IH(2) by (rule ext)
  finally show ?case using lt IH(1) sl by simp
qed

lemma undo_slots:
  assumes "range_loop step ds s = Inr t" "steps_ok step ok ds s"
  shows "\<exists>v. down_loop undo_at (latest t) (latest s) t = Inr v \<and> restores s v"
  using undo_all [OF assms restores_refl] down_loop_steps [OF assms, of undo_at t] by simp

end

subsection \<open>Three-way comparison\<close>

text \<open>
  The contract of the \<^verbatim>\<open>Compare\<close> methods: a total preorder reported as -1, 0 or 1.  Its client is
  the idiom of the source that keeps the greater of the current and a new value.
\<close>

locale comparator =
  fixes cmp :: "'a \<Rightarrow> 'a \<Rightarrow> int"
  assumes cmp_values: "cmp a b \<in> {-1, 0, 1}"
    and cmp_swap: "cmp a b = - cmp b a"
    and cmp_trans: "cmp a b \<le> 0 \<Longrightarrow> cmp b c \<le> 0 \<Longrightarrow> cmp a c \<le> 0"
begin

lemma cmp_refl [simp]: "cmp a a = 0"
  using cmp_swap [of a a] by simp

lemma cmp_total: "cmp a b \<le> 0 \<or> cmp b a \<le> 0"
  using cmp_swap [of a b] by linarith

lemma cmp_not_greater: "cmp a b \<noteq> 1 \<longleftrightarrow> cmp a b \<le> 0"
  using cmp_values [of a b] by auto

lemma keep_greater:
  defines "keep \<equiv> \<lambda>new cur. if cmp new cur = 1 then new else cur"
  shows "fold keep xs x \<in> insert x (set xs) \<and> (\<forall>y\<in>insert x (set xs). cmp y (fold keep xs x) \<le> 0)"
proof (induction xs arbitrary: x)
  case Nil
  then show ?case by simp
next
  case (Cons a xs)
  have step: "cmp x (keep a x) \<le> 0" "cmp a (keep a x) \<le> 0" "keep a x \<in> {a, x}"
    using cmp_swap [of x a] by (auto simp: keep_def cmp_not_greater)
  note IH = Cons.IH [of "keep a x"]
  have "cmp (keep a x) (fold keep xs (keep a x)) \<le> 0" using IH by blast
  then have "cmp x (fold keep xs (keep a x)) \<le> 0" "cmp a (fold keep xs (keep a x)) \<le> 0"
    using step cmp_trans by blast+
  then show ?case using IH step(3) by auto
qed

end

text \<open>Comparing by a key of a linear order is such a comparison.\<close>

definition compare_by :: "('a \<Rightarrow> 'k::linorder) \<Rightarrow> 'a \<Rightarrow> 'a \<Rightarrow> int" where
  "compare_by key a b = (if key a < key b then -1 else if key b < key a then 1 else 0)"

lemma comparator_compare_by: "comparator (compare_by key)"
  by unfold_locales (auto simp: compare_by_def split: if_splits)

section \<open>Lemmas on machine integers\<close>

lemma sint_range_64: "- (2 ^ 63) \<le> sint (x :: 64 word) \<and> sint x < 2 ^ 63"
  using sint_ge [of x] sint_lt [of x] by simp

lemma in_i64_sint [simp, go_arith]: "in_i64 (sint (x :: 64 word))"
  using sint_range_64 by (simp add: in_i64_def)

lemma word_of_int_sint_add [go_arith]:
  "(word_of_int (sint a + sint b) :: 64 word) = a + b"
  by (simp add: of_int_sint)

lemma word_of_int_sint_diff [go_arith]:
  "(word_of_int (sint a - sint b) :: 64 word) = a - b"
  by (simp add: of_int_sint)

lemma sint_word_of_int_64 [go_arith]:
  assumes "in_i64 x"
  shows "sint (word_of_int x :: 64 word) = x"
  using assms by (simp add: in_i64_def sint_sbintrunc' signed_take_bit_int_eq_self)

lemma unat_less_u32: "unat (e :: 32 word) < 2 ^ 32"
  using unsigned_less [of e] by simp

lemma uint_of_nonneg: "0 \<le> sint (s :: 64 word) \<Longrightarrow> uint s = sint s"
proof -
  assume "0 \<le> sint s"
  then have "take_bit 64 (sint s) = sint s"
    using sint_range_64 [of s] by (simp add: take_bit_int_eq_self)
  moreover have "uint (word_of_int (sint s) :: 64 word) = take_bit 64 (sint s)"
    by (simp only: unsigned_of_int) simp
  ultimately show ?thesis by (simp add: of_int_sint)
qed

lemma sint_ucast_u32: "sint (ucast (e :: 32 word) :: 64 word) = int (unat e)"
proof -
  have "(ucast e :: 64 word) = word_of_int (int (unat e))"
    by (simp)
  moreover have "int (unat e) < 2 ^ 32" using unat_less_u32 [of e]
    by (metis of_nat_less_iff of_nat_numeral of_nat_power)
  moreover have "in_i64 x" if "0 \<le> x" "x < 2 ^ 32" for x
    using that by (simp add: in_i64_def)
  ultimately show ?thesis by (simp only: sint_word_of_int_64 of_nat_0_le_iff)
qed

lemma ucast_u32_u64_u32 [simp]: "ucast (ucast (e :: 32 word) :: 64 word) = e"
  by (rule ucast_up_ucast_id) (simp add: is_up_def source_size_def target_size_def word_size)

lemma ucast_u32_of_small:
  assumes "0 \<le> sint (s :: 64 word)" "sint s < 2 ^ 32"
  shows "int (unat (ucast s :: 32 word)) = sint s" "ucast (ucast s :: 32 word) = s"
proof -
  have u: "uint s = sint s" using assms(1) by (rule uint_of_nonneg)
  have "uint (ucast s :: 32 word) = take_bit 32 (uint s)"
    by (simp only: unsigned_ucast_eq) simp
  then have c: "uint (ucast s :: 32 word) = uint s"
    using assms u by (simp add: take_bit_int_eq_self)
  show "int (unat (ucast s :: 32 word)) = sint s" using c u by (simp only: uint_nat)
  show "ucast (ucast s :: 32 word) = s" using c
    by (metis ucast_eq word_of_int_uint)
qed

lemma fit_i64_Some_iff [go_arith]:
  "fit_i64 x = Some w \<longleftrightarrow> in_i64 x \<and> w = word_of_int x"
  by (auto simp: fit_i64_def)

lemma fit_i64_sint [simp]: "fit_i64 (sint a) = Some a"
  by (simp add: fit_i64_def)

lemma fit_u64_Some_iff [go_arith]:
  "fit_u64 n = Some w \<longleftrightarrow> n < 2 ^ 64 \<and> w = word_of_nat n"
  by (auto simp: fit_u64_def)

lemma unat_fit_u64 [go_arith]: "fit_u64 n = Some w \<Longrightarrow> unat w = n"
  by (auto simp: fit_u64_Some_iff unat_of_nat)

lemma safemath_ok_checked [simp]: "safemath_ok checked_math"
  by (simp add: safemath_ok_def checked_math_def)

lemma safemath_add_i64: "safemath_ok sm \<Longrightarrow> add_i64 sm a b = fit_i64 (sint a + sint b)"
  and safemath_sub_i64: "safemath_ok sm \<Longrightarrow> sub_i64 sm a b = fit_i64 (sint a - sint b)"
  and safemath_mul_i64: "safemath_ok sm \<Longrightarrow> mul_i64 sm a b = fit_i64 (sint a * sint b)"
  and safemath_div_i64: "safemath_ok sm \<Longrightarrow>
        div_i64 sm a b = (if b = 0 then None else fit_i64 (trunc_div (sint a) (sint b)))"
  and safemath_add_u64: "safemath_ok sm \<Longrightarrow> add_u64 sm c d = fit_u64 (unat c + unat d)"
  and safemath_sub_u64: "safemath_ok sm \<Longrightarrow>
        sub_u64 sm c d = (if unat d \<le> unat c then Some (c - d) else None)"
  and safemath_mul_u64: "safemath_ok sm \<Longrightarrow> mul_u64 sm c d = fit_u64 (unat c * unat d)"
  and safemath_div_u64: "safemath_ok sm \<Longrightarrow> div_u64 sm c d = (if d = 0 then None else Some (c div d))"
  and safemath_shl_u64: "safemath_ok sm \<Longrightarrow> shl_u64 sm c n = fit_u64 (unat c * 2 ^ unat n)"
  and safemath_muldiv_u64: "safemath_ok sm \<Longrightarrow> muldiv_u64 sm c d e =
        (if e = 0 then None else fit_u64 (unat c * unat d div unat e))"
  by (simp_all add: safemath_ok_def)

lemmas safemath_laws = safemath_add_i64 safemath_sub_i64 safemath_mul_i64 safemath_div_i64
  safemath_add_u64 safemath_sub_u64 safemath_mul_u64 safemath_div_u64 safemath_shl_u64
  safemath_muldiv_u64

text \<open>A checked addition is undone by the checked subtraction of the same amount.\<close>

lemma safe_sub_after_add:
  assumes "safemath_ok sm" "add_i64 sm a b = Some c"
  shows "sub_i64 sm c b = Some a"
proof -
  from assms have c: "in_i64 (sint a + sint b)" "c = word_of_int (sint a + sint b)"
    by (auto simp: safemath_laws fit_i64_Some_iff)
  from c(1) have "sint c = sint a + sint b"
    unfolding c(2) by (rule sint_word_of_int_64)
  then show ?thesis using assms(1) by (simp add: safemath_laws)
qed

lemma in_i64_nat: "n < 2 ^ 63 \<Longrightarrow> in_i64 (int n) \<and> in_i64 (- int n)"
  by (simp add: in_i64_def)

lemma sint_uminus_64:
  assumes "unat (x :: 64 word) < 2 ^ 63"
  shows "sint (- x) = - sint x"
proof -
  note i = in_i64_nat [OF assms]
  have "sint (word_of_int (int (unat x)) :: 64 word) = int (unat x)"
    using i by (intro sint_word_of_int_64) simp
  moreover have "sint (word_of_int (- int (unat x)) :: 64 word) = - int (unat x)"
    using i by (intro sint_word_of_int_64) simp
  ultimately show ?thesis by simp
qed

lemma safe_sub_uminus:
  assumes "safemath_ok sm" "unat x < 2 ^ 63"
  shows "sub_i64 sm 0 (- x) = Some x"
  using assms by (simp add: safemath_laws sint_uminus_64)

lemma unat_ucast_u32: "unat (ucast (e :: 32 word) :: 64 word) = unat e"
proof -
  have "uint (ucast e :: 64 word) = sint (ucast e :: 64 word)"
    by (rule uint_of_nonneg) (simp only: sint_ucast_u32 of_nat_0_le_iff)
  then have "int (unat (ucast e :: 64 word)) = int (unat e)" by (simp only: sint_ucast_u32 uint_nat)
  then show ?thesis by (simp only: of_nat_eq_iff)
qed

lemma sub_u64_fits:
  assumes "safemath_ok sm" "unat b \<le> unat a"
  shows "sub_u64 sm a b = Some (a - b)" "unat (a - b) = unat a - unat b"
  using assms by (simp_all add: safemath_laws unat_sub word_le_nat_alt)

lemma add_u64_fits:
  assumes "safemath_ok sm"
  shows "(add_u64 sm a b = None \<longleftrightarrow> 2 ^ 64 \<le> unat a + unat b) \<and>
    (\<forall>r. add_u64 sm a b = Some r \<longrightarrow> unat r = unat a + unat b)"
proof -
  have "fit_u64 (unat a + unat b) = None \<longleftrightarrow> 2 ^ 64 \<le> unat a + unat b" by (simp add: fit_u64_def not_less)
  then show ?thesis using assms by (simp only: safemath_laws) (blast intro: unat_fit_u64)
qed

lemma unat_eq_iff: "unat a = unat b \<longleftrightarrow> a = b"
  by (simp add: word_unat_eq_iff)

lemma unat_Suc_less: "a < b \<Longrightarrow> unat (a + 1 :: 'a::len word) = unat a + 1"
proof -
  assume "a < b"
  then have "unat a < unat b" by (simp add: word_less_nat_alt)
  moreover have "unat b < 2 ^ LENGTH('a)" by (rule unsigned_less)
  ultimately have "unat a + 1 < 2 ^ LENGTH('a)" by linarith
  then have "unat a + unat (1 :: 'a word) < 2 ^ LENGTH('a)" by simp
  then show ?thesis by (simp only: unat_add_lem) simp
qed

lemma succ_le_iff: "a \<noteq> - 1 \<Longrightarrow> a + 1 \<le> b \<longleftrightarrow> a < (b :: slot_index)"
proof -
  assume "a \<noteq> - 1"
  then have "a < - 1" by (simp add: word_order.not_eq_extremum)
  then have "unat (a + 1) = unat a + 1" by (rule unat_Suc_less)
  then show ?thesis by (simp add: word_le_nat_alt word_less_nat_alt Suc_le_eq)
qed

subsection \<open>Loops over increasing slots\<close>

text \<open>
  The loop \<^verbatim>\<open>for i := from; i <= to; i++\<close> on 32 bit slots.  It does not end when \<open>to\<close> is the
  greatest slot; otherwise it visits the slots of the interval.
\<close>

partial_function (option) up_loop ::
  "(slot_index \<Rightarrow> 's \<Rightarrow> 's) \<Rightarrow> slot_index \<Rightarrow> slot_index \<Rightarrow> 's \<Rightarrow> 's option" where
  "up_loop f i to s = (if i \<le> to then up_loop f (i + 1) to (f i s) else Some s)"

definition slots_upto :: "slot_index \<Rightarrow> slot_index \<Rightarrow> slot_index list" where
  "slots_upto i to = map word_of_nat [unat i..<Suc (unat to)]"

lemma slots_upto_empty: "to < i \<Longrightarrow> slots_upto i to = []"
  by (simp add: slots_upto_def word_less_nat_alt)

lemma slots_upto_Cons:
  assumes "i \<le> to" "to \<noteq> - 1"
  shows "slots_upto i to = i # slots_upto (i + 1) to" "unat (i + 1) = Suc (unat i)"
proof -
  have "to < - 1" using assms(2) by (simp add: word_order.not_eq_extremum)
  then have "i < - 1" using assms(1) by simp
  then show s: "unat (i + 1) = Suc (unat i)" using unat_Suc_less [of i "- 1"] by simp
  show "slots_upto i to = i # slots_upto (i + 1) to"
    using assms(1) by (simp add: slots_upto_def s upt_conv_Cons word_le_nat_alt del: upt_Suc)
qed

lemma up_loop_fold:
  assumes "to \<noteq> - 1"
  shows "up_loop f i to s = Some (fold f (slots_upto i to) s)"
proof (induction "Suc (unat to) - unat i" arbitrary: i s rule: less_induct)
  case less
  show ?case
  proof (cases "i \<le> to")
    case True
    note c = slots_upto_Cons [OF True assms]
    have "Suc (unat to) - unat (i + 1) < Suc (unat to) - unat i"
      using True c(2) by (simp add: word_le_nat_alt)
    from less.hyps [OF this] show ?thesis using True c(1) by (simp add: up_loop.simps)
  next
    case False
    then show ?thesis by (simp add: up_loop.simps slots_upto_empty)
  qed
qed

lemma set_slots_upto: "set (slots_upto i to) = {j. i \<le> j \<and> j \<le> to}"
proof (intro set_eqI iffI)
  fix j assume "j \<in> set (slots_upto i to)"
  then obtain n where n: "j = word_of_nat n" "unat i \<le> n" "n \<le> unat to"
    by (auto simp: slots_upto_def simp del: upt_Suc)
  have "unat to < 2 ^ 32" using unsigned_less [of to] by simp
  then have "unat j = n" using n by (simp add: unat_of_nat)
  then show "j \<in> {j. i \<le> j \<and> j \<le> to}" using n by (simp add: word_le_nat_alt)
next
  fix j assume "j \<in> {j. i \<le> j \<and> j \<le> to}"
  then have "unat j \<in> set [unat i..<Suc (unat to)]" by (simp add: word_le_nat_alt less_Suc_eq_le del: upt_Suc)
  then have "word_of_nat (unat j) \<in> set (slots_upto i to)" unfolding slots_upto_def by (simp only: set_map imageI)
  then show "j \<in> set (slots_upto i to)" by simp
qed

lemma sint_eq_0: "sint (x :: 64 word) = 0 \<Longrightarrow> x = 0"
  by (rule signed_word_eqI) simp

lemma word_of_nat_small_0: "word_of_nat n = (0 :: 64 word) \<Longrightarrow> n < 2 ^ 64 \<Longrightarrow> n = 0"
  by (simp add: word_of_nat_eq_0_iff) (metis nat_dvd_not_less neq0_conv)

lemma sint_of_nat_64: "n < 2 ^ 63 \<Longrightarrow> sint (word_of_nat n :: i64) = int n"
  using sint_word_of_int_64 [of "int n"] in_i64_nat [of n] by simp

lemma fold_keeps: "(\<And>x s. P s \<Longrightarrow> P (f x s)) \<Longrightarrow> P s \<Longrightarrow> P (fold f xs s)"
  by (induction xs arbitrary: s) simp_all

end
