(* ===== verification/AccountData.thy ===== *)
theory AccountData
  imports Prelude
begin

text \<open>
  The data of the accounts ledger: \<^verbatim>\<open>accounts/credits.go\<close>, \<^verbatim>\<open>accounts/accounts.go\<close>,
  \<^verbatim>\<open>accounts/mana.go\<close>, \<^verbatim>\<open>model/version_and_hash.go\<close>, \<^verbatim>\<open>model/account_diff.go\<close>,
  \<^verbatim>\<open>model/signaled_block.go\<close>, and the part of a block (\<^verbatim>\<open>model/block.go\<close>,
  \<^verbatim>\<open>blocks/block.go\<close>) that the ledger and the congestion control read.

  The mutexes of the Go types are not modelled: every operation is atomic.  iota.go's
  \<^verbatim>\<open>BlockIssuerKeys\<close> is a sorted slice without duplicates and is represented by the set of
  its keys.
\<close>

section \<open>Blocks\<close>

text \<open>A root block and a missing block have no model block, and so no body.\<close>

datatype block_body =
    NoBody
  | BasicBlock
  | ValidationBlock (HighestSupportedVersion: u8) (ProtocolParametersHash: hash_id)

text \<open>Times are nanoseconds since the Unix epoch.\<close>

record block =
  blk_ID :: block_id
  blk_IssuerID :: account_id
  blk_IssuingTime :: int
  blk_WorkScore :: work_score
  blk_body :: block_body

definition IsBasicBlock :: "block \<Rightarrow> bool" where
  "IsBasicBlock b = (case blk_body b of BasicBlock \<Rightarrow> True | _ \<Rightarrow> False)"

definition IsValidationBlock :: "block \<Rightarrow> bool" where
  "IsValidationBlock b = (case blk_body b of ValidationBlock _ _ \<Rightarrow> True | _ \<Rightarrow> False)"

section \<open>Block issuance credits\<close>

record credits =
  cr_value :: i64
  cr_updateSlot :: slot_index

definition NewBlockIssuanceCredits :: "i64 \<Rightarrow> slot_index \<Rightarrow> credits" where
  "NewBlockIssuanceCredits v t = \<lparr>cr_value = v, cr_updateSlot = t\<rparr>"

text \<open>The variadic update slot of the source is an option: None is a call without it.\<close>

definition Credits_Update :: "i64 \<Rightarrow> slot_index option \<Rightarrow> credits \<Rightarrow> credits" where
  "Credits_Update change updateSlot c =
     (let c = c\<lparr>cr_value := cr_value c + change\<rparr>
      in case updateSlot of None \<Rightarrow> c | Some s \<Rightarrow> c\<lparr>cr_updateSlot := s\<rparr>)"

section \<open>Supported protocol versions\<close>

record version_and_hash =
  vh_Version :: u8
  vh_Hash :: hash_id

definition EmptyVersionAndHash :: version_and_hash where
  "EmptyVersionAndHash = \<lparr>vh_Version = 0, vh_Hash = 0\<rparr>"

record signaled_block =
  sb_ID :: block_id
  sb_IssuingTime :: int
  sb_HighestSupportedVersion :: u8
  sb_ProtocolParametersHash :: hash_id

definition NewSignaledBlock :: "block \<Rightarrow> u8 \<Rightarrow> hash_id \<Rightarrow> signaled_block" where
  "NewSignaledBlock b version hash =
     \<lparr>sb_ID = blk_ID b, sb_IssuingTime = blk_IssuingTime b,
      sb_HighestSupportedVersion = version, sb_ProtocolParametersHash = hash\<rparr>"

text \<open>\<^verbatim>\<open>bytes.Compare\<close> on the numbers that two identifiers spell.\<close>

definition bytes_Compare :: "nat \<Rightarrow> nat \<Rightarrow> int" where
  "bytes_Compare a b = (if a < b then -1 else if b < a then 1 else 0)"

text \<open>
  The receiver and the argument are pointers, nil being None.  \<open>bid\<close> stands for
  \<^verbatim>\<open>BlockID.Bytes\<close> of iota.go.
\<close>

fun SignaledBlock_Compare ::
  "(block_id \<Rightarrow> nat) \<Rightarrow> signaled_block option \<Rightarrow> signaled_block option \<Rightarrow> int" where
  "SignaledBlock_Compare bid None None = 0"
| "SignaledBlock_Compare bid None (Some other) = -1"
| "SignaledBlock_Compare bid (Some s) None = 1"
| "SignaledBlock_Compare bid (Some s) (Some other) =
     (if sb_HighestSupportedVersion s > sb_HighestSupportedVersion other then 1
      else if sb_HighestSupportedVersion s < sb_HighestSupportedVersion other then -1
      else if sb_IssuingTime s > sb_IssuingTime other then 1
      else if sb_IssuingTime s < sb_IssuingTime other then -1
      else bytes_Compare (bid (sb_ID s)) (bid (sb_ID other)))"

section \<open>Account data\<close>

record account_data =
  ad_id :: account_id
  ad_credits :: credits
  ad_expirySlot :: slot_index
  ad_outputID :: output_id
  ad_blockIssuerKeys :: "issuer_key set"
  ad_validatorStake :: base_token
  ad_delegationStake :: base_token
  ad_fixedCost :: mana
  ad_stakeEndEpoch :: epoch_index
  ad_latestSupported :: version_and_hash

text \<open>
  \<open>NewAccountData\<close> is the call without options; the options \<^verbatim>\<open>WithX\<close> of the source call
  the setters, which are the record updates here.
\<close>

definition NewAccountData :: "account_id \<Rightarrow> account_data" where
  "NewAccountData accountID =
     \<lparr>ad_id = accountID, ad_credits = \<lparr>cr_value = 0, cr_updateSlot = 0\<rparr>, ad_expirySlot = 0,
      ad_outputID = 0, ad_blockIssuerKeys = {}, ad_validatorStake = 0, ad_delegationStake = 0,
      ad_fixedCost = 0, ad_stakeEndEpoch = 0, ad_latestSupported = EmptyVersionAndHash\<rparr>"

definition AddBlockIssuerKeys :: "issuer_key set \<Rightarrow> account_data \<Rightarrow> account_data" where
  "AddBlockIssuerKeys ks a = a\<lparr>ad_blockIssuerKeys := ad_blockIssuerKeys a \<union> ks\<rparr>"

definition RemoveBlockIssuerKeys :: "issuer_key set \<Rightarrow> account_data \<Rightarrow> account_data" where
  "RemoveBlockIssuerKeys ks a = a\<lparr>ad_blockIssuerKeys := ad_blockIssuerKeys a - ks\<rparr>"

section \<open>Account diffs\<close>

record account_diff =
  BICChange :: i64
  PreviousUpdatedSlot :: slot_index
  NewExpirySlot :: slot_index
  PreviousExpirySlot :: slot_index
  NewOutputID :: output_id
  PreviousOutputID :: output_id
  BlockIssuerKeysAdded :: "issuer_key set"
  BlockIssuerKeysRemoved :: "issuer_key set"
  ValidatorStakeChange :: i64
  DelegationStakeChange :: i64
  StakeEndEpochChange :: i64
  FixedCostChange :: i64
  PrevLatestSupportedVersionAndHash :: version_and_hash
  NewLatestSupportedVersionAndHash :: version_and_hash

definition NewAccountDiff :: account_diff where
  "NewAccountDiff =
     \<lparr>BICChange = 0, PreviousUpdatedSlot = 0, NewExpirySlot = 0, PreviousExpirySlot = 0,
      NewOutputID = 0, PreviousOutputID = 0, BlockIssuerKeysAdded = {},
      BlockIssuerKeysRemoved = {}, ValidatorStakeChange = 0, DelegationStakeChange = 0,
      StakeEndEpochChange = 0, FixedCostChange = 0,
      PrevLatestSupportedVersionAndHash = EmptyVersionAndHash,
      NewLatestSupportedVersionAndHash = EmptyVersionAndHash\<rparr>"

section \<open>Lemmas\<close>

lemma Credits_Update_undo [simp]:
  "Credits_Update (- change) (Some (cr_updateSlot c)) (Credits_Update change (Some s) c) = c"
  by (simp add: Credits_Update_def)

text \<open>Signals are ordered by version, then issuing time, then identifier; nil is below all.\<close>

fun signal_key :: "(block_id \<Rightarrow> nat) \<Rightarrow> signaled_block \<Rightarrow> u8 \<times> int \<times> nat" where
  "signal_key bid s =
     (sb_HighestSupportedVersion s, sb_IssuingTime s, bid (sb_ID s))"

lemma SignaledBlock_Compare_by_key:
  "SignaledBlock_Compare bid = compare_by (map_option (signal_key bid))"
proof (intro ext)
  fix a b
  show "SignaledBlock_Compare bid a b = compare_by (map_option (signal_key bid)) a b"
    by (cases a; cases b)
      (auto simp: compare_by_def bytes_Compare_def less_option_def split: if_splits)
qed

interpretation signal: comparator "SignaledBlock_Compare bid" for bid
  unfolding SignaledBlock_Compare_by_key by (rule comparator_compare_by)

end
