(* ===== verification/Outputs.thy ===== *)
theory Outputs
  imports AccountData
begin

text \<open>
  Ledger outputs.  \<open>tx_output\<close> is what the program reads of an \<^verbatim>\<open>iotago.Output\<close>: its amount, its
  stored mana and the features that decide how an account changes.  \<open>utxo_output\<close> is the Go type
  \<^verbatim>\<open>utxoledger.Output\<close> with the output decoded; the encoded bytes and the inclusion proof are
  not modelled.  A basic output carries the key of its implicit account creation address, if that
  is what its address unlock condition holds.
\<close>

record staking_feature =
  StakedAmount :: base_token
  sf_FixedCost :: mana
  EndEpoch :: epoch_index

record block_issuer_feature =
  BlockIssuerKeys :: "issuer_key set"
  ExpirySlot :: slot_index

datatype output_kind =
    OutputAccount account_id "block_issuer_feature option" "staking_feature option"
  | OutputDelegation hash_id account_id base_token
  | OutputBasic "issuer_key option"
  | OutputOther

record tx_output =
  BaseTokenAmount :: base_token
  StoredMana :: mana
  out_kind :: output_kind

record utxo_output =
  uo_outputID :: output_id
  uo_blockID :: block_id
  uo_slotBooked :: slot_index
  uo_output :: tx_output

definition CopyWithBlockIDAndSlotBooked :: "block_id \<Rightarrow> slot_index \<Rightarrow> utxo_output \<Rightarrow> utxo_output" where
  "CopyWithBlockIDAndSlotBooked blockID slotBooked o' = o'\<lparr>uo_blockID := blockID, uo_slotBooked := slotBooked\<rparr>"

fun Staking :: "output_kind \<Rightarrow> staking_feature option" where
  "Staking (OutputAccount _ _ st) = st"
| "Staking _ = None"

fun BlockIssuer :: "output_kind \<Rightarrow> block_issuer_feature option" where
  "BlockIssuer (OutputAccount _ bi _) = bi"
| "BlockIssuer _ = None"

end
