(* ===== verification/UtxoLedger.thy ===== *)
theory UtxoLedger
  imports Outputs
begin

text \<open>
  The UTXO ledger, \<^verbatim>\<open>engine/utxoledger\<close>: \<^verbatim>\<open>manager.go\<close>, \<^verbatim>\<open>slot_diff.go\<close>, \<^verbatim>\<open>spent.go\<close>,
  \<^verbatim>\<open>spent_status.go\<close>, \<^verbatim>\<open>state_tree.go\<close>, \<^verbatim>\<open>iteration.go\<close>, \<^verbatim>\<open>output.go\<close>, \<^verbatim>\<open>snapshot.go\<close>.

  \<^item> \<open>utxo_manager\<close> has one field for each key prefix of \<^verbatim>\<open>database_prefixes.go\<close> and one for the
    state tree; a batch of mutations is applied in order.
  \<^item> \<open>creationSlot\<close> stands for iota.go's \<^verbatim>\<open>OutputID.CreationSlot\<close>, \<open>iter\<close> for the order in which the
    key-value store iterates, \<open>root\<close> for the root hash of the authenticated map.
  \<^item> The snapshot is modelled as the values it holds, in the order in which they are written; their
    byte encoding is not modelled here.
  \<^item> The lemmas show that rolling back a slot, or a sequence of slots, restores the ledger; that the
    ledger invariant holds after every operation and with it the check of the state tree; that a
    commit changes the balance by what it creates minus what it spends; and that importing an
    exported snapshot yields the unspent outputs of the target slot.
\<close>

section \<open>State\<close>

record spent =
  sp_outputID :: output_id
  sp_transactionIDSpent :: hash_id
  sp_slotSpent :: slot_index
  sp_output :: utxo_output

definition NewSpent :: "utxo_output \<Rightarrow> hash_id \<Rightarrow> slot_index \<Rightarrow> spent" where
  "NewSpent output transactionIDSpent slotSpent =
     \<lparr>sp_outputID = uo_outputID output, sp_transactionIDSpent = transactionIDSpent,
      sp_slotSpent = slotSpent, sp_output = output\<rparr>"

record slot_diff =
  sd_Slot :: slot_index
  sd_Outputs :: "utxo_output list"
  sd_Spents :: "spent list"

text \<open>The stored value of an output, without the output identifier that is its key.\<close>

type_synonym stored_output = "block_id \<times> slot_index \<times> tx_output"

record utxo_manager =
  um_ledgerSlot :: "slot_index option"
  um_outputs :: "output_id \<rightharpoonup> stored_output"
  um_spents :: "output_id \<rightharpoonup> hash_id \<times> slot_index"
  um_unspent :: "output_id set"
  um_diffs :: "slot_index \<rightharpoonup> output_id list \<times> output_id list"
  um_stateTree :: "output_id \<rightharpoonup> slot_index"

datatype utxo_error =
    KeyNotFound
  | ErrOutputsSumNotEqualTotalSupply
  | InvalidSnapshotSlot slot_index slot_index

definition New_utxo :: utxo_manager where
  "New_utxo = \<lparr>um_ledgerSlot = None, um_outputs = Map.empty, um_spents = Map.empty, um_unspent = {},
     um_diffs = Map.empty, um_stateTree = Map.empty\<rparr>"

section \<open>Database helpers\<close>

definition Output_value :: "utxo_output \<Rightarrow> stored_output" where
  "Output_value out = (uo_blockID out, uo_slotBooked out, uo_output out)"

definition Output_load :: "output_id \<Rightarrow> stored_output \<Rightarrow> utxo_output" where
  "Output_load outputID = (\<lambda>(blockID, slotBooked, output).
     \<lparr>uo_outputID = outputID, uo_blockID = blockID, uo_slotBooked = slotBooked, uo_output = output\<rparr>)"

definition storeOutput :: "utxo_output \<Rightarrow> utxo_manager \<Rightarrow> utxo_manager" where
  "storeOutput out m = m\<lparr>um_outputs := (um_outputs m)(uo_outputID out \<mapsto> Output_value out)\<rparr>"

definition deleteOutput :: "utxo_output \<Rightarrow> utxo_manager \<Rightarrow> utxo_manager" where
  "deleteOutput out m = m\<lparr>um_outputs := (um_outputs m)(uo_outputID out := None)\<rparr>"

definition markAsUnspent :: "utxo_output \<Rightarrow> utxo_manager \<Rightarrow> utxo_manager" where
  "markAsUnspent out m = m\<lparr>um_unspent := insert (uo_outputID out) (um_unspent m)\<rparr>"

definition deleteOutputLookups :: "utxo_output \<Rightarrow> utxo_manager \<Rightarrow> utxo_manager" where
  "deleteOutputLookups out m = m\<lparr>um_unspent := um_unspent m - {uo_outputID out}\<rparr>"

definition storeSpent :: "spent \<Rightarrow> utxo_manager \<Rightarrow> utxo_manager" where
  "storeSpent s m = m\<lparr>um_spents := (um_spents m)(sp_outputID s \<mapsto> (sp_transactionIDSpent s, sp_slotSpent s))\<rparr>"

definition deleteSpent :: "spent \<Rightarrow> utxo_manager \<Rightarrow> utxo_manager" where
  "deleteSpent s m = m\<lparr>um_spents := (um_spents m)(sp_outputID s := None)\<rparr>"

definition storeSpentAndMarkOutputAsSpent :: "spent \<Rightarrow> utxo_manager \<Rightarrow> utxo_manager" where
  "storeSpentAndMarkOutputAsSpent s m = deleteOutputLookups (sp_output s) (storeSpent s m)"

definition deleteSpentAndMarkOutputAsUnspent :: "spent \<Rightarrow> utxo_manager \<Rightarrow> utxo_manager" where
  "deleteSpentAndMarkOutputAsUnspent s m = markAsUnspent (sp_output s) (deleteSpent s m)"

text \<open>The stored diff holds the identifiers in lexical order.\<close>

definition storeDiff :: "slot_diff \<Rightarrow> utxo_manager \<Rightarrow> utxo_manager" where
  "storeDiff d m = m\<lparr>um_diffs := (um_diffs m)(sd_Slot d \<mapsto>
     (map uo_outputID (sort_key uo_outputID (sd_Outputs d)),
      map (uo_outputID \<circ> sp_output) (sort_key sp_outputID (sd_Spents d))))\<rparr>"

definition deleteDiff :: "slot_index \<Rightarrow> utxo_manager \<Rightarrow> utxo_manager" where
  "deleteDiff slot m = m\<lparr>um_diffs := (um_diffs m)(slot := None)\<rparr>"

definition storeLedgerIndex :: "slot_index \<Rightarrow> utxo_manager \<Rightarrow> utxo_manager" where
  "storeLedgerIndex slot m = m\<lparr>um_ledgerSlot := Some slot\<rparr>"

definition stateTree_Set :: "(output_id \<Rightarrow> slot_index) \<Rightarrow> utxo_output \<Rightarrow> utxo_manager \<Rightarrow> utxo_manager" where
  "stateTree_Set creationSlot out m =
     m\<lparr>um_stateTree := (um_stateTree m)(uo_outputID out \<mapsto> creationSlot (uo_outputID out))\<rparr>"

definition stateTree_Delete :: "output_id \<Rightarrow> utxo_manager \<Rightarrow> utxo_manager" where
  "stateTree_Delete outputID m = m\<lparr>um_stateTree := (um_stateTree m)(outputID := None)\<rparr>"

section \<open>Reading\<close>

definition ReadLedgerIndex :: "slot_index \<Rightarrow> utxo_manager \<Rightarrow> slot_index" where
  "ReadLedgerIndex genesisSlot m = (case um_ledgerSlot m of None \<Rightarrow> genesisSlot | Some s \<Rightarrow> s)"

definition IsOutputIDUnspent :: "output_id \<Rightarrow> utxo_manager \<Rightarrow> bool" where
  "IsOutputIDUnspent outputID m = (outputID \<in> um_unspent m)"

definition ReadOutputByOutputID :: "utxo_manager \<Rightarrow> output_id \<Rightarrow> utxo_error + utxo_output" where
  "ReadOutputByOutputID m outputID =
     and_then (or_err KeyNotFound (um_outputs m outputID)) (\<lambda>v. Inr (Output_load outputID v))"

definition ReadSpentForOutputID :: "utxo_manager \<Rightarrow> output_id \<Rightarrow> utxo_error + spent" where
  "ReadSpentForOutputID m outputID =
     and_then (ReadOutputByOutputID m outputID) (\<lambda>output.
     and_then (or_err KeyNotFound (um_spents m outputID)) (\<lambda>(transactionIDSpent, slotSpent).
     Inr \<lparr>sp_outputID = outputID, sp_transactionIDSpent = transactionIDSpent, sp_slotSpent = slotSpent,
          sp_output = output\<rparr>))"

fun read_all :: "('k \<Rightarrow> 'e + 'v) \<Rightarrow> 'k list \<Rightarrow> 'e + 'v list" where
  "read_all f [] = Inr []"
| "read_all f (k # ks) = and_then (f k) (\<lambda>v. and_then (read_all f ks) (\<lambda>vs. Inr (v # vs)))"

definition SlotDiffWithoutLocking :: "utxo_manager \<Rightarrow> slot_index \<Rightarrow> utxo_error + slot_diff" where
  "SlotDiffWithoutLocking m slot =
     and_then (or_err KeyNotFound (um_diffs m slot)) (\<lambda>(outputIDs, spentIDs).
     and_then (read_all (ReadOutputByOutputID m) outputIDs) (\<lambda>outputs.
     and_then (read_all (ReadSpentForOutputID m) spentIDs) (\<lambda>spents.
     Inr \<lparr>sd_Slot = slot, sd_Outputs = outputs, sd_Spents = spents\<rparr>)))"

definition UnspentOutputs ::
  "(output_id set \<Rightarrow> output_id list) \<Rightarrow> utxo_manager \<Rightarrow> utxo_error + utxo_output list" where
  "UnspentOutputs iter m = read_all (ReadOutputByOutputID m) (iter (um_unspent m))"

definition SpentOutputs ::
  "(output_id set \<Rightarrow> output_id list) \<Rightarrow> utxo_manager \<Rightarrow> utxo_error + spent list" where
  "SpentOutputs iter m = read_all (ReadSpentForOutputID m) (iter (dom (um_spents m)))"

definition ComputeLedgerBalance ::
  "(output_id set \<Rightarrow> output_id list) \<Rightarrow> utxo_manager \<Rightarrow> utxo_error + base_token \<times> nat" where
  "ComputeLedgerBalance iter m =
     and_then (UnspentOutputs iter m) (\<lambda>outs.
       Inr (fold (\<lambda>out balance. balance + BaseTokenAmount (uo_output out)) outs 0, length outs))"

definition CheckLedgerState ::
  "(output_id set \<Rightarrow> output_id list) \<Rightarrow> base_token \<Rightarrow> utxo_manager \<Rightarrow> utxo_error + unit" where
  "CheckLedgerState iter tokenSupply m =
     and_then (ComputeLedgerBalance iter m) (\<lambda>(total, _).
       if total \<noteq> tokenSupply then Inl ErrOutputsSumNotEqualTotalSupply else Inr ())"

definition CheckStateTree ::
  "((output_id \<rightharpoonup> slot_index) \<Rightarrow> hash_id) \<Rightarrow> (output_id \<Rightarrow> slot_index) \<Rightarrow> (output_id set \<Rightarrow> output_id list)
     \<Rightarrow> utxo_manager \<Rightarrow> bool" where
  "CheckStateTree root creationSlot iter m =
     (case UnspentOutputs iter m of
        Inl _ \<Rightarrow> False
      | Inr outs \<Rightarrow>
          root (fold (\<lambda>out tree. tree(uo_outputID out \<mapsto> creationSlot (uo_outputID out))) outs Map.empty)
            = root (um_stateTree m))"

section \<open>Committing and rolling back\<close>

definition ApplyDiffWithoutLocking ::
  "(output_id \<Rightarrow> slot_index) \<Rightarrow> slot_index \<Rightarrow> utxo_output list \<Rightarrow> spent list \<Rightarrow> utxo_manager \<Rightarrow> utxo_manager" where
  "ApplyDiffWithoutLocking creationSlot slot newOutputs newSpents m =
     (let m = fold (\<lambda>out m. markAsUnspent out (storeOutput out m)) newOutputs m;
          m = fold storeSpentAndMarkOutputAsSpent newSpents m;
          m = storeDiff \<lparr>sd_Slot = slot, sd_Outputs = newOutputs, sd_Spents = newSpents\<rparr> m;
          m = storeLedgerIndex slot m;
          m = fold (stateTree_Set creationSlot) newOutputs m
      in fold (\<lambda>s. stateTree_Delete (sp_outputID s)) newSpents m)"

definition RollbackDiffWithoutLocking ::
  "(output_id \<Rightarrow> slot_index) \<Rightarrow> slot_index \<Rightarrow> utxo_output list \<Rightarrow> spent list \<Rightarrow> utxo_manager \<Rightarrow> utxo_manager" where
  "RollbackDiffWithoutLocking creationSlot slot newOutputs newSpents m =
     (let m = fold (\<lambda>s m. deleteSpentAndMarkOutputAsUnspent s (storeOutput (sp_output s) m)) newSpents m;
          m = fold (\<lambda>out m. deleteOutputLookups out (deleteOutput out m)) newOutputs m;
          m = deleteDiff slot m;
          m = storeLedgerIndex (slot - 1) m;
          m = fold (\<lambda>s. stateTree_Set creationSlot (sp_output s)) newSpents m
      in fold (\<lambda>out. stateTree_Delete (uo_outputID out)) newOutputs m)"

definition PruneSlotIndexWithoutLocking :: "slot_index \<Rightarrow> utxo_manager \<Rightarrow> utxo_error + utxo_manager" where
  "PruneSlotIndexWithoutLocking slot m =
     (case SlotDiffWithoutLocking m slot of
        Inl KeyNotFound \<Rightarrow> Inr m
      | Inl e \<Rightarrow> Inl e
      | Inr d \<Rightarrow>
          Inr (deleteDiff slot (fold (\<lambda>s m. deleteSpent s (deleteOutput (sp_output s) m)) (sd_Spents d) m)))"

definition importUnspentOutput ::
  "(output_id \<Rightarrow> slot_index) \<Rightarrow> utxo_output \<Rightarrow> utxo_manager \<Rightarrow> utxo_manager" where
  "importUnspentOutput creationSlot out m =
     stateTree_Set creationSlot out (markAsUnspent out (storeOutput out m))"

text \<open>One round of the loop of \<^verbatim>\<open>Rollback\<close>.\<close>

definition rollbackStoredDiff ::
  "(output_id \<Rightarrow> slot_index) \<Rightarrow> slot_index \<Rightarrow> utxo_manager \<Rightarrow> utxo_error + utxo_manager" where
  "rollbackStoredDiff creationSlot diffIndex m =
     and_then (SlotDiffWithoutLocking m diffIndex) (\<lambda>d.
       Inr (RollbackDiffWithoutLocking creationSlot (sd_Slot d) (sd_Outputs d) (sd_Spents d) m))"

definition UtxoRollback ::
  "(output_id \<Rightarrow> slot_index) \<Rightarrow> slot_index \<Rightarrow> slot_index \<Rightarrow> utxo_manager \<Rightarrow> utxo_error + utxo_manager" where
  "UtxoRollback creationSlot genesisSlot targetSlot m =
     down_loop (rollbackStoredDiff creationSlot) (ReadLedgerIndex genesisSlot m) targetSlot m"

section \<open>Snapshots\<close>

record utxo_snapshot =
  sn_ledgerIndex :: slot_index
  sn_outputs :: "utxo_output list"
  sn_diffs :: "slot_diff list"

text \<open>The loop of \<^verbatim>\<open>Export\<close> appends the diffs it visits.\<close>

definition export_diffs ::
  "utxo_manager \<Rightarrow> slot_index \<Rightarrow> slot_index \<Rightarrow> utxo_error + slot_diff list" where
  "export_diffs m ledgerIndex targetIndex =
     down_loop (\<lambda>diffIndex ds. and_then (SlotDiffWithoutLocking m diffIndex) (\<lambda>d. Inr (ds @ [d])))
       ledgerIndex targetIndex []"

text \<open>
  \<^verbatim>\<open>WriteSlotDiffToSnapshotWriter\<close> sorts the outputs and spents, which \<^verbatim>\<open>SlotDiffWithoutLocking\<close>
  has loaded in sorted order already; reading a spent back sets its slot to that of the diff.
\<close>

definition sortedDiff :: "slot_diff \<Rightarrow> slot_diff" where
  "sortedDiff d = d\<lparr>sd_Outputs := sort_key uo_outputID (sd_Outputs d),
     sd_Spents := map (\<lambda>s. NewSpent (sp_output s) (sp_transactionIDSpent s) (sd_Slot d))
                    (sort_key sp_outputID (sd_Spents d))\<rparr>"

definition UtxoExport ::
  "slot_index \<Rightarrow> slot_index \<Rightarrow> utxo_manager \<Rightarrow> utxo_error + utxo_snapshot" where
  "UtxoExport genesisSlot targetIndex m =
     (let ledgerIndex = ReadLedgerIndex genesisSlot m
      in and_then (read_all (ReadOutputByOutputID m) (sorted_list_of_set (um_unspent m))) (\<lambda>outs.
         and_then (export_diffs m ledgerIndex targetIndex) (\<lambda>ds.
         Inr \<lparr>sn_ledgerIndex = ledgerIndex, sn_outputs = outs, sn_diffs = map sortedDiff ds\<rparr>)))"

fun import_diffs ::
  "(output_id \<Rightarrow> slot_index) \<Rightarrow> slot_index \<Rightarrow> slot_diff list \<Rightarrow> utxo_manager \<Rightarrow> utxo_error + utxo_manager" where
  "import_diffs creationSlot expected [] m = Inr m"
| "import_diffs creationSlot expected (d # ds) m =
     (if sd_Slot d \<noteq> expected then Inl (InvalidSnapshotSlot (sd_Slot d) expected)
      else import_diffs creationSlot (expected - 1) ds
             (RollbackDiffWithoutLocking creationSlot (sd_Slot d) (sd_Outputs d) (sd_Spents d) m))"

definition UtxoImport ::
  "(output_id \<Rightarrow> slot_index) \<Rightarrow> utxo_snapshot \<Rightarrow> utxo_manager \<Rightarrow> utxo_error + utxo_manager" where
  "UtxoImport creationSlot sn m =
     (let m = storeLedgerIndex (sn_ledgerIndex sn) m;
          m = fold (importUnspentOutput creationSlot) (sn_outputs sn) m
      in import_diffs creationSlot (sn_ledgerIndex sn) (sn_diffs sn) m)"

section \<open>Folds over outputs and spents\<close>

lemma fold_upd_notin: "x \<notin> k ` set xs \<Longrightarrow> fold (\<lambda>a f. f(k a := v a)) xs f x = f x"
  by (induction xs arbitrary: f) auto

lemma fold_upd_in:
  assumes "\<And>a b. a \<in> set xs \<Longrightarrow> b \<in> set xs \<Longrightarrow> k a = k b \<Longrightarrow> v a = v b" "a \<in> set xs"
  shows "fold (\<lambda>a f. f(k a := v a)) xs f (k a) = v a"
  using assms
proof (induction xs arbitrary: f a)
  case Nil
  then show ?case by simp
next
  case (Cons b xs)
  show ?case
  proof (cases "k a \<in> k ` set xs")
    case True
    then obtain c where c: "c \<in> set xs" "k a = k c" by auto
    have "v c = v a" by (rule Cons.prems(1)) (use Cons.prems(2) c in simp_all)
    moreover have "fold (\<lambda>a f. f(k a := v a)) xs (f(k b := v b)) (k c) = v c"
      by (rule Cons.IH [OF Cons.prems(1)]) (simp_all add: c)
    ultimately show ?thesis by (simp only: c(2) fold_simps)
  next
    case False
    then have "a = b" using Cons.prems(2) by auto
    then show ?thesis using fold_upd_notin [OF False, of v "f(k b := v b)"]
      by (simp only: fold_simps fun_upd_same)
  qed
qed

lemma fold_upd_const: "fold (\<lambda>a f. f(k a := c)) xs f x = (if x \<in> k ` set xs then c else f x)"
  by (induction xs arbitrary: f) auto

text \<open>The fields of the ledger after each of the loops.\<close>

lemma fold_store_outputs:
  defines "g \<equiv> fold (\<lambda>out m. markAsUnspent out (storeOutput out m))"
  shows "um_outputs (g outs m) = fold (\<lambda>out f. f(uo_outputID out := Some (Output_value out))) outs (um_outputs m)"
    "um_unspent (g outs m) = um_unspent m \<union> uo_outputID ` set outs"
    "um_spents (g outs m) = um_spents m" "um_diffs (g outs m) = um_diffs m"
    "um_stateTree (g outs m) = um_stateTree m" "um_ledgerSlot (g outs m) = um_ledgerSlot m"
  unfolding g_def by (induction outs arbitrary: m) (auto simp: markAsUnspent_def storeOutput_def)

lemma fold_store_spents:
  defines "g \<equiv> fold storeSpentAndMarkOutputAsSpent"
  shows "um_spents (g ss m) = fold (\<lambda>s f. f(sp_outputID s := Some (sp_transactionIDSpent s, sp_slotSpent s))) ss (um_spents m)"
    "um_unspent (g ss m) = um_unspent m - (uo_outputID \<circ> sp_output) ` set ss"
    "um_outputs (g ss m) = um_outputs m" "um_diffs (g ss m) = um_diffs m"
    "um_stateTree (g ss m) = um_stateTree m" "um_ledgerSlot (g ss m) = um_ledgerSlot m"
  unfolding g_def
  by (induction ss arbitrary: m) (auto simp: storeSpentAndMarkOutputAsSpent_def deleteOutputLookups_def storeSpent_def)

lemma fold_restore_spents:
  defines "g \<equiv> fold (\<lambda>s m. deleteSpentAndMarkOutputAsUnspent s (storeOutput (sp_output s) m))"
  shows "um_outputs (g ss m) = fold (\<lambda>s f. f((uo_outputID \<circ> sp_output) s := Some (Output_value (sp_output s)))) ss (um_outputs m)"
    "um_unspent (g ss m) = um_unspent m \<union> (uo_outputID \<circ> sp_output) ` set ss"
    "um_spents (g ss m) = (\<lambda>i. if i \<in> sp_outputID ` set ss then None else um_spents m i)"
    "um_diffs (g ss m) = um_diffs m" "um_stateTree (g ss m) = um_stateTree m" "um_ledgerSlot (g ss m) = um_ledgerSlot m"
  unfolding g_def
  by (induction ss arbitrary: m)
    (auto simp: deleteSpentAndMarkOutputAsUnspent_def markAsUnspent_def deleteSpent_def storeOutput_def fun_eq_iff)

lemma fold_delete_outputs:
  defines "g \<equiv> fold (\<lambda>out m. deleteOutputLookups out (deleteOutput out m))"
  shows "um_outputs (g outs m) = (\<lambda>i. if i \<in> uo_outputID ` set outs then None else um_outputs m i)"
    "um_unspent (g outs m) = um_unspent m - uo_outputID ` set outs"
    "um_spents (g outs m) = um_spents m" "um_diffs (g outs m) = um_diffs m"
    "um_stateTree (g outs m) = um_stateTree m" "um_ledgerSlot (g outs m) = um_ledgerSlot m"
  unfolding g_def
  by (induction outs arbitrary: m) (auto simp: deleteOutputLookups_def deleteOutput_def fun_eq_iff)

lemma fold_tree_set:
  fixes creationSlot :: "output_id \<Rightarrow> slot_index" and f :: "'a \<Rightarrow> utxo_output"
  defines "g \<equiv> fold (\<lambda>x. stateTree_Set creationSlot (f x))"
  shows "um_stateTree (g xs m) = (\<lambda>i. if i \<in> (uo_outputID \<circ> f) ` set xs then Some (creationSlot i) else um_stateTree m i)"
    "um_outputs (g xs m) = um_outputs m" "um_unspent (g xs m) = um_unspent m"
    "um_spents (g xs m) = um_spents m" "um_diffs (g xs m) = um_diffs m" "um_ledgerSlot (g xs m) = um_ledgerSlot m"
  unfolding g_def by (induction xs arbitrary: m) (auto simp: stateTree_Set_def fun_eq_iff)

lemma fold_tree_delete:
  fixes f :: "'a \<Rightarrow> output_id"
  defines "g \<equiv> fold (\<lambda>x. stateTree_Delete (f x))"
  shows "um_stateTree (g xs m) = (\<lambda>i. if i \<in> f ` set xs then None else um_stateTree m i)"
    "um_outputs (g xs m) = um_outputs m" "um_unspent (g xs m) = um_unspent m"
    "um_spents (g xs m) = um_spents m" "um_diffs (g xs m) = um_diffs m" "um_ledgerSlot (g xs m) = um_ledgerSlot m"
  unfolding g_def by (induction xs arbitrary: m) (auto simp: stateTree_Delete_def fun_eq_iff)

lemmas ledger_folds = fold_store_outputs fold_store_spents fold_restore_spents fold_delete_outputs
  fold_tree_set [where f = "\<lambda>x. x", simplified] fold_tree_set fold_tree_delete

lemma ApplyDiff_fields:
  fixes cs slot outs ss m
  defines "m' \<equiv> ApplyDiffWithoutLocking cs slot outs ss m"
  shows "um_outputs m' = fold (\<lambda>out f. f(uo_outputID out := Some (Output_value out))) outs (um_outputs m)"
    "um_unspent m' = um_unspent m \<union> uo_outputID ` set outs - (uo_outputID \<circ> sp_output) ` set ss"
    "um_spents m' = fold (\<lambda>s f. f(sp_outputID s := Some (sp_transactionIDSpent s, sp_slotSpent s))) ss (um_spents m)"
    "um_diffs m' = (um_diffs m)(slot \<mapsto> (map uo_outputID (sort_key uo_outputID outs),
        map (uo_outputID \<circ> sp_output) (sort_key sp_outputID ss)))"
    "um_ledgerSlot m' = Some slot"
    "um_stateTree m' = (\<lambda>i. if i \<in> sp_outputID ` set ss then None
        else if i \<in> uo_outputID ` set outs then Some (cs i) else um_stateTree m i)"
  unfolding m'_def
  by (simp_all add: ApplyDiffWithoutLocking_def Let_def ledger_folds storeDiff_def storeLedgerIndex_def cong: if_cong)

lemma RollbackDiff_fields:
  fixes cs slot outs ss m
  defines "m' \<equiv> RollbackDiffWithoutLocking cs slot outs ss m"
  shows "um_outputs m' = (\<lambda>i. if i \<in> uo_outputID ` set outs then None
        else fold (\<lambda>s f. f((uo_outputID \<circ> sp_output) s := Some (Output_value (sp_output s)))) ss (um_outputs m) i)"
    "um_unspent m' = um_unspent m \<union> (uo_outputID \<circ> sp_output) ` set ss - uo_outputID ` set outs"
    "um_spents m' = (\<lambda>i. if i \<in> sp_outputID ` set ss then None else um_spents m i)"
    "um_diffs m' = (um_diffs m)(slot := None)"
    "um_ledgerSlot m' = Some (slot - 1)"
    "um_stateTree m' = (\<lambda>i. if i \<in> uo_outputID ` set outs then None
        else if i \<in> (uo_outputID \<circ> sp_output) ` set ss then Some (cs i) else um_stateTree m i)"
  unfolding m'_def
  by (simp_all add: RollbackDiffWithoutLocking_def Let_def ledger_folds deleteDiff_def storeLedgerIndex_def cong: if_cong)

section \<open>The ledger invariant\<close>

text \<open>
  Unspent outputs are stored and not spent, spent outputs are stored, and the state tree holds
  exactly the unspent outputs with their creation slots.
\<close>

definition ledger_ok :: "(output_id \<Rightarrow> slot_index) \<Rightarrow> utxo_manager \<Rightarrow> bool" where
  "ledger_ok cs m \<longleftrightarrow>
     finite (um_unspent m) \<and> um_unspent m \<subseteq> dom (um_outputs m) \<and> um_unspent m \<inter> dom (um_spents m) = {} \<and>
     dom (um_spents m) \<subseteq> dom (um_outputs m) \<and>
     um_stateTree m = (\<lambda>i. if i \<in> um_unspent m then Some (cs i) else None)"

text \<open>
  What the ledger passes to \<^verbatim>\<open>ApplyDiff\<close>: the next slot, new outputs under fresh identifiers, and
  distinct spends of outputs that are unspent or created in the same slot.
\<close>

definition diff_ok :: "slot_index \<Rightarrow> utxo_output list \<Rightarrow> spent list \<Rightarrow> utxo_manager \<Rightarrow> bool" where
  "diff_ok slot outs ss m \<longleftrightarrow>
     slot \<noteq> 0 \<and> um_ledgerSlot m = Some (slot - 1) \<and> um_diffs m slot = None \<and>
     distinct (map uo_outputID outs) \<and> distinct (map sp_outputID ss) \<and>
     (\<forall>out\<in>set outs. um_outputs m (uo_outputID out) = None) \<and>
     (\<forall>s\<in>set ss. sp_outputID s = uo_outputID (sp_output s) \<and> sp_slotSpent s = slot \<and>
        (sp_output s \<in> set outs \<or>
         sp_outputID s \<in> um_unspent m \<and> um_outputs m (sp_outputID s) = Some (Output_value (sp_output s))))"

lemma distinct_map_eq: "distinct (map f xs) \<Longrightarrow> a \<in> set xs \<Longrightarrow> b \<in> set xs \<Longrightarrow> f a = f b \<Longrightarrow> a = b"
  by (induction xs) (auto simp: image_iff)

lemma diff_okD:
  assumes "diff_ok slot outs ss m" "ledger_ok cs m"
  shows "(uo_outputID \<circ> sp_output) ` set ss = sp_outputID ` set ss"
    "sp_outputID ` set ss \<subseteq> um_unspent m \<union> uo_outputID ` set outs"
    "uo_outputID ` set outs \<inter> um_unspent m = {}" "uo_outputID ` set outs \<inter> dom (um_spents m) = {}"
    "sp_outputID ` set ss \<inter> dom (um_spents m) = {}"
    "\<And>a b. a \<in> set outs \<Longrightarrow> b \<in> set outs \<Longrightarrow> uo_outputID a = uo_outputID b \<Longrightarrow> a = b"
    "\<And>a b. a \<in> set ss \<Longrightarrow> b \<in> set ss \<Longrightarrow> sp_outputID a = sp_outputID b \<Longrightarrow> a = b"
    "\<And>out. out \<in> set outs \<Longrightarrow> um_outputs m (uo_outputID out) = None"
proof -
  have d: "distinct (map uo_outputID outs)" "distinct (map sp_outputID ss)"
    "\<And>out. out \<in> set outs \<Longrightarrow> um_outputs m (uo_outputID out) = None"
    "\<And>s. s \<in> set ss \<Longrightarrow> sp_outputID s = uo_outputID (sp_output s)"
    "\<And>s. s \<in> set ss \<Longrightarrow> sp_output s \<in> set outs \<or> sp_outputID s \<in> um_unspent m"
    using assms(1) unfolding diff_ok_def by blast+
  have l: "um_unspent m \<subseteq> dom (um_outputs m)" "um_unspent m \<inter> dom (um_spents m) = {}"
    "dom (um_spents m) \<subseteq> dom (um_outputs m)" using assms(2) unfolding ledger_ok_def by blast+
  show "(uo_outputID \<circ> sp_output) ` set ss = sp_outputID ` set ss" using d(4) by (intro image_cong) simp_all
  show 2: "sp_outputID ` set ss \<subseteq> um_unspent m \<union> uo_outputID ` set outs"
  proof (rule image_subsetI)
    fix s assume "s \<in> set ss"
    then show "sp_outputID s \<in> um_unspent m \<union> uo_outputID ` set outs"
      using d(4) [of s] d(5) [of s] by (cases "sp_output s \<in> set outs") simp_all
  qed
  have f: "uo_outputID ` set outs \<inter> dom (um_outputs m) = {}" using d(3) by auto
  show "uo_outputID ` set outs \<inter> um_unspent m = {}" using f l(1) by blast
  show 4: "uo_outputID ` set outs \<inter> dom (um_spents m) = {}" using f l(3) by blast
  show "sp_outputID ` set ss \<inter> dom (um_spents m) = {}" using 2 4 l(2) by blast
  show "a = b" if "a \<in> set outs" "b \<in> set outs" "uo_outputID a = uo_outputID b" for a b
    by (rule distinct_map_eq [OF d(1) that])
  show "a = b" if "a \<in> set ss" "b \<in> set ss" "sp_outputID a = sp_outputID b" for a b
    by (rule distinct_map_eq [OF d(2) that])
  show "um_outputs m (uo_outputID out) = None" if "out \<in> set outs" for out using d(3) that .
qed

lemma ApplyDiff_outputs:
  assumes "diff_ok slot outs ss m" "ledger_ok cs m"
  defines "m' \<equiv> ApplyDiffWithoutLocking cs slot outs ss m"
  shows "out \<in> set outs \<Longrightarrow> um_outputs m' (uo_outputID out) = Some (Output_value out)"
    "i \<notin> uo_outputID ` set outs \<Longrightarrow> um_outputs m' i = um_outputs m i"
    "s \<in> set ss \<Longrightarrow> um_outputs m' (sp_outputID s) = Some (Output_value (sp_output s))"
    "s \<in> set ss \<Longrightarrow> um_spents m' (sp_outputID s) = Some (sp_transactionIDSpent s, slot)"
    "i \<notin> sp_outputID ` set ss \<Longrightarrow> um_spents m' i = um_spents m i"
proof -
  note d = diff_okD [OF assms(1,2)]
  show 1: "um_outputs m' (uo_outputID out) = Some (Output_value out)" if "out \<in> set outs" for out
    unfolding m'_def ApplyDiff_fields using that by (rule fold_upd_in [rotated]) (drule (2) d(6), simp)
  show 2: "um_outputs m' i = um_outputs m i" if "i \<notin> uo_outputID ` set outs" for i
    unfolding m'_def ApplyDiff_fields using that by (rule fold_upd_notin)
  show "um_outputs m' (sp_outputID s) = Some (Output_value (sp_output s))" if s: "s \<in> set ss"
  proof (cases "sp_output s \<in> set outs")
    case True
    then show ?thesis using 1 s assms(1) by (auto simp: diff_ok_def)
  next
    case False
    then have "sp_outputID s \<in> um_unspent m" "um_outputs m (sp_outputID s) = Some (Output_value (sp_output s))"
      using s assms(1) by (auto simp: diff_ok_def)
    moreover from this(1) have "sp_outputID s \<notin> uo_outputID ` set outs" using d(3) by blast
    ultimately show ?thesis using 2 by simp
  qed
  show "um_spents m' (sp_outputID s) = Some (sp_transactionIDSpent s, slot)" if s: "s \<in> set ss"
  proof -
    have "um_spents m' (sp_outputID s) = Some (sp_transactionIDSpent s, sp_slotSpent s)"
      unfolding m'_def ApplyDiff_fields using s by (rule fold_upd_in [rotated]) (drule (2) d(7), simp)
    then show ?thesis using s assms(1) by (auto simp: diff_ok_def)
  qed
  show "i \<notin> sp_outputID ` set ss \<Longrightarrow> um_spents m' i = um_spents m i"
    unfolding m'_def ApplyDiff_fields by (rule fold_upd_notin)
qed


lemma RollbackDiff_undoes_ApplyDiff:
  assumes d: "diff_ok slot outs ss m" "ledger_ok cs m"
    and os: "set outs' = set outs" "set ss' = set ss"
  shows "RollbackDiffWithoutLocking cs slot outs' ss' (ApplyDiffWithoutLocking cs slot outs ss m) = m"
proof -
  note D = diff_okD [OF d]
  let ?a = "ApplyDiffWithoutLocking cs slot outs ss m"
  let ?O = "uo_outputID ` set outs" and ?S = "sp_outputID ` set ss"
  note A = ApplyDiff_outputs [OF d]
  have sp: "(uo_outputID \<circ> sp_output) s = sp_outputID s" if "s \<in> set ss" for s using d(1) that by (simp add: diff_ok_def)
  have S: "(uo_outputID \<circ> sp_output) ` set ss = ?S" by (fact D(1))
  have fo: "fold (\<lambda>s f. f((uo_outputID \<circ> sp_output) s := Some (Output_value (sp_output s)))) ss' (um_outputs ?a) i = um_outputs ?a i" for i
  proof (cases "i \<in> ?S")
    case True
    then obtain s where s: "s \<in> set ss'" "i = (uo_outputID \<circ> sp_output) s" using os(2) sp by auto
    have "fold (\<lambda>s f. f((uo_outputID \<circ> sp_output) s := Some (Output_value (sp_output s)))) ss' (um_outputs ?a)
        ((uo_outputID \<circ> sp_output) s) = Some (Output_value (sp_output s))"
    proof (rule fold_upd_in)
      fix a b assume ab: "a \<in> set ss'" "b \<in> set ss'" "(uo_outputID \<circ> sp_output) a = (uo_outputID \<circ> sp_output) b"
      then have "a = b" using D(7) sp os(2) by metis
      then show "Some (Output_value (sp_output a)) = Some (Output_value (sp_output b))" by simp
    qed (fact s(1))
    moreover have "um_outputs ?a i = Some (Output_value (sp_output s))" using A(3) sp s os(2) by metis
    ultimately show ?thesis using s(2) by simp
  next
    case False
    then show ?thesis using S os(2) by (intro fold_upd_notin) simp
  qed
  show ?thesis
  proof (rule utxo_manager.equality)
    show "um_ledgerSlot (RollbackDiffWithoutLocking cs slot outs' ss' ?a) = um_ledgerSlot m"
      using d(1) by (simp add: RollbackDiff_fields diff_ok_def)
    show "um_outputs (RollbackDiffWithoutLocking cs slot outs' ss' ?a) = um_outputs m"
    proof (rule ext)
      fix i show "um_outputs (RollbackDiffWithoutLocking cs slot outs' ss' ?a) i = um_outputs m i"
        unfolding RollbackDiff_fields fo os(1) using A(2) D(8) by (cases "i \<in> ?O") auto
    qed
    show "um_unspent (RollbackDiffWithoutLocking cs slot outs' ss' ?a) = um_unspent m"
      unfolding RollbackDiff_fields ApplyDiff_fields os S using D(2,3) by blast
    show "um_spents (RollbackDiffWithoutLocking cs slot outs' ss' ?a) = um_spents m"
    proof (rule ext)
      fix i show "um_spents (RollbackDiffWithoutLocking cs slot outs' ss' ?a) i = um_spents m i"
        unfolding RollbackDiff_fields os using A(5) [of i] D(5) by (cases "i \<in> ?S") (simp_all add: disjoint_iff domIff del: not_None_eq)
    qed
    show "um_diffs (RollbackDiffWithoutLocking cs slot outs' ss' ?a) = um_diffs m"
      using d(1) by (simp add: RollbackDiff_fields ApplyDiff_fields diff_ok_def fun_upd_idem)
    show "um_stateTree (RollbackDiffWithoutLocking cs slot outs' ss' ?a) = um_stateTree m"
    proof (rule ext)
      fix i show "um_stateTree (RollbackDiffWithoutLocking cs slot outs' ss' ?a) i = um_stateTree m i"
        unfolding RollbackDiff_fields ApplyDiff_fields os S using d(2) D(2,3)
        by (auto simp: ledger_ok_def)
    qed
  qed simp
qed

lemma ledger_ok_ApplyDiff:
  assumes d: "diff_ok slot outs ss m" "ledger_ok cs m"
  shows "ledger_ok cs (ApplyDiffWithoutLocking cs slot outs ss m)"
proof -
  note D = diff_okD [OF d] and A = ApplyDiff_outputs [OF d]
  let ?a = "ApplyDiffWithoutLocking cs slot outs ss m"
  let ?O = "uo_outputID ` set outs" and ?S = "sp_outputID ` set ss"
  have l: "finite (um_unspent m)" "um_unspent m \<subseteq> dom (um_outputs m)" "um_unspent m \<inter> dom (um_spents m) = {}"
    "dom (um_spents m) \<subseteq> dom (um_outputs m)" "um_stateTree m = (\<lambda>i. if i \<in> um_unspent m then Some (cs i) else None)"
    using d(2) unfolding ledger_ok_def by blast+
  have u: "um_unspent ?a = um_unspent m \<union> ?O - ?S" unfolding ApplyDiff_fields D(1) ..
  have out: "dom (um_outputs ?a) = dom (um_outputs m) \<union> ?O"
  proof (intro set_eqI)
    fix i show "i \<in> dom (um_outputs ?a) \<longleftrightarrow> i \<in> dom (um_outputs m) \<union> ?O"
      by (cases "i \<in> ?O") (auto simp: domIff A(1,2) simp del: not_None_eq)
  qed
  have sps: "dom (um_spents ?a) = dom (um_spents m) \<union> ?S"
  proof (intro set_eqI)
    fix i show "i \<in> dom (um_spents ?a) \<longleftrightarrow> i \<in> dom (um_spents m) \<union> ?S"
      by (cases "i \<in> ?S") (auto simp: domIff A(4,5) simp del: not_None_eq)
  qed
  have "um_stateTree ?a = (\<lambda>i. if i \<in> um_unspent ?a then Some (cs i) else None)"
    unfolding u ApplyDiff_fields(6) l(5) by (auto simp: fun_eq_iff)
  moreover have "finite (um_unspent ?a)" using l(1) u by simp
  moreover have "um_unspent ?a \<subseteq> dom (um_outputs ?a)" "um_unspent ?a \<inter> dom (um_spents ?a) = {}"
    "dom (um_spents ?a) \<subseteq> dom (um_outputs ?a)"
    unfolding u out sps using l(2-4) D(2,4) by blast+
  ultimately show ?thesis unfolding ledger_ok_def by blast
qed

section \<open>Stored diffs\<close>

lemma Output_load_value [simp]: "Output_load (uo_outputID out) (Output_value out) = out"
  by (rule utxo_output.equality) (simp_all add: Output_load_def Output_value_def)

lemma read_all_map:
  assumes "\<And>x. x \<in> set xs \<Longrightarrow> f (k x) = Inr x"
  shows "read_all f (map k xs) = Inr xs"
  using assms by (induction xs) simp_all

text \<open>\<open>diff_stored d m\<close>: the ledger holds the diff \<open>d\<close> and everything it refers to.\<close>

definition diff_stored :: "slot_diff \<Rightarrow> utxo_manager \<Rightarrow> bool" where
  "diff_stored d m \<longleftrightarrow>
     um_diffs m (sd_Slot d) = Some (map uo_outputID (sort_key uo_outputID (sd_Outputs d)),
        map (uo_outputID \<circ> sp_output) (sort_key sp_outputID (sd_Spents d))) \<and>
     (\<forall>out\<in>set (sd_Outputs d). um_outputs m (uo_outputID out) = Some (Output_value out)) \<and>
     (\<forall>s\<in>set (sd_Spents d). sp_outputID s = uo_outputID (sp_output s) \<and>
        um_outputs m (sp_outputID s) = Some (Output_value (sp_output s)) \<and>
        um_spents m (sp_outputID s) = Some (sp_transactionIDSpent s, sp_slotSpent s))"

lemma load_stored:
  assumes "diff_stored d m"
  shows "SlotDiffWithoutLocking m (sd_Slot d) =
    Inr (d\<lparr>sd_Outputs := sort_key uo_outputID (sd_Outputs d), sd_Spents := sort_key sp_outputID (sd_Spents d)\<rparr>)"
proof -
  note s = assms [unfolded diff_stored_def]
  have o: "read_all (ReadOutputByOutputID m) (map uo_outputID (sort_key uo_outputID (sd_Outputs d)))
    = Inr (sort_key uo_outputID (sd_Outputs d))"
    by (rule read_all_map) (use s in \<open>simp add: ReadOutputByOutputID_def\<close>)
  have p: "read_all (ReadSpentForOutputID m) (map (uo_outputID \<circ> sp_output) (sort_key sp_outputID (sd_Spents d)))
    = Inr (sort_key sp_outputID (sd_Spents d))"
  proof (rule read_all_map)
    fix x assume "x \<in> set (sort_key sp_outputID (sd_Spents d))"
    then have x: "sp_outputID x = uo_outputID (sp_output x)"
      "um_outputs m (sp_outputID x) = Some (Output_value (sp_output x))"
      "um_spents m (sp_outputID x) = Some (sp_transactionIDSpent x, sp_slotSpent x)" using s by auto
    then have "ReadSpentForOutputID m (sp_outputID x) = Inr x"
      by (simp add: ReadSpentForOutputID_def ReadOutputByOutputID_def)
    then show "ReadSpentForOutputID m ((uo_outputID \<circ> sp_output) x) = Inr x" using x(1) by simp
  qed
  show ?thesis using s by (simp add: SlotDiffWithoutLocking_def o p)
qed

lemma ApplyDiff_stores:
  assumes "diff_ok (sd_Slot d) (sd_Outputs d) (sd_Spents d) m" "ledger_ok cs m"
  shows "diff_stored d (ApplyDiffWithoutLocking cs (sd_Slot d) (sd_Outputs d) (sd_Spents d) m)"
  using ApplyDiff_outputs [OF assms] assms(1)
  by (simp add: diff_stored_def ApplyDiff_fields(4)) (simp add: diff_ok_def)

lemma diff_stored_later:
  assumes d: "diff_stored d m" and o: "diff_ok slot outs ss m" "ledger_ok cs m"
  shows "diff_stored d (ApplyDiffWithoutLocking cs slot outs ss m)"
proof -
  note D = diff_okD [OF o] and A = ApplyDiff_outputs [OF o] and s = d [unfolded diff_stored_def]
  have k: "um_outputs (ApplyDiffWithoutLocking cs slot outs ss m) i = Some v" if "um_outputs m i = Some v" for i v
  proof -
    have "i \<notin> uo_outputID ` set outs" using that D(8) by force
    then show ?thesis using that A(2) by simp
  qed
  have l: "um_spents (ApplyDiffWithoutLocking cs slot outs ss m) i = Some v" if "um_spents m i = Some v" for i v
    using that A(5) [of i] D(5) by auto
  have "sd_Slot d \<noteq> slot" using s o(1) by (auto simp: diff_ok_def)
  then have "um_diffs (ApplyDiffWithoutLocking cs slot outs ss m) (sd_Slot d) = um_diffs m (sd_Slot d)"
    by (simp add: ApplyDiff_fields(4))
  then show ?thesis unfolding diff_stored_def by (intro conjI ballI) (use s k l in \<open>blast | metis\<close>)+
qed

section \<open>Sequences of slots\<close>

definition applySlotDiff :: "(output_id \<Rightarrow> slot_index) \<Rightarrow> slot_diff \<Rightarrow> utxo_manager \<Rightarrow> utxo_error + utxo_manager" where
  "applySlotDiff cs d m = Inr (ApplyDiffWithoutLocking cs (sd_Slot d) (sd_Outputs d) (sd_Spents d) m)"

definition slot_diff_ok :: "(output_id \<Rightarrow> slot_index) \<Rightarrow> slot_diff \<Rightarrow> utxo_manager \<Rightarrow> bool" where
  "slot_diff_ok cs d m \<longleftrightarrow> diff_ok (sd_Slot d) (sd_Outputs d) (sd_Spents d) m \<and> ledger_ok cs m"

definition ledgerSlot :: "utxo_manager \<Rightarrow> slot_index" where
  "ledgerSlot m = (case um_ledgerSlot m of None \<Rightarrow> 0 | Some s \<Rightarrow> s)"

interpretation utxo: reversible_slots "applySlotDiff cs" "rollbackStoredDiff cs" sd_Slot "slot_diff_ok cs" "(=)"
  ledgerSlot for cs
proof unfold_locales
  show "s = s" for s :: utxo_manager ..
next
  fix d s t u
  assume ok: "slot_diff_ok cs d s" and st: "applySlotDiff cs d s = Inr t" and u: "t = u"
  let ?d = "d\<lparr>sd_Outputs := sort_key uo_outputID (sd_Outputs d), sd_Spents := sort_key sp_outputID (sd_Spents d)\<rparr>"
  have o: "diff_ok (sd_Slot d) (sd_Outputs d) (sd_Spents d) s" "ledger_ok cs s"
    using ok by (simp_all add: slot_diff_ok_def)
  have t: "t = ApplyDiffWithoutLocking cs (sd_Slot d) (sd_Outputs d) (sd_Spents d) s"
    using st by (simp add: applySlotDiff_def)
  have "diff_stored d t" using ApplyDiff_stores [OF o] t by simp
  then have "SlotDiffWithoutLocking u (sd_Slot d) = Inr ?d" using u load_stored by simp
  moreover have "RollbackDiffWithoutLocking cs (sd_Slot ?d) (sd_Outputs ?d) (sd_Spents ?d) u = s"
    using RollbackDiff_undoes_ApplyDiff [OF o, of "sd_Outputs ?d" "sd_Spents ?d"] t u by simp
  ultimately show "\<exists>v. rollbackStoredDiff cs (sd_Slot d) u = Inr v \<and> s = v"
    by (simp add: rollbackStoredDiff_def)
next
  fix d s t
  assume "slot_diff_ok cs d s" "applySlotDiff cs d s = Inr t"
  then show "sd_Slot d = ledgerSlot s + 1 \<and> sd_Slot d \<noteq> 0 \<and> ledgerSlot t = sd_Slot d"
    by (auto simp: slot_diff_ok_def diff_ok_def applySlotDiff_def ledgerSlot_def ApplyDiff_fields(5))
qed

section \<open>Properties\<close>

text \<open>
  C2. Rolling the UTXO ledger back to the slot at which a sequence of commits started restores it
  exactly: outputs, spents, unspent markers, slot diffs, ledger slot and state tree.
\<close>

theorem UtxoRollback_restores_ledger:
  assumes "range_loop (applySlotDiff cs) ds m = Inr m'"
    and "steps_ok (applySlotDiff cs) (slot_diff_ok cs) ds m" "um_ledgerSlot m = Some slot"
  shows "UtxoRollback cs genesis slot m' = Inr m"
proof -
  have "um_ledgerSlot m' \<noteq> None"
    using assms(1)
  proof (rule range_loop_invariant [where P = "\<lambda>m. um_ledgerSlot m \<noteq> None"])
    show "um_ledgerSlot m \<noteq> None" using assms(3) by simp
  qed (auto simp: applySlotDiff_def ApplyDiff_fields(5))
  then have "ReadLedgerIndex genesis m' = ledgerSlot m'" by (auto simp: ReadLedgerIndex_def ledgerSlot_def)
  moreover have "ledgerSlot m = slot" using assms(3) by (simp add: ledgerSlot_def)
  ultimately show ?thesis using utxo.undo_slots [OF assms(1,2)] by (auto simp: UtxoRollback_def)
qed

text \<open>A concrete ledger: output 1 of 100 tokens is split into outputs 2 and 3; output 3 is spent at once for 4.\<close>

definition demo_output :: "output_id \<Rightarrow> base_token \<Rightarrow> slot_index \<Rightarrow> utxo_output" where
  "demo_output i amount slot = \<lparr>uo_outputID = i, uo_blockID = \<lparr>bid_hash = 9, bid_slot = slot\<rparr>, uo_slotBooked = slot,
     uo_output = \<lparr>BaseTokenAmount = amount, StoredMana = 0, out_kind = OutputBasic None\<rparr>\<rparr>"

definition demo_ledger :: utxo_manager where
  "demo_ledger = storeLedgerIndex 0 (importUnspentOutput (\<lambda>_. 0) (demo_output 1 100 0) New_utxo)"

definition demo_slot_diff :: slot_diff where
  "demo_slot_diff = \<lparr>sd_Slot = 1, sd_Outputs = [demo_output 2 60 1, demo_output 3 40 1, demo_output 4 40 1],
     sd_Spents = [NewSpent (demo_output 1 100 0) 77 1, NewSpent (demo_output 3 40 1) 78 1]\<rparr>"

lemmas demo_ledger_defs = demo_ledger_def demo_slot_diff_def demo_output_def New_utxo_def NewSpent_def
  storeLedgerIndex_def importUnspentOutput_def stateTree_Set_def markAsUnspent_def storeOutput_def

lemma demo_slot_diff_ok: "slot_diff_ok (\<lambda>_. 0) demo_slot_diff demo_ledger"
  by (simp add: slot_diff_ok_def diff_ok_def ledger_ok_def demo_ledger_defs fun_eq_iff)

text \<open>On the concrete ledger.\<close>

theorem UtxoRollback_restores_ledger_witness:
  "UtxoRollback (\<lambda>_. 0) 0 0 (ApplyDiffWithoutLocking (\<lambda>_. 0) (sd_Slot demo_slot_diff) (sd_Outputs demo_slot_diff)
     (sd_Spents demo_slot_diff) demo_ledger) = Inr demo_ledger"
  by (rule UtxoRollback_restores_ledger [where ds = "[demo_slot_diff]"])
    (simp_all add: applySlotDiff_def demo_slot_diff_ok, simp add: demo_ledger_defs)

section \<open>Balance and state tree\<close>

definition amountAt :: "utxo_manager \<Rightarrow> output_id \<Rightarrow> base_token" where
  "amountAt m i = (case um_outputs m i of None \<Rightarrow> 0 | Some (_, _, out) \<Rightarrow> BaseTokenAmount out)"

lemma read_outputs:
  assumes "set is \<subseteq> dom (um_outputs m)"
  shows "read_all (ReadOutputByOutputID m) is = Inr (map (\<lambda>i. Output_load i (the (um_outputs m i))) is)"
  using assms by (induction "is") (auto simp: ReadOutputByOutputID_def)

lemma fold_plus: "fold (\<lambda>x b. b + f x) xs (b :: 'a::comm_monoid_add) = b + sum_list (map f xs)"
  by (induction xs arbitrary: b) (simp_all add: add.assoc)

lemma UnspentOutputs_ok:
  assumes "enumerates iter" "ledger_ok cs m"
  shows "UnspentOutputs iter m = Inr (map (\<lambda>i. Output_load i (the (um_outputs m i))) (iter (um_unspent m)))"
    "set (iter (um_unspent m)) = um_unspent m" "distinct (iter (um_unspent m))"
proof -
  show i: "set (iter (um_unspent m)) = um_unspent m" "distinct (iter (um_unspent m))"
    using assms by (simp_all add: ledger_ok_def)
  show "UnspentOutputs iter m = Inr (map (\<lambda>i. Output_load i (the (um_outputs m i))) (iter (um_unspent m)))"
    unfolding UnspentOutputs_def by (rule read_outputs) (use assms i in \<open>simp add: ledger_ok_def\<close>)
qed

lemma ComputeLedgerBalance_sum:
  assumes "enumerates iter" "ledger_ok cs m"
  shows "ComputeLedgerBalance iter m = Inr (\<Sum>i\<in>um_unspent m. amountAt m i, card (um_unspent m))"
proof -
  note u = UnspentOutputs_ok [OF assms]
  have a: "BaseTokenAmount (uo_output (Output_load i (the (um_outputs m i)))) = amountAt m i" if "i \<in> um_unspent m" for i
  proof -
    have "i \<in> dom (um_outputs m)" using that assms(2) by (auto simp: ledger_ok_def)
    then show ?thesis by (auto simp: amountAt_def Output_load_def)
  qed
  have "sum_list (map (\<lambda>i. BaseTokenAmount (uo_output (Output_load i (the (um_outputs m i))))) (iter (um_unspent m)))
    = sum_list (map (amountAt m) (iter (um_unspent m)))"
    by (intro arg_cong [where f = sum_list] map_cong) (simp_all add: u(2) a)
  also have "\<dots> = (\<Sum>i\<in>um_unspent m. amountAt m i)"
    using u(2,3) by (simp add: sum_list_distinct_conv_sum_set)
  finally show ?thesis
    using u distinct_card [OF u(3)] by (simp add: ComputeLedgerBalance_def fold_plus comp_def)
qed

text \<open>
  C3. Committing a slot changes the ledger balance by what the slot creates minus what it spends; in
  particular the check against the token supply still passes when the two are equal.
\<close>

theorem ApplyDiff_balance:
  assumes "enumerates iter" and d: "diff_ok slot outs ss m" "ledger_ok cs m"
    and b: "ComputeLedgerBalance iter m = Inr (balance, count)"
  shows "\<exists>count'. ComputeLedgerBalance iter (ApplyDiffWithoutLocking cs slot outs ss m) =
    Inr (balance + sum_list (map (BaseTokenAmount \<circ> uo_output) outs)
           - sum_list (map (BaseTokenAmount \<circ> uo_output \<circ> sp_output) ss), count')"
proof -
  let ?a = "ApplyDiffWithoutLocking cs slot outs ss m"
  let ?O = "uo_outputID ` set outs" and ?S = "sp_outputID ` set ss"
  note D = diff_okD [OF d] and A = ApplyDiff_outputs [OF d]
  have fin: "finite (um_unspent m)" using d(2) by (simp add: ledger_ok_def)
  have u: "um_unspent ?a = um_unspent m \<union> ?O - ?S" unfolding ApplyDiff_fields D(1) ..
  have so: "(\<Sum>i\<in>?O. amountAt ?a i) = sum_list (map (BaseTokenAmount \<circ> uo_output) outs)"
  proof -
    have "distinct outs" using d(1) by (auto simp: diff_ok_def distinct_map)
    moreover have "(\<Sum>i\<in>?O. amountAt ?a i) = (\<Sum>out\<in>set outs. amountAt ?a (uo_outputID out))"
      by (rule sum.reindex [unfolded comp_def]) (use D(6) in \<open>auto simp: inj_on_def\<close>)
    moreover have "\<dots> = (\<Sum>out\<in>set outs. (BaseTokenAmount \<circ> uo_output) out)"
      by (rule sum.cong) (simp_all add: amountAt_def A(1) Output_value_def)
    ultimately show ?thesis by (simp only: sum_list_distinct_conv_sum_set)
  qed
  have ss: "(\<Sum>i\<in>?S. amountAt ?a i) = sum_list (map (BaseTokenAmount \<circ> uo_output \<circ> sp_output) ss)"
  proof -
    have "distinct ss" using d(1) by (auto simp: diff_ok_def distinct_map)
    moreover have "(\<Sum>i\<in>?S. amountAt ?a i) = (\<Sum>s\<in>set ss. amountAt ?a (sp_outputID s))"
      by (rule sum.reindex [unfolded comp_def]) (use D(7) in \<open>auto simp: inj_on_def\<close>)
    moreover have "\<dots> = (\<Sum>s\<in>set ss. (BaseTokenAmount \<circ> uo_output \<circ> sp_output) s)"
      by (rule sum.cong) (simp_all add: amountAt_def A(3) Output_value_def)
    ultimately show ?thesis by (simp only: sum_list_distinct_conv_sum_set)
  qed
  have um: "(\<Sum>i\<in>um_unspent m. amountAt ?a i) = balance"
  proof -
    have "amountAt ?a i = amountAt m i" if "i \<in> um_unspent m" for i
    proof -
      have "i \<notin> ?O" using that D(3) by blast
      then show ?thesis by (simp add: amountAt_def A(2))
    qed
    then show ?thesis using ComputeLedgerBalance_sum [OF assms(1) d(2)] b by simp
  qed
  have "(\<Sum>i\<in>um_unspent ?a. amountAt ?a i) = (\<Sum>i\<in>um_unspent m \<union> ?O. amountAt ?a i) - (\<Sum>i\<in>?S. amountAt ?a i)"
    unfolding u using fin D(2) by (intro sum_diff) auto
  also have "(\<Sum>i\<in>um_unspent m \<union> ?O. amountAt ?a i) = balance + (\<Sum>i\<in>?O. amountAt ?a i)"
    using fin D(3) um by (subst sum.union_disjoint) auto
  finally show ?thesis
    using ComputeLedgerBalance_sum [OF assms(1) ledger_ok_ApplyDiff [OF d]] so ss by simp
qed

theorem ApplyDiff_balance_witness:
  "\<exists>count'. ComputeLedgerBalance sorted_list_of_set (ApplyDiffWithoutLocking (\<lambda>_. 0) (sd_Slot demo_slot_diff)
      (sd_Outputs demo_slot_diff) (sd_Spents demo_slot_diff) demo_ledger) = Inr (100, count')"
proof -
  have "ComputeLedgerBalance sorted_list_of_set demo_ledger = Inr (100, 1)"
    by (simp add: ComputeLedgerBalance_def UnspentOutputs_def ReadOutputByOutputID_def Output_load_def
        Output_value_def demo_ledger_defs)
  from ApplyDiff_balance [OF enumerates_sorted_list _ _ this, of "sd_Slot demo_slot_diff" "sd_Outputs demo_slot_diff"
      "sd_Spents demo_slot_diff" "\<lambda>_. 0"] demo_slot_diff_ok
  show ?thesis by (simp add: slot_diff_ok_def) (simp add: demo_slot_diff_def demo_output_def NewSpent_def)
qed

lemma stateTree_fold:
  "fold (\<lambda>out tree. tree(uo_outputID out \<mapsto> cs (uo_outputID out))) outs t =
     (\<lambda>i. if i \<in> uo_outputID ` set outs then Some (cs i) else t i)"
  by (induction outs arbitrary: t) (auto simp: fun_eq_iff)

lemma Output_load_id [simp]: "uo_outputID (Output_load i v) = i"
  by (cases v) (simp add: Output_load_def)

lemma CheckStateTree_ok:
  assumes "enumerates iter" "ledger_ok cs m"
  shows "CheckStateTree root cs iter m"
proof -
  note u = UnspentOutputs_ok [OF assms]
  have "uo_outputID ` set (map (\<lambda>i. Output_load i (the (um_outputs m i))) (iter (um_unspent m))) = um_unspent m"
    using u(2) by (simp add: image_image)
  then show ?thesis using assms(2) unfolding CheckStateTree_def u(1) stateTree_fold
    by (simp add: ledger_ok_def)
qed

lemma ledger_ok_import:
  assumes "ledger_ok cs m" "um_spents m (uo_outputID out) = None"
  shows "ledger_ok cs (importUnspentOutput cs out m)"
  using assms unfolding ledger_ok_def
  by (auto simp: importUnspentOutput_def stateTree_Set_def markAsUnspent_def storeOutput_def)

lemma read_all_Inr: "read_all f ks = Inr vs \<Longrightarrow> \<forall>v\<in>set vs. \<exists>k\<in>set ks. f k = Inr v"
  by (induction ks arbitrary: vs) (auto simp: go_result, blast)

lemma fold_prune:
  defines "g \<equiv> fold (\<lambda>s m. deleteSpent s (deleteOutput (sp_output s) m))"
  shows "um_outputs (g ss m) = (\<lambda>i. if i \<in> (uo_outputID \<circ> sp_output) ` set ss then None else um_outputs m i)"
    "um_spents (g ss m) = (\<lambda>i. if i \<in> sp_outputID ` set ss then None else um_spents m i)"
    "um_unspent (g ss m) = um_unspent m" "um_stateTree (g ss m) = um_stateTree m"
  unfolding g_def by (induction ss arbitrary: m) (auto simp: deleteSpent_def deleteOutput_def fun_eq_iff)

lemma ledger_ok_prune:
  assumes l: "ledger_ok cs m" and p: "PruneSlotIndexWithoutLocking slot m = Inr m'"
  shows "ledger_ok cs m'"
proof (cases "SlotDiffWithoutLocking m slot")
  case (Inl e)
  then show ?thesis using p l by (cases e) (auto simp: PruneSlotIndexWithoutLocking_def)
next
  case (Inr d)
  let ?S = "sp_outputID ` set (sd_Spents d)"
  have sp: "sp_outputID s = uo_outputID (sp_output s) \<and> sp_outputID s \<in> dom (um_spents m)" if s: "s \<in> set (sd_Spents d)" for s
  proof -
    obtain ids where "read_all (ReadSpentForOutputID m) ids = Inr (sd_Spents d)"
      using Inr by (auto simp: SlotDiffWithoutLocking_def go_result)
    then obtain k where "ReadSpentForOutputID m k = Inr s" using read_all_Inr s by blast
    then show ?thesis by (auto simp: ReadSpentForOutputID_def ReadOutputByOutputID_def go_result)
  qed
  have S: "(uo_outputID \<circ> sp_output) ` set (sd_Spents d) = ?S" using sp by (intro image_cong) auto
  let ?g = "fold (\<lambda>s m. deleteSpent s (deleteOutput (sp_output s) m)) (sd_Spents d) m"
  have m': "m' = deleteDiff slot ?g" using p Inr by (simp add: PruneSlotIndexWithoutLocking_def)
  have D: "um_outputs (deleteDiff slot x) = um_outputs x" "um_spents (deleteDiff slot x) = um_spents x"
    "um_unspent (deleteDiff slot x) = um_unspent x" "um_stateTree (deleteDiff slot x) = um_stateTree x" for x
    by (simp_all add: deleteDiff_def)
  have f: "um_outputs m' = (\<lambda>i. if i \<in> ?S then None else um_outputs m i)"
    "um_spents m' = (\<lambda>i. if i \<in> ?S then None else um_spents m i)"
    "um_unspent m' = um_unspent m" "um_stateTree m' = um_stateTree m"
    unfolding m' D fold_prune S by (rule refl)+
  have "dom (um_outputs m') = dom (um_outputs m) - ?S" "dom (um_spents m') = dom (um_spents m) - ?S"
    unfolding f by (auto split: if_splits)
  note dom' = this
  have S': "?S \<subseteq> dom (um_spents m)" using sp by blast
  note l' = l [unfolded ledger_ok_def]
  have "um_unspent m \<inter> ?S = {}" using S' l' by blast
  then have "um_unspent m \<subseteq> dom (um_outputs m) - ?S" using l' by blast
  moreover have "um_unspent m \<inter> (dom (um_spents m) - ?S) = {}" using l' by blast
  moreover have "dom (um_spents m) - ?S \<subseteq> dom (um_outputs m) - ?S" using l' by blast
  ultimately show ?thesis unfolding ledger_ok_def dom' f(3,4) using l' by simp
qed



section \<open>Snapshots\<close>

text \<open>
  A snapshot holds the unspent outputs at the ledger slot and the diffs back to the target slot.
  Importing it restores what the ledger had at the target slot, up to the spents and diffs that the
  snapshot does not carry.
\<close>

definition same_unspent :: "utxo_manager \<Rightarrow> utxo_manager \<Rightarrow> bool" where
  "same_unspent m v \<longleftrightarrow>
     um_unspent v = um_unspent m \<and> um_stateTree v = um_stateTree m \<and> um_ledgerSlot v = um_ledgerSlot m \<and>
     (\<forall>i\<in>um_unspent m. um_outputs v i = um_outputs m i)"

lemma same_unspent_rollback:
  assumes ok: "diff_ok slot outs ss m" "ledger_ok cs m"
    and u: "same_unspent (ApplyDiffWithoutLocking cs slot outs ss m) u"
    and s: "set outs' = set outs" "sp_output ` set ss' = sp_output ` set ss"
  shows "same_unspent m (RollbackDiffWithoutLocking cs slot outs' ss' u)"
proof -
  let ?a = "ApplyDiffWithoutLocking cs slot outs ss m" and ?v = "RollbackDiffWithoutLocking cs slot outs' ss' u"
  let ?O = "uo_outputID ` set outs" and ?S = "sp_outputID ` set ss"
  note D = diff_okD [OF ok] and A = ApplyDiff_outputs [OF ok]
  have l: "um_stateTree m = (\<lambda>i. if i \<in> um_unspent m then Some (cs i) else None)" using ok(2) by (simp add: ledger_ok_def)
  have sp: "uo_outputID (sp_output s) = sp_outputID s" if "s \<in> set ss" for s using ok(1) that by (simp add: diff_ok_def)
  have S: "(uo_outputID \<circ> sp_output) ` set ss' = ?S" unfolding D(1) [symmetric] image_comp [symmetric] s(2) ..
  have unsp: "um_unspent u = um_unspent m \<union> ?O - ?S"
    using u by (simp add: same_unspent_def ApplyDiff_fields(2) D(1) [unfolded o_def])
  have disj: "um_unspent m \<inter> ?O = {}" "?S \<subseteq> um_unspent m \<union> ?O" using D(2,3) by blast+
  have un: "um_unspent ?v = um_unspent m"
    unfolding RollbackDiff_fields(2) S s(1) unsp using disj by blast
  have "um_stateTree u = um_stateTree ?a" using u by (simp add: same_unspent_def)
  then have tr: "um_stateTree ?v = um_stateTree m"
    unfolding RollbackDiff_fields(6) S s(1) l ApplyDiff_fields(6) using disj by (auto simp: fun_eq_iff)
  have "um_outputs ?v i = um_outputs m i" if i: "i \<in> um_unspent m" for i
  proof -
    have nO: "i \<notin> ?O" using i disj by blast
    show ?thesis
    proof (cases "i \<in> ?S")
      case True
      then obtain s0 where s0: "s0 \<in> set ss" "i = sp_outputID s0" by blast
      then obtain s' where s': "s' \<in> set ss'" "sp_output s' = sp_output s0" using s(2) by (metis image_iff)
      have k: "(uo_outputID \<circ> sp_output) s' = i" using s'(2) s0 sp by simp
      have "fold (\<lambda>s f. f((uo_outputID \<circ> sp_output) s := Some (Output_value (sp_output s)))) ss' (um_outputs u)
          ((uo_outputID \<circ> sp_output) s') = Some (Output_value (sp_output s'))"
      proof (rule fold_upd_in)
        fix a b assume ab: "a \<in> set ss'" "b \<in> set ss'" "(uo_outputID \<circ> sp_output) a = (uo_outputID \<circ> sp_output) b"
        have "sp_output a \<in> sp_output ` set ss" "sp_output b \<in> sp_output ` set ss"
          using ab(1,2) unfolding s(2) [symmetric] by simp_all
        then obtain a' b' where ab': "a' \<in> set ss" "sp_output a = sp_output a'" "b' \<in> set ss" "sp_output b = sp_output b'"
          by blast
        have "sp_outputID a' = sp_outputID b'" using ab(3) ab'(2,4) sp [OF ab'(1)] sp [OF ab'(3)] by simp
        then have "a' = b'" by (rule D(7) [OF ab'(1,3)])
        then show "Some (Output_value (sp_output a)) = Some (Output_value (sp_output b))" using ab'(2,4) by simp
      qed (fact s'(1))
      then have "um_outputs ?v i = Some (Output_value (sp_output s0))"
        unfolding k s'(2) RollbackDiff_fields(1) s(1) using nO by simp
      moreover have "um_outputs m i = Some (Output_value (sp_output s0))" using A(2) [OF nO] A(3) [OF s0(1)] s0(2) by simp
      ultimately show ?thesis by simp
    next
      case False
      then have "um_outputs ?v i = um_outputs u i"
        using nO fold_upd_notin [of i "uo_outputID \<circ> sp_output" ss' "\<lambda>s. Some (Output_value (sp_output s))"]
        by (simp add: RollbackDiff_fields(1) s(1) S [unfolded o_def])
      also have "\<dots> = um_outputs ?a i" 
      proof -
        have "i \<in> um_unspent u" using i False unsp by blast
        then show ?thesis using u by (simp add: same_unspent_def)
      qed
      also have "\<dots> = um_outputs m i" using A(2) nO by simp
      finally show ?thesis .
    qed
  qed
  then show ?thesis using un tr ok(1) by (simp add: same_unspent_def RollbackDiff_fields(5) diff_ok_def)
qed

text \<open>The same commits, undone from the diffs of the snapshot.\<close>

definition rollbackDiffOf :: "(output_id \<Rightarrow> slot_index) \<Rightarrow> slot_diff \<Rightarrow> utxo_manager \<Rightarrow> utxo_error + utxo_manager" where
  "rollbackDiffOf cs d m = Inr (RollbackDiffWithoutLocking cs (sd_Slot d) (sd_Outputs d) (sd_Spents d) m)"

definition exportedDiff :: "slot_diff \<Rightarrow> slot_diff" where
  "exportedDiff d = sortedDiff
     (d\<lparr>sd_Outputs := sort_key uo_outputID (sd_Outputs d), sd_Spents := sort_key sp_outputID (sd_Spents d)\<rparr>)"

lemma exportedDiff_simps:
  "sd_Slot (exportedDiff d) = sd_Slot d" "set (sd_Outputs (exportedDiff d)) = set (sd_Outputs d)"
  "sp_output ` set (sd_Spents (exportedDiff d)) = sp_output ` set (sd_Spents d)"
  by (simp_all add: exportedDiff_def sortedDiff_def image_image NewSpent_def)

interpretation snap: reversible "applySlotDiff cs" "\<lambda>d. rollbackDiffOf cs (exportedDiff d)" "slot_diff_ok cs" same_unspent for cs
proof unfold_locales
  show "same_unspent s s" for s by (simp add: same_unspent_def)
next
  fix d s t u
  assume "slot_diff_ok cs d s" "applySlotDiff cs d s = Inr t" "same_unspent t u"
  then show "\<exists>v. rollbackDiffOf cs (exportedDiff d) u = Inr v \<and> same_unspent s v"
    using same_unspent_rollback [OF _ _ _ exportedDiff_simps(2,3)]
    by (auto simp: slot_diff_ok_def applySlotDiff_def rollbackDiffOf_def exportedDiff_simps)
qed

lemma commits_stored:
  assumes "range_loop (applySlotDiff cs) ds m = Inr m'" "steps_ok (applySlotDiff cs) (slot_diff_ok cs) ds m"
    "\<forall>d\<in>D. diff_stored d m"
  shows "\<forall>d\<in>set ds \<union> D. diff_stored d m'"
  using assms
proof (induction ds arbitrary: m D)
  case Nil
  then show ?case by simp
next
  case (Cons d ds)
  let ?a = "ApplyDiffWithoutLocking cs (sd_Slot d) (sd_Outputs d) (sd_Spents d) m"
  have ok: "diff_ok (sd_Slot d) (sd_Outputs d) (sd_Spents d) m" "ledger_ok cs m"
    using Cons.prems(2) by (simp_all add: slot_diff_ok_def)
  have "\<forall>d\<in>insert d D. diff_stored d ?a"
    using ApplyDiff_stores [OF ok] diff_stored_later [OF _ ok] Cons.prems(3) by blast
  then show ?case using Cons.IH [of ?a "insert d D"] Cons.prems(1,2) by (auto simp: applySlotDiff_def)
qed

lemma export_diffs_commits:
  assumes "range_loop (applySlotDiff cs) ds m = Inr m'" "steps_ok (applySlotDiff cs) (slot_diff_ok cs) ds m"
  shows "and_then (export_diffs m' (ledgerSlot m') (ledgerSlot m)) (\<lambda>xs. Inr (map sortedDiff xs))
    = Inr (map exportedDiff (rev ds))"
proof -
  let ?f = "\<lambda>slot ds. and_then (SlotDiffWithoutLocking m' slot) (\<lambda>d. Inr (ds @ [d]))"
  let ?l = "\<lambda>d. d\<lparr>sd_Outputs := sort_key uo_outputID (sd_Outputs d), sd_Spents := sort_key sp_outputID (sd_Spents d)\<rparr>"
  have st: "\<forall>d\<in>set ds. diff_stored d m'" using commits_stored [OF assms, of "{}"] by simp
  have "range_loop (\<lambda>d. ?f (sd_Slot d)) xs acc = Inr (acc @ map ?l xs)" if "set xs \<subseteq> set ds" for xs acc
    using that st by (induction xs arbitrary: acc) (auto simp: load_stored)
  from this [of "rev ds" "[]"] show ?thesis
    using utxo.down_loop_steps [OF assms, of ?f "[]"] by (simp add: export_diffs_def exportedDiff_def comp_def)
qed

lemma import_diffs_commits:
  assumes "range_loop (applySlotDiff cs) ds m = Inr m'" "steps_ok (applySlotDiff cs) (slot_diff_ok cs) ds m"
  shows "import_diffs cs (ledgerSlot m') (map exportedDiff (rev ds)) v = range_loop (\<lambda>d. rollbackDiffOf cs (exportedDiff d)) (rev ds) v"
  using assms
proof (induction ds arbitrary: m' v rule: rev_induct)
  case Nil
  then show ?case by simp
next
  case (snoc d ds)
  from snoc.prems obtain s1 where s1: "range_loop (applySlotDiff cs) ds m = Inr s1" "applySlotDiff cs d s1 = Inr m'"
    "steps_ok (applySlotDiff cs) (slot_diff_ok cs) ds m" "slot_diff_ok cs d s1"
    by (auto simp: range_loop_append steps_ok_append go_result)
  have "ledgerSlot m' = sd_Slot d" "sd_Slot d - 1 = ledgerSlot s1" using utxo.step_slot [OF s1(4,2)] by simp_all
  then show ?case using snoc.IH [OF s1(1,3)] by (simp add: exportedDiff_simps rollbackDiffOf_def)
qed

lemma fold_import:
  defines "g \<equiv> \<lambda>cs. fold (importUnspentOutput cs)"
  shows "um_outputs (g cs outs m) = fold (\<lambda>out f. f(uo_outputID out := Some (Output_value out))) outs (um_outputs m)"
    "um_unspent (g cs outs m) = um_unspent m \<union> uo_outputID ` set outs"
    "um_stateTree (g cs outs m) = (\<lambda>i. if i \<in> uo_outputID ` set outs then Some (cs i) else um_stateTree m i)"
    "um_ledgerSlot (g cs outs m) = um_ledgerSlot m"
  unfolding g_def
  by (induction outs arbitrary: m)
    (auto simp: importUnspentOutput_def stateTree_Set_def markAsUnspent_def storeOutput_def fun_eq_iff)

lemma Output_value_load [simp]: "Output_value (Output_load i v) = v"
  by (cases v) (simp add: Output_value_def Output_load_def)

lemma fold_import_same:
  assumes "ledger_ok cs m" "um_ledgerSlot m = Some slot"
  defines "outs \<equiv> map (\<lambda>i. Output_load i (the (um_outputs m i))) (sorted_list_of_set (um_unspent m))"
  shows "same_unspent m (fold (importUnspentOutput cs) outs (storeLedgerIndex slot New_utxo))"
proof -
  note l = assms(1) [unfolded ledger_ok_def]
  have fin: "finite (um_unspent m)" and sub: "um_unspent m \<subseteq> dom (um_outputs m)"
    and tr: "um_stateTree m = (\<lambda>i. if i \<in> um_unspent m then Some (cs i) else None)" using l by blast+
  have ids: "uo_outputID ` set outs = um_unspent m" using fin by (simp add: outs_def image_image)
  have "fold (\<lambda>out f. f(uo_outputID out := Some (Output_value out))) outs f i = um_outputs m i"
    if i: "i \<in> um_unspent m" for i f
  proof -
    let ?o = "Output_load i (the (um_outputs m i))"
    have "fold (\<lambda>out f. f(uo_outputID out := Some (Output_value out))) outs f (uo_outputID ?o) = Some (Output_value ?o)"
    proof (rule fold_upd_in)
      show "?o \<in> set outs" using i fin by (simp add: outs_def)
    qed (auto simp: outs_def)
    then show ?thesis using i sub by (cases "um_outputs m i") auto
  qed
  then show ?thesis using assms(2)
    unfolding same_unspent_def fold_import ids tr by (simp add: storeLedgerIndex_def New_utxo_def cong: if_cong)
qed

text \<open>
  C23. A snapshot exported for a slot can be imported into an empty ledger, and gives back the
  unspent outputs, the state tree and the ledger slot that the exporting node had at that slot.
\<close>

theorem UtxoImport_of_UtxoExport:
  assumes "range_loop (applySlotDiff cs) ds m = Inr m'" "steps_ok (applySlotDiff cs) (slot_diff_ok cs) ds m"
    and "um_ledgerSlot m = Some slot" "ledger_ok cs m'"
  shows "\<exists>sn v. UtxoExport genesis slot m' = Inr sn \<and> UtxoImport cs sn New_utxo = Inr v \<and>
    um_unspent v = um_unspent m \<and> um_stateTree v = um_stateTree m \<and> um_ledgerSlot v = Some slot \<and>
    (\<forall>i\<in>um_unspent m. ReadOutputByOutputID v i = ReadOutputByOutputID m i)"
proof -
  obtain l where l: "um_ledgerSlot m' = Some l"
    using assms(1)
  proof (rule range_loop_invariant [where P = "\<lambda>m. um_ledgerSlot m \<noteq> None", THEN exE [OF iffD1 [OF not_None_eq]]])
    show "um_ledgerSlot m \<noteq> None" using assms(3) by simp
  qed (auto simp: applySlotDiff_def ApplyDiff_fields(5))
  let ?outs = "map (\<lambda>i. Output_load i (the (um_outputs m' i))) (sorted_list_of_set (um_unspent m'))"
  let ?sn = "\<lparr>sn_ledgerIndex = l, sn_outputs = ?outs, sn_diffs = map exportedDiff (rev ds)\<rparr>"
  have ls: "ledgerSlot m' = l" "ledgerSlot m = slot" "ReadLedgerIndex genesis m' = l"
    using l assms(3) by (simp_all add: ledgerSlot_def ReadLedgerIndex_def)
  have "read_all (ReadOutputByOutputID m') (sorted_list_of_set (um_unspent m')) = Inr ?outs"
    using UnspentOutputs_ok(1) [OF enumerates_sorted_list assms(4)] by (simp add: UnspentOutputs_def)
  then have sn: "UtxoExport genesis slot m' = Inr ?sn"
    using export_diffs_commits [OF assms(1,2)] by (auto simp: UtxoExport_def ls go_result Let_def)
  have "same_unspent m' (fold (importUnspentOutput cs) ?outs (storeLedgerIndex l New_utxo))"
    by (rule fold_import_same [OF assms(4) l])
  from snap.undo_all [OF assms(1,2) this] obtain v where
    v: "UtxoImport cs ?sn New_utxo = Inr v" "same_unspent m v"
    using import_diffs_commits [OF assms(1,2)] by (auto simp: UtxoImport_def Let_def ls)
  then show ?thesis using sn assms(3)
    by (intro exI [of _ ?sn] exI [of _ v]) (simp add: same_unspent_def ReadOutputByOutputID_def)
qed

theorem UtxoImport_of_UtxoExport_witness:
  "\<exists>sn v. UtxoExport 0 0 (ApplyDiffWithoutLocking (\<lambda>_. 0) (sd_Slot demo_slot_diff)
      (sd_Outputs demo_slot_diff) (sd_Spents demo_slot_diff) demo_ledger) = Inr sn \<and>
    UtxoImport (\<lambda>_. 0) sn New_utxo = Inr v \<and> um_unspent v = {1}"
proof -
  let ?m = "ApplyDiffWithoutLocking (\<lambda>_. 0) (sd_Slot demo_slot_diff) (sd_Outputs demo_slot_diff) (sd_Spents demo_slot_diff) demo_ledger"
  have "ledger_ok (\<lambda>_. 0) ?m" using demo_slot_diff_ok ledger_ok_ApplyDiff unfolding slot_diff_ok_def by blast
  moreover have "um_ledgerSlot demo_ledger = Some 0" "um_unspent demo_ledger = {1}" by (simp_all add: demo_ledger_defs)
  ultimately show ?thesis
    using UtxoImport_of_UtxoExport [of "\<lambda>_. 0" "[demo_slot_diff]" demo_ledger ?m 0 0] demo_slot_diff_ok
    by (auto simp: applySlotDiff_def)
qed

end
