(* ===== verification/StateDiffs.thy ===== *)
theory StateDiffs
  imports UtxoLedger
begin

text \<open>
  The state diff of a slot, \<^verbatim>\<open>engine/mempool/v1/state_diff.go\<close>: the executed transactions, and the states
  that they create and destroy after compaction.  Of a transaction and of a state only what the state
  diff and the ledger read is modelled; the ordered map of the transactions is a list, and the
  authenticated set of the mutations a set.  \<open>diff_step\<close> is what the mempool does to the diff over time.
\<close>


section \<open>States and transactions\<close>

text \<open>A state of the mempool is an output or, read-only, a commitment.\<close>

record mem_state =
  st_ID :: hash_id
  st_IsReadOnly :: bool
  st_output :: "utxo_output option"

record tx_metadata =
  tx_ID :: hash_id
  tx_inputs :: "mem_state list"
  tx_outputs :: "mem_state list"
  tx_utxoInputs :: "output_id list"
  tx_Allotments :: "(account_id \<times> mana) list"
  tx_EarliestIncludedAttachment :: block_id

record state_diff =
  sdf_slot :: slot_index
  spentOutputs :: "hash_id \<rightharpoonup> mem_state"
  createdOutputs :: "hash_id \<rightharpoonup> mem_state"
  executedTransactions :: "tx_metadata list"
  stateUsageCounters :: "hash_id \<rightharpoonup> int"
  mutations :: "hash_id set"

section \<open>Operations\<close>

definition NewStateDiff :: "slot_index \<Rightarrow> state_diff" where
  "NewStateDiff slot =
     \<lparr>sdf_slot = slot, spentOutputs = Map.empty, createdOutputs = Map.empty, executedTransactions = [],
      stateUsageCounters = Map.empty, mutations = {}\<rparr>"

definition compactStateChanges :: "mem_state \<Rightarrow> int \<Rightarrow> state_diff \<Rightarrow> state_diff" where
  "compactStateChanges st usageCounter s =
     (if usageCounter > 0 then s\<lparr>createdOutputs := (createdOutputs s)(st_ID st \<mapsto> st)\<rparr>
      else if usageCounter < 0 then
        if \<not> st_IsReadOnly st then s\<lparr>spentOutputs := (spentOutputs s)(st_ID st \<mapsto> st)\<rparr> else s
      else s\<lparr>createdOutputs := (createdOutputs s)(st_ID st := None), spentOutputs := (spentOutputs s)(st_ID st := None)\<rparr>)"

text \<open>The change of one counter, and the compaction with its new value.\<close>

definition useState :: "int \<Rightarrow> mem_state \<Rightarrow> state_diff \<Rightarrow> state_diff" where
  "useState change st s =
     (let n = (case stateUsageCounters s (st_ID st) of None \<Rightarrow> 0 | Some currentValue \<Rightarrow> currentValue) + change
      in compactStateChanges st n (s\<lparr>stateUsageCounters := (stateUsageCounters s)(st_ID st \<mapsto> n)\<rparr>))"

definition updateCompactedStateChanges :: "tx_metadata \<Rightarrow> int \<Rightarrow> state_diff \<Rightarrow> state_diff" where
  "updateCompactedStateChanges tx direction s =
     fold (useState direction) (tx_outputs tx) (fold (useState (- direction)) (tx_inputs tx) s)"

text \<open>Setting a transaction in the ordered map: a new one goes to the end, one with a known id replaces the old one.\<close>

definition setExecuted :: "tx_metadata \<Rightarrow> tx_metadata list \<Rightarrow> tx_metadata list \<times> bool" where
  "setExecuted tx txs =
     (if \<exists>t\<in>set txs. tx_ID t = tx_ID tx then (map (\<lambda>t. if tx_ID t = tx_ID tx then tx else t) txs, True)
      else (txs @ [tx], False))"

definition AddTransaction :: "tx_metadata \<Rightarrow> state_diff \<Rightarrow> state_diff" where
  "AddTransaction tx s =
     (let (txs, exists) = setExecuted tx (executedTransactions s);
          s = s\<lparr>executedTransactions := txs\<rparr>
      in if \<not> exists then updateCompactedStateChanges tx 1 (s\<lparr>mutations := insert (tx_ID tx) (mutations s)\<rparr>)
         else s)"

definition RollbackTransaction :: "tx_metadata \<Rightarrow> state_diff \<Rightarrow> state_diff" where
  "RollbackTransaction tx s =
     (if \<exists>t\<in>set (executedTransactions s). tx_ID t = tx_ID tx then
        let s = s\<lparr>executedTransactions := filter (\<lambda>t. tx_ID t \<noteq> tx_ID tx) (executedTransactions s),
                  mutations := mutations s - {tx_ID tx}\<rparr>
        in updateCompactedStateChanges tx (- 1) s
      else s)"

definition StateDiff_Reset :: "state_diff \<Rightarrow> state_diff" where
  "StateDiff_Reset s =
     s\<lparr>spentOutputs := Map.empty, createdOutputs := Map.empty, executedTransactions := [],
       stateUsageCounters := Map.empty, mutations := {}\<rparr>"

section \<open>Compaction\<close>

text \<open>How often the transactions of a list create a state more often than they consume it.\<close>

definition usage :: "tx_metadata \<Rightarrow> hash_id \<Rightarrow> int" where
  "usage tx i = int (count_list (map st_ID (tx_outputs tx)) i) - int (count_list (map st_ID (tx_inputs tx)) i)"

definition netUsage :: "tx_metadata list \<Rightarrow> hash_id \<Rightarrow> int" where
  "netUsage txs i = (\<Sum>tx\<leftarrow>txs. usage tx i)"

definition counterOf :: "state_diff \<Rightarrow> hash_id \<Rightarrow> int" where
  "counterOf s i = (case stateUsageCounters s i of None \<Rightarrow> 0 | Some n \<Rightarrow> n)"

text \<open>\<open>ro\<close> tells which identifiers belong to read-only states.\<close>

definition compacted :: "(hash_id \<Rightarrow> bool) \<Rightarrow> state_diff \<Rightarrow> bool" where
  "compacted ro s \<longleftrightarrow> (\<forall>i. (createdOutputs s i \<noteq> None \<longleftrightarrow> 0 < counterOf s i) \<and>
     (spentOutputs s i \<noteq> None \<longleftrightarrow> counterOf s i < 0 \<and> \<not> ro i))"

definition state_diff_ok :: "(hash_id \<Rightarrow> bool) \<Rightarrow> (hash_id \<Rightarrow> tx_metadata) \<Rightarrow> state_diff \<Rightarrow> bool" where
  "state_diff_ok ro txOf s \<longleftrightarrow> compacted ro s \<and> (\<forall>i. counterOf s i = netUsage (executedTransactions s) i) \<and>
     distinct (map tx_ID (executedTransactions s)) \<and> (\<forall>tx\<in>set (executedTransactions s). txOf (tx_ID tx) = tx) \<and>
     mutations s = tx_ID ` set (executedTransactions s)"

text \<open>What the mempool does to the state diff of a slot; \<open>txOf\<close> gives the transaction of an identifier.\<close>

inductive diff_step :: "(hash_id \<Rightarrow> bool) \<Rightarrow> (hash_id \<Rightarrow> tx_metadata) \<Rightarrow> state_diff \<Rightarrow> state_diff \<Rightarrow> bool" for ro txOf where
  add: "txOf (tx_ID tx) = tx \<Longrightarrow> \<forall>st\<in>set (tx_inputs tx @ tx_outputs tx). st_IsReadOnly st = ro (st_ID st) \<Longrightarrow>
    diff_step ro txOf s (AddTransaction tx s)"
| rollback: "txOf (tx_ID tx) = tx \<Longrightarrow> \<forall>st\<in>set (tx_inputs tx @ tx_outputs tx). st_IsReadOnly st = ro (st_ID st) \<Longrightarrow>
    diff_step ro txOf s (RollbackTransaction tx s)"
| reset: "diff_step ro txOf s (StateDiff_Reset s)"

lemma useState_counter: "counterOf (useState d st s) i = counterOf s i + (if i = st_ID st then d else 0)"
  by (simp add: counterOf_def useState_def compactStateChanges_def Let_def)

lemma useState_frame [simp]:
  "executedTransactions (useState d st s) = executedTransactions s" "mutations (useState d st s) = mutations s"
  by (simp_all add: useState_def compactStateChanges_def Let_def)

lemma useState_compacted:
  assumes "compacted ro s" "st_IsReadOnly st = ro (st_ID st)" "d = 1 \<or> d = - 1"
  shows "compacted ro (useState d st s)"
proof -
  let ?i = "st_ID st" and ?s = "useState d st s"
  have other: "createdOutputs ?s i = createdOutputs s i \<and> spentOutputs ?s i = spentOutputs s i" if "i \<noteq> ?i" for i
    using that by (simp add: useState_def compactStateChanges_def Let_def)
  have c: "counterOf ?s ?i = counterOf s ?i + d" by (simp add: useState_counter)
  define n where "n = counterOf s ?i"
  have new: "createdOutputs ?s ?i = (if n + d > 0 then Some st else if n + d < 0 then createdOutputs s ?i else None)"
    "spentOutputs ?s ?i = (if n + d > 0 then spentOutputs s ?i else if n + d < 0 then (if ro ?i then spentOutputs s ?i else Some st) else None)"
    using assms(2) by (simp_all add: useState_def compactStateChanges_def n_def counterOf_def Let_def)
  have old: "createdOutputs s ?i = None \<longleftrightarrow> n \<le> 0" "spentOutputs s ?i = None \<longleftrightarrow> 0 \<le> n \<or> ro ?i"
    using assms(1) [unfolded compacted_def, rule_format, of ?i] unfolding n_def by (metis not_less)+
  have at: "(createdOutputs ?s ?i \<noteq> None \<longleftrightarrow> 0 < n + d) \<and> (spentOutputs ?s ?i \<noteq> None \<longleftrightarrow> n + d < 0 \<and> \<not> ro ?i)"
    unfolding new using old assms(3) by (cases "n + d > 0"; cases "n + d < 0") (elim disjE; simp)+
  show ?thesis unfolding compacted_def
  proof
    fix i
    show "(createdOutputs ?s i \<noteq> None \<longleftrightarrow> 0 < counterOf ?s i) \<and> (spentOutputs ?s i \<noteq> None \<longleftrightarrow> counterOf ?s i < 0 \<and> \<not> ro i)"
      using at c other [of i] assms(1) useState_counter [of d st s i] by (cases "i = ?i") (simp_all add: n_def compacted_def)
  qed
qed

lemma useStates:
  assumes "compacted ro s" "\<forall>st\<in>set sts. st_IsReadOnly st = ro (st_ID st)" "d = 1 \<or> d = - 1"
  shows "compacted ro (fold (useState d) sts s)"
    "counterOf (fold (useState d) sts s) i = counterOf s i + d * int (count_list (map st_ID sts) i)"
    "executedTransactions (fold (useState d) sts s) = executedTransactions s" "mutations (fold (useState d) sts s) = mutations s"
  using assms(1,2)
proof (induction sts arbitrary: s)
  case (Cons st sts)
  { case 1 then show ?case using Cons(1) useState_compacted assms(3) by simp }
  { case 2 then show ?case using Cons(2) [of "useState d st s"] useState_compacted assms(3) by (simp add: useState_counter algebra_simps) }
  { case 3 then show ?case using Cons(3) [of "useState d st s"] useState_compacted assms(3) by simp }
  { case 4 then show ?case using Cons(4) [of "useState d st s"] useState_compacted assms(3) by simp }
qed simp_all

lemma updateCompacted:
  assumes "compacted ro s" "\<forall>st\<in>set (tx_inputs tx @ tx_outputs tx). st_IsReadOnly st = ro (st_ID st)" "d = 1 \<or> d = - 1"
  shows "compacted ro (updateCompactedStateChanges tx d s)"
    "counterOf (updateCompactedStateChanges tx d s) i = counterOf s i + d * usage tx i"
    "executedTransactions (updateCompactedStateChanges tx d s) = executedTransactions s"
    "mutations (updateCompactedStateChanges tx d s) = mutations s"
proof -
  have ro: "\<forall>st\<in>set (tx_inputs tx). st_IsReadOnly st = ro (st_ID st)" "\<forall>st\<in>set (tx_outputs tx). st_IsReadOnly st = ro (st_ID st)"
    "- d = 1 \<or> - d = - 1" using assms(2,3) by auto
  note a = useStates [OF assms(1) ro(1,3)]
  note b = useStates [OF a(1) ro(2) assms(3)]
  show "compacted ro (updateCompactedStateChanges tx d s)"
    "counterOf (updateCompactedStateChanges tx d s) i = counterOf s i + d * usage tx i"
    "executedTransactions (updateCompactedStateChanges tx d s) = executedTransactions s"
    "mutations (updateCompactedStateChanges tx d s) = mutations s"
    using a b by (simp_all add: updateCompactedStateChanges_def usage_def algebra_simps)
qed

lemma netUsage_simps: "netUsage [] i = 0" "netUsage (tx # txs) i = usage tx i + netUsage txs i" "netUsage (txs @ txs') i = netUsage txs i + netUsage txs' i"
  by (simp_all add: netUsage_def)

lemma netUsage_remove:
  "distinct (map tx_ID txs) \<Longrightarrow> tx \<in> set txs \<Longrightarrow> netUsage (filter (\<lambda>t. tx_ID t \<noteq> tx_ID tx) txs) i = netUsage txs i - usage tx i"
proof (induction txs)
  case (Cons t txs)
  show ?case
  proof (cases "t = tx")
    case True
    then have "tx_ID u \<noteq> tx_ID tx" if "u \<in> set txs" for u using Cons(2) that by (auto simp: image_iff)
    then have "filter (\<lambda>t. tx_ID t \<noteq> tx_ID tx) txs = txs" by (simp add: filter_id_conv)
    then show ?thesis using True by (simp add: netUsage_simps)
  next
    case False
    then have "tx \<in> set txs" "tx_ID t \<noteq> tx_ID tx" using Cons(2,3) by (auto simp: image_iff)
    then show ?thesis using Cons(1,2) by (simp add: netUsage_simps)
  qed
qed simp

lemma counterOf_cong: "stateUsageCounters s = stateUsageCounters t \<Longrightarrow> counterOf s = counterOf t"
  by (intro ext) (simp add: counterOf_def)

lemma diff_step_ok:
  assumes "diff_step ro txOf s s'" "state_diff_ok ro txOf s"
  shows "state_diff_ok ro txOf s'"
  using assms(1)
proof cases
  case (add tx)
  note ok = assms(2) [unfolded state_diff_ok_def]
  show ?thesis
  proof (cases "\<exists>t\<in>set (executedTransactions s). tx_ID t = tx_ID tx")
    case True
    have "map (\<lambda>t. if tx_ID t = tx_ID tx then tx else t) (executedTransactions s) = executedTransactions s"
      using ok add(2) by (intro map_idI) (metis (full_types))
    then have "AddTransaction tx s = s" using True by (simp add: AddTransaction_def setExecuted_def)
    then show ?thesis using add(1) assms(2) by simp
  next
    case False
    let ?s = "s\<lparr>executedTransactions := executedTransactions s @ [tx], mutations := insert (tx_ID tx) (mutations s)\<rparr>"
    have a: "AddTransaction tx s = updateCompactedStateChanges tx 1 ?s" using False by (simp add: AddTransaction_def setExecuted_def)
    have cnt: "counterOf ?s = counterOf s" by (rule counterOf_cong) simp
    have "compacted ro ?s" using ok cnt by (simp add: compacted_def)
    note u = updateCompacted [OF this add(3), of 1]
    show ?thesis
      unfolding state_diff_ok_def add(1) a using u ok False add(2) cnt by (auto simp: netUsage_simps image_iff)
  qed
next
  case (rollback tx)
  note ok = assms(2) [unfolded state_diff_ok_def]
  show ?thesis
  proof (cases "\<exists>t\<in>set (executedTransactions s). tx_ID t = tx_ID tx")
    case True
    then have mem: "tx \<in> set (executedTransactions s)" using ok rollback(2) by metis
    let ?s = "s\<lparr>executedTransactions := filter (\<lambda>t. tx_ID t \<noteq> tx_ID tx) (executedTransactions s), mutations := mutations s - {tx_ID tx}\<rparr>"
    have a: "RollbackTransaction tx s = updateCompactedStateChanges tx (- 1) ?s" using True by (simp add: RollbackTransaction_def)
    have cnt: "counterOf ?s = counterOf s" by (rule counterOf_cong) simp
    have "compacted ro ?s" using ok cnt by (simp add: compacted_def)
    note u = updateCompacted [OF this rollback(3), of "- 1"]
    show ?thesis
      unfolding state_diff_ok_def rollback(1) a using u ok mem cnt
      by (auto simp: netUsage_remove distinct_map_filter)
  next
    case False
    then show ?thesis using rollback(1) assms(2) by (simp add: RollbackTransaction_def)
  qed
next
  case reset
  then show ?thesis by (simp add: state_diff_ok_def compacted_def counterOf_def StateDiff_Reset_def netUsage_simps)
qed

text \<open>
  C6. However transactions are added to and rolled back from the state diff of a slot, its compacted
  changes are those of the transactions that it holds: the created states are the ones that these
  transactions create more often than they consume, the destroyed states are the ones that they consume
  more often, except read-only states, and the mutations are the identifiers of the transactions.
\<close>

theorem state_diff_compacted:
  assumes "(diff_step ro txOf)\<^sup>*\<^sup>* (NewStateDiff slot) s"
  shows "(createdOutputs s i \<noteq> None \<longleftrightarrow> 0 < netUsage (executedTransactions s) i) \<and>
    (spentOutputs s i \<noteq> None \<longleftrightarrow> netUsage (executedTransactions s) i < 0 \<and> \<not> ro i) \<and>
    mutations s = tx_ID ` set (executedTransactions s) \<and> distinct (map tx_ID (executedTransactions s))"
proof -
  have "state_diff_ok ro txOf s" using assms
  proof (induction rule: rtranclp_induct)
    case base
    then show ?case by (simp add: state_diff_ok_def compacted_def counterOf_def NewStateDiff_def netUsage_simps)
  next
    case (step s s')
    then show ?case using diff_step_ok by blast
  qed
  then show ?thesis unfolding state_diff_ok_def compacted_def by metis
qed

text \<open>A transaction that spends state 1 for state 2, and one that spends state 2 for state 3.\<close>

definition demo_state :: "hash_id \<Rightarrow> mem_state" where
  "demo_state i = \<lparr>st_ID = i, st_IsReadOnly = False, st_output = None\<rparr>"

definition demo_transfer :: "hash_id \<Rightarrow> tx_metadata" where
  "demo_transfer i =
     \<lparr>tx_ID = i, tx_inputs = [demo_state i], tx_outputs = [demo_state (Suc i)], tx_utxoInputs = [], tx_Allotments = [],
      tx_EarliestIncludedAttachment = \<lparr>bid_hash = i, bid_slot = 1\<rparr>\<rparr>"

theorem state_diff_compacted_witness:
  "\<exists>s. (diff_step (\<lambda>_. False) demo_transfer)\<^sup>*\<^sup>* (NewStateDiff 1) s \<and> executedTransactions s = [demo_transfer 1, demo_transfer 2] \<and>
     createdOutputs s 2 = None \<and> spentOutputs s 2 = None \<and> createdOutputs s 3 \<noteq> None \<and> spentOutputs s 1 \<noteq> None"
proof -
  let ?s = "AddTransaction (demo_transfer 2) (AddTransaction (demo_transfer 1) (NewStateDiff 1))"
  have step: "diff_step (\<lambda>_. False) demo_transfer s (AddTransaction (demo_transfer i) s)" for s i
    by (rule diff_step.add) (simp_all add: demo_transfer_def demo_state_def)
  have r: "(diff_step (\<lambda>_. False) demo_transfer)\<^sup>*\<^sup>* (NewStateDiff 1) ?s"
    using step by (meson rtranclp.rtrancl_refl rtranclp.rtrancl_into_rtrancl)
  have e: "executedTransactions ?s = [demo_transfer 1, demo_transfer 2]"
    by (simp add: AddTransaction_def setExecuted_def NewStateDiff_def updateCompactedStateChanges_def demo_transfer_def)
  have n: "netUsage [demo_transfer 1, demo_transfer 2] 1 = - 1" "netUsage [demo_transfer 1, demo_transfer 2] 2 = 0"
    "netUsage [demo_transfer 1, demo_transfer 2] 3 = 1"
    by (simp_all add: netUsage_def usage_def demo_transfer_def demo_state_def)
  note c = state_diff_compacted [OF r, unfolded e]
  show ?thesis using r e c [of 1] c [of 2] c [of 3] unfolding n by (intro exI [of _ ?s]) simp
qed

end
