(* ===== verification/AccountsLedger.thy ===== *)
theory AccountsLedger
  imports Outputs
begin

text \<open>
  The accounts ledger: \<^verbatim>\<open>accounts/accountsledger/manager.go\<close> and the store of account diffs,
  \<^verbatim>\<open>storage/prunable/slotstore/accountdiffs.go\<close>.

  \<^item> \<open>manager\<close> is the state of the Go type \<^verbatim>\<open>Manager\<close>: the accounts tree (an authenticated map,
    here a map), the tracked blocks and version signals, the latest committed slot and the diff
    stores by slot; \<open>slotDiff m s = None\<close> is a slot whose store the storage refuses to open.
  \<^item> \<open>ledger_env\<close> holds what the manager is constructed with or calls: the protocol parameters by
    slot, the checked arithmetic, the block cache and the orders in which maps and sets are
    traversed.
  \<^item> Errors and panics are values of \<open>ledger_error\<close>.  The state after an error is not modelled.
    Errors of the key-value store are not modelled.
  \<^item> The lemmas show that committing a slot and rolling it back restores every account and the
    accounts tree, for one slot and for any sequence of slots, and what \<^verbatim>\<open>Account\<close> answers for
    an earlier slot.
\<close>

section \<open>The store of account diffs\<close>

record account_diffs =
  diffChangeStore :: "account_id \<rightharpoonup> account_diff"
  destroyedAccounts :: "account_id set"

definition NewAccountDiffs :: account_diffs where
  "NewAccountDiffs = \<lparr>diffChangeStore = Map.empty, destroyedAccounts = {}\<rparr>"

definition AccountDiffs_Store :: "account_id \<Rightarrow> account_diff \<Rightarrow> bool \<Rightarrow> account_diffs \<Rightarrow> account_diffs" where
  "AccountDiffs_Store accountID accountDiff destroyed b =
     (let b = (if destroyed then b\<lparr>destroyedAccounts := insert accountID (destroyedAccounts b)\<rparr> else b)
      in b\<lparr>diffChangeStore := (diffChangeStore b)(accountID \<mapsto> accountDiff)\<rparr>)"

definition AccountDiffs_Load :: "account_diffs \<Rightarrow> account_id \<Rightarrow> (account_diff \<times> bool) option" where
  "AccountDiffs_Load b accountID =
     (let destroyed = (accountID \<in> destroyedAccounts b)
      in case diffChangeStore b accountID of
           None \<Rightarrow> None
         | Some accountDiff \<Rightarrow> Some (accountDiff, destroyed))"

definition AccountDiffs_Has :: "account_diffs \<Rightarrow> account_id \<Rightarrow> bool" where
  "AccountDiffs_Has b accountID = (diffChangeStore b accountID \<noteq> None)"

definition AccountDiffs_Delete :: "account_id \<Rightarrow> account_diffs \<Rightarrow> account_diffs" where
  "AccountDiffs_Delete accountID b = b\<lparr>diffChangeStore := (diffChangeStore b)(accountID := None)\<rparr>"

definition AccountDiffs_Clear :: "account_diffs \<Rightarrow> account_diffs" where
  "AccountDiffs_Clear b = b\<lparr>diffChangeStore := Map.empty, destroyedAccounts := {}\<rparr>"

section \<open>State, environment and errors\<close>

record manager =
  blockBurns :: "slot_index \<rightharpoonup> block_id set"
  latestSupportedVersionSignals :: "slot_index \<rightharpoonup> (account_id \<rightharpoonup> signaled_block)"
  latestCommittedSlot :: slot_index
  accountsTree :: "account_id \<rightharpoonup> account_data"
  slotDiff :: "slot_index \<Rightarrow> account_diffs option"

record ledger_env =
  apiForSlot :: "slot_index \<Rightarrow> api"
  math :: safemath
  blockFunc :: "block_id \<Rightarrow> block option"
  blockIDBytes :: "block_id \<Rightarrow> nat"
  iterAccounts :: "account_id set \<Rightarrow> account_id list"
  iterBlocks :: "block_id set \<Rightarrow> block_id list"

definition env_ok :: "ledger_env \<Rightarrow> bool" where
  "env_ok E \<longleftrightarrow> safemath_ok (math E) \<and> enumerates (iterAccounts E) \<and> enumerates (iterBlocks E)"

datatype ledger_error =
    CommittedSlotGap slot_index slot_index
  | SlotNotCommitted slot_index
  | SlotPruned slot_index
  | DiffMissing account_id
  | BlockNotFound block_id
  | PenaltyAccountMissing account_id
  | ManaGenerationFailed account_id
  | DecayFailed account_id
  | ValidatorStakeOverflow account_id
  | DelegationStakeOverflow account_id
  | StakeEndEpochOverflow account_id
  | FixedCostOverflow account_id
  | IncorrectAccountState account_id
  | NotAnAccountOutput
  | PanicBurnAccount account_id
  | PanicNilDiff account_id
  | PanicNilFeature account_id
  | PanicSlotDiff slot_index

section \<open>Operations\<close>

definition New_manager :: "(slot_index \<Rightarrow> account_diffs option) \<Rightarrow> manager" where
  "New_manager diffs =
     \<lparr>blockBurns = Map.empty, latestSupportedVersionSignals = Map.empty,
      latestCommittedSlot = 0, accountsTree = Map.empty, slotDiff = diffs\<rparr>"

definition SetLatestCommittedSlot :: "slot_index \<Rightarrow> manager \<Rightarrow> manager" where
  "SetLatestCommittedSlot slot m = m\<lparr>latestCommittedSlot := slot\<rparr>"

definition TrackBlock :: "ledger_env \<Rightarrow> block \<Rightarrow> manager \<Rightarrow> manager" where
  "TrackBlock E b m =
     (let slot = bid_slot (blk_ID b);
          burns = (case blockBurns m slot of None \<Rightarrow> {} | Some s \<Rightarrow> s);
          m = m\<lparr>blockBurns := (blockBurns m)(slot \<mapsto> insert (blk_ID b) burns)\<rparr>
      in case blk_body b of
           ValidationBlock version hash \<Rightarrow>
             let new = NewSignaledBlock b version hash;
                 signals = (case latestSupportedVersionSignals m slot of None \<Rightarrow> Map.empty | Some s \<Rightarrow> s);
                 value = (case signals (blk_IssuerID b) of
                            None \<Rightarrow> new
                          | Some current \<Rightarrow>
                              if SignaledBlock_Compare (blockIDBytes E) (Some new) (Some current) = 1
                              then new else current)
             in m\<lparr>latestSupportedVersionSignals :=
                    (latestSupportedVersionSignals m)(slot \<mapsto> signals(blk_IssuerID b \<mapsto> value))\<rparr>
         | _ \<Rightarrow> m)"

definition LoadSlotDiff ::
  "manager \<Rightarrow> slot_index \<Rightarrow> account_id \<Rightarrow> ledger_error + (account_diff \<times> bool)" where
  "LoadSlotDiff m slot accountID =
     and_then (or_err (SlotPruned slot) (slotDiff m slot))
       (\<lambda>s. or_err (DiffMissing accountID) (AccountDiffs_Load s accountID))"

subsection \<open>Rolling back an account\<close>

definition rollbackStakes ::
  "safemath \<Rightarrow> account_diff \<Rightarrow> account_data \<Rightarrow> ledger_error + account_data" where
  "rollbackStakes sm diffChange a =
     and_then (or_err (ValidatorStakeOverflow (ad_id a))
                 (sub_i64 sm (ad_validatorStake a) (ValidatorStakeChange diffChange))) (\<lambda>validatorStake.
     let a = a\<lparr>ad_validatorStake := validatorStake\<rparr> in
     and_then (or_err (DelegationStakeOverflow (ad_id a))
                 (sub_i64 sm (ad_delegationStake a) (DelegationStakeChange diffChange))) (\<lambda>delegationStake.
     let a = a\<lparr>ad_delegationStake := delegationStake\<rparr> in
     and_then (or_err (StakeEndEpochOverflow (ad_id a))
                 (sub_i64 sm (ucast (ad_stakeEndEpoch a)) (StakeEndEpochChange diffChange))) (\<lambda>stakeEndEpoch.
     let a = a\<lparr>ad_stakeEndEpoch := ucast stakeEndEpoch\<rparr> in
     and_then (or_err (FixedCostOverflow (ad_id a))
                 (sub_i64 sm (ad_fixedCost a) (FixedCostChange diffChange))) (\<lambda>fixedCost.
     Inr (a\<lparr>ad_fixedCost := fixedCost\<rparr>)))))"

text \<open>The fields up to the creation check, and those after it.\<close>

definition rollbackCredits :: "account_diff \<Rightarrow> bool \<Rightarrow> account_data \<Rightarrow> account_data" where
  "rollbackCredits diffChange destroyed a =
     (let a = (if BICChange diffChange \<noteq> 0 \<or> destroyed
               then a\<lparr>ad_credits := Credits_Update (- BICChange diffChange)
                        (Some (PreviousUpdatedSlot diffChange)) (ad_credits a)\<rparr>
               else a)
      in if PreviousExpirySlot diffChange \<noteq> NewExpirySlot diffChange
         then a\<lparr>ad_expirySlot := PreviousExpirySlot diffChange\<rparr> else a)"

definition rollbackFields :: "account_diff \<Rightarrow> account_data \<Rightarrow> account_data" where
  "rollbackFields diffChange a =
     (let a = (if PreviousOutputID diffChange \<noteq> 0
               then a\<lparr>ad_outputID := PreviousOutputID diffChange\<rparr> else a);
          a = AddBlockIssuerKeys (BlockIssuerKeysRemoved diffChange) a
      in RemoveBlockIssuerKeys (BlockIssuerKeysAdded diffChange) a)"

definition rollbackVersion :: "account_diff \<Rightarrow> account_data \<Rightarrow> account_data" where
  "rollbackVersion diffChange a =
     (if PrevLatestSupportedVersionAndHash diffChange \<noteq> NewLatestSupportedVersionAndHash diffChange
      then a\<lparr>ad_latestSupported := PrevLatestSupportedVersionAndHash diffChange\<rparr> else a)"

text \<open>The result is the account and the flags \<^verbatim>\<open>wasCreatedInTheDiff\<close> and \<^verbatim>\<open>wasDestroyed\<close>.\<close>

definition rollbackSlotDiffOnAccount ::
  "safemath \<Rightarrow> account_diffs \<Rightarrow> account_data \<Rightarrow> ledger_error + (account_data \<times> bool \<times> bool)" where
  "rollbackSlotDiffOnAccount sm diffStore a =
     (if \<not> AccountDiffs_Has diffStore (ad_id a) then Inr (a, False, False)
      else
        and_then (or_err (DiffMissing (ad_id a)) (AccountDiffs_Load diffStore (ad_id a)))
          (\<lambda>(diffChange, destroyed).
        let a = rollbackCredits diffChange destroyed a
        in if PreviousOutputID diffChange = 0 \<and> NewOutputID diffChange \<noteq> 0
           then Inr (a, True, False)
           else and_then (rollbackStakes sm diffChange (rollbackFields diffChange a)) (\<lambda>a.
                Inr (rollbackVersion diffChange a, False, destroyed))))"

text \<open>The loop runs down from the latest committed slot; it stops early at the creation.\<close>

function rollbackAccountLoop ::
  "safemath \<Rightarrow> manager \<Rightarrow> slot_index \<Rightarrow> slot_index \<Rightarrow> account_data \<Rightarrow> bool
     \<Rightarrow> ledger_error + (account_data \<times> bool)" where
  "rollbackAccountLoop sm m targetSlot diffSlot a wasDestroyed =
     (if diffSlot > targetSlot then
        and_then (or_err (SlotPruned diffSlot) (slotDiff m diffSlot)) (\<lambda>diffStore.
        and_then (rollbackSlotDiffOnAccount sm diffStore a) (\<lambda>(a, createdInTheDiff, destroyed).
          if createdInTheDiff then Inr (a, False)
          else rollbackAccountLoop sm m targetSlot (diffSlot - 1) a (wasDestroyed \<or> destroyed)))
      else Inr (a, wasDestroyed))"
  by pat_completeness auto

termination
  by (relation "measure (\<lambda>(sm, m, targetSlot, diffSlot, a, w). unat diffSlot)")
    (auto intro: unat_pred_less)

definition rollbackAccountTo ::
  "safemath \<Rightarrow> manager \<Rightarrow> account_data \<Rightarrow> slot_index \<Rightarrow> ledger_error + (account_data \<times> bool)" where
  "rollbackAccountTo sm m a targetSlot =
     rollbackAccountLoop sm m targetSlot (latestCommittedSlot m) a False"

declare rollbackAccountLoop.simps [simp del]

text \<open>\<^verbatim>\<open>Account\<close>: None is an account reported as not existing.\<close>

definition account :: "safemath \<Rightarrow> manager \<Rightarrow> account_id \<Rightarrow> slot_index \<Rightarrow> ledger_error + account_data option" where
  "account sm m accountID targetSlot =
     (if targetSlot > latestCommittedSlot m then Inl (SlotNotCommitted targetSlot)
      else
        let exists = (accountsTree m accountID \<noteq> None);
            loadedAccount = (case accountsTree m accountID of
                               None \<Rightarrow> NewAccountData accountID | Some a \<Rightarrow> a)
        in and_then (rollbackAccountTo sm m loadedAccount targetSlot) (\<lambda>(loadedAccount, wasDestroyed).
             if \<not> exists \<and> \<not> wasDestroyed then Inr None else Inr (Some loadedAccount)))"

definition PastAccounts ::
  "safemath \<Rightarrow> manager \<Rightarrow> account_id list \<Rightarrow> slot_index \<Rightarrow> (account_id \<rightharpoonup> account_data)" where
  "PastAccounts sm m accountIDs targetSlot =
     fold (\<lambda>accountID result.
        let exists = (accountsTree m accountID \<noteq> None);
            loadedAccount = (case accountsTree m accountID of
                None \<Rightarrow> (NewAccountData accountID)\<lparr>ad_credits := NewBlockIssuanceCredits 0 targetSlot\<rparr>
              | Some a \<Rightarrow> a)
        in case rollbackAccountTo sm m loadedAccount targetSlot of
             Inl _ \<Rightarrow> result
           | Inr (loadedAccount, wasDestroyed) \<Rightarrow>
               if \<not> exists \<and> \<not> wasDestroyed then result else result(accountID \<mapsto> loadedAccount))
       accountIDs Map.empty"

subsection \<open>Rolling back the tree\<close>

text \<open>The consumer that \<^verbatim>\<open>rollbackFromTo\<close> passes to \<^verbatim>\<open>Stream\<close>: one account of one slot.\<close>

definition rollbackTreeAccount ::
  "safemath \<Rightarrow> account_diffs \<Rightarrow> account_id \<Rightarrow> account_data option \<Rightarrow> ledger_error + account_data option" where
  "rollbackTreeAccount sm diffs accountID current =
     (let exists = (current \<noteq> None);
          accountData = (case current of None \<Rightarrow> NewAccountData accountID | Some a \<Rightarrow> a)
      in and_then (rollbackSlotDiffOnAccount sm diffs accountData)
           (\<lambda>(accountData, wasCreatedAfterTargetSlot, wasDestroyed).
         if \<not> exists \<and> \<not> wasDestroyed \<or> exists \<and> wasDestroyed
         then Inl (IncorrectAccountState accountID)
         else if wasCreatedAfterTargetSlot \<and> exists then Inr None
         else Inr (Some accountData)))"

definition rollbackSlot ::
  "ledger_env \<Rightarrow> slot_index \<Rightarrow> bool \<Rightarrow> manager \<Rightarrow> ledger_error + manager" where
  "rollbackSlot E slot deleteRevertedDiffs m =
     and_then (or_err (PanicSlotDiff slot) (slotDiff m slot)) (\<lambda>diffs.
     and_then (range_loop
         (\<lambda>accountID tree.
            map_sum id (\<lambda>a. tree(accountID := a))
              (rollbackTreeAccount (math E) diffs accountID (tree accountID)))
         (iterAccounts E (dom (diffChangeStore diffs))) (accountsTree m)) (\<lambda>tree.
       Inr (m\<lparr>accountsTree := tree,
              slotDiff := (if deleteRevertedDiffs then (slotDiff m)(slot := Some (AccountDiffs_Clear diffs))
                           else slotDiff m)\<rparr>)))"

definition rollbackFromTo ::
  "ledger_env \<Rightarrow> slot_index \<Rightarrow> slot_index \<Rightarrow> bool \<Rightarrow> manager \<Rightarrow> ledger_error + manager" where
  "rollbackFromTo E fromSlot toSlot deleteRevertedDiffs m =
     down_loop (\<lambda>slot. rollbackSlot E slot deleteRevertedDiffs) fromSlot toSlot m"

definition Rollback :: "ledger_env \<Rightarrow> slot_index \<Rightarrow> manager \<Rightarrow> ledger_error + manager" where
  "Rollback E targetSlot m = rollbackFromTo E (latestCommittedSlot m) targetSlot False m"

subsection \<open>Adding accounts, resetting\<close>

text \<open>
  An account output without a block issuer feature makes \<^verbatim>\<open>AddAccount\<close> dereference a nil
  pointer; the options are applied in the order in which the source lists them.
\<close>

definition AddAccount :: "utxo_output \<Rightarrow> i64 \<Rightarrow> manager \<Rightarrow> ledger_error + manager" where
  "AddAccount output blockIssuanceCredits m =
     (case out_kind (uo_output output) of
        OutputAccount accountID blockIssuer staking \<Rightarrow>
          and_then (or_err (PanicNilFeature accountID) blockIssuer) (\<lambda>bi.
          let a = NewAccountData accountID;
              a = (case staking of
                     None \<Rightarrow> a
                   | Some sf \<Rightarrow> a\<lparr>ad_validatorStake := StakedAmount sf, ad_stakeEndEpoch := EndEpoch sf,
                                 ad_fixedCost := sf_FixedCost sf\<rparr>);
              a = a\<lparr>ad_credits := NewBlockIssuanceCredits blockIssuanceCredits (latestCommittedSlot m),
                    ad_outputID := uo_outputID output\<rparr>;
              a = AddBlockIssuerKeys (BlockIssuerKeys bi) a;
              a = a\<lparr>ad_expirySlot := ExpirySlot bi\<rparr>
          in Inr (m\<lparr>accountsTree := (accountsTree m)(accountID \<mapsto> a)\<rparr>))
      | _ \<Rightarrow> Inl NotAnAccountOutput)"

definition Manager_Reset :: "manager \<Rightarrow> manager" where
  "Manager_Reset m = m\<lparr>blockBurns := Map.empty, latestSupportedVersionSignals := Map.empty\<rparr>"

definition evict :: "slot_index \<Rightarrow> manager \<Rightarrow> manager" where
  "evict slot m =
     m\<lparr>blockBurns := (blockBurns m)(slot := None),
       latestSupportedVersionSignals := (latestSupportedVersionSignals m)(slot := None)\<rparr>"

subsection \<open>Burns and version signals\<close>

definition incr :: "'k \<Rightarrow> 'v \<Rightarrow> ('k \<rightharpoonup> 'v) \<Rightarrow> ('k \<rightharpoonup> 'v::{zero,plus})" where
  "incr k v burns = burns(k \<mapsto> (case burns k of None \<Rightarrow> 0 | Some x \<Rightarrow> x) + v)"

text \<open>One block of the slot: a basic block burns, a validation block is counted.\<close>

definition trackedBlockBurn ::
  "ledger_env \<Rightarrow> mana \<Rightarrow> block_id \<Rightarrow> (account_id \<rightharpoonup> mana) \<times> (account_id \<rightharpoonup> nat)
     \<Rightarrow> ledger_error + (account_id \<rightharpoonup> mana) \<times> (account_id \<rightharpoonup> nat)" where
  "trackedBlockBurn E rmc blockID = (\<lambda>(burns, validationBlockCount).
     and_then (or_err (BlockNotFound blockID) (blockFunc E blockID)) (\<lambda>b.
       if IsBasicBlock b then
         Inr (incr (blk_IssuerID b) (ucast (blk_WorkScore b) * rmc) burns, validationBlockCount)
       else if IsValidationBlock b then
         Inr (burns, incr (blk_IssuerID b) 1 validationBlockCount)
       else Inr (burns, validationBlockCount)))"

text \<open>One over-issuing validator: the punishment is burned once for each block above the limit.\<close>

definition overIssuanceBurn ::
  "ledger_env \<Rightarrow> manager \<Rightarrow> slot_index \<Rightarrow> (account_id \<rightharpoonup> nat) \<Rightarrow> account_id \<Rightarrow> (account_id \<rightharpoonup> mana)
     \<Rightarrow> ledger_error + (account_id \<rightharpoonup> mana)" where
  "overIssuanceBurn E m slot validationBlockCount accountID burns =
     (let api = apiForSlot E slot;
          validationBlocksPerSlot = unat (ValidationBlocksPerSlot api);
          count = (case validationBlockCount accountID of None \<Rightarrow> 0 | Some n \<Rightarrow> n)
      in if count > validationBlocksPerSlot then
           case account (math E) m accountID (latestCommittedSlot m) of
             Inr (Some accountData) \<Rightarrow>
               and_then (or_err (ManaGenerationFailed accountID)
                   (GenerateManaAndDecayBySlots api (ad_validatorStake accountData) slot
                      (slot + EpochDurationSlots api * PunishmentEpochs api))) (\<lambda>manaPunishment.
                 Inr (incr accountID (word_of_nat (count - validationBlocksPerSlot) * manaPunishment) burns))
           | _ \<Rightarrow> Inl (PenaltyAccountMissing accountID)
         else Inr burns)"

definition computeBlockBurnsForSlot ::
  "ledger_env \<Rightarrow> manager \<Rightarrow> slot_index \<Rightarrow> mana \<Rightarrow> ledger_error + (account_id \<rightharpoonup> mana)" where
  "computeBlockBurnsForSlot E m slot rmc =
     (case blockBurns m slot of
        None \<Rightarrow> Inr Map.empty
      | Some blockIDs \<Rightarrow>
          and_then (range_loop (trackedBlockBurn E rmc) (iterBlocks E blockIDs) (Map.empty, Map.empty))
            (\<lambda>(burns, validationBlockCount).
          range_loop (overIssuanceBurn E m slot validationBlockCount)
            (iterAccounts E (dom validationBlockCount)) burns))"

text \<open>
  One burn is entered into the diff of its account.  A diff that does not exist yet takes over the
  account's current slots and output; one that exists only changes its \<^verbatim>\<open>BICChange\<close>.
\<close>

definition burnIntoDiff ::
  "ledger_env \<Rightarrow> manager \<Rightarrow> slot_index \<Rightarrow> (account_id \<rightharpoonup> mana) \<Rightarrow> account_id
     \<Rightarrow> account_diff option \<Rightarrow> ledger_error + account_diff option" where
  "burnIntoDiff E m slot burns accountID current =
     (let burn = (case burns accountID of None \<Rightarrow> 0 | Some b \<Rightarrow> b)
      in and_then (case current of
           Some accountDiff \<Rightarrow> Inr accountDiff
         | None \<Rightarrow>
             (case account (math E) m accountID (slot - 1) of
                Inr (Some accountData) \<Rightarrow>
                  Inr (NewAccountDiff\<lparr>
                    PreviousUpdatedSlot := cr_updateSlot (ad_credits accountData),
                    NewExpirySlot := ad_expirySlot accountData,
                    PreviousExpirySlot := ad_expirySlot accountData,
                    NewOutputID := ad_outputID accountData,
                    PreviousOutputID := ad_outputID accountData\<rparr>)
              | _ \<Rightarrow> Inl (PanicBurnAccount accountID)))
         (\<lambda>accountDiff. Inr (Some (accountDiff\<lparr>BICChange := BICChange accountDiff - burn\<rparr>))))"

definition updateSlotDiffWithBurns ::
  "ledger_env \<Rightarrow> manager \<Rightarrow> slot_index \<Rightarrow> mana \<Rightarrow> (account_id \<rightharpoonup> account_diff)
     \<Rightarrow> ledger_error + (account_id \<rightharpoonup> account_diff)" where
  "updateSlotDiffWithBurns E m slot rmc accountDiffs =
     and_then (computeBlockBurnsForSlot E m slot rmc) (\<lambda>burns.
       range_loop
         (\<lambda>accountID diffs. map_sum id (\<lambda>d. diffs(accountID := d))
            (burnIntoDiff E m slot burns accountID (diffs accountID)))
         (iterAccounts E (dom burns)) accountDiffs)"

definition signalIntoDiff ::
  "manager \<Rightarrow> (account_id \<rightharpoonup> signaled_block) \<Rightarrow> account_id \<Rightarrow> account_diff option \<Rightarrow> account_diff option" where
  "signalIntoDiff m signals accountID current =
     (case signals accountID of
        None \<Rightarrow> current
      | Some signaledBlock \<Rightarrow>
          let accountData = (case accountsTree m accountID of
                               None \<Rightarrow> NewAccountData accountID | Some a \<Rightarrow> a);
              accountDiff = (case current of None \<Rightarrow> NewAccountDiff | Some d \<Rightarrow> d);
              newVersionAndHash = \<lparr>vh_Version = sb_HighestSupportedVersion signaledBlock,
                                   vh_Hash = sb_ProtocolParametersHash signaledBlock\<rparr>
          in if ad_latestSupported accountData \<noteq> newVersionAndHash
                \<and> vh_Version (ad_latestSupported accountData) < vh_Version newVersionAndHash
             then Some (accountDiff\<lparr>
                    NewLatestSupportedVersionAndHash := newVersionAndHash,
                    PrevLatestSupportedVersionAndHash := ad_latestSupported accountData\<rparr>)
             else current)"

definition updateSlotDiffWithVersionSignals ::
  "ledger_env \<Rightarrow> manager \<Rightarrow> slot_index \<Rightarrow> (account_id \<rightharpoonup> account_diff) \<Rightarrow> (account_id \<rightharpoonup> account_diff)" where
  "updateSlotDiffWithVersionSignals E m slot accountDiffs =
     (case latestSupportedVersionSignals m slot of
        None \<Rightarrow> accountDiffs
      | Some signals \<Rightarrow>
          fold (\<lambda>accountID diffs. diffs(accountID := signalIntoDiff m signals accountID (diffs accountID)))
            (iterAccounts E (dom signals)) accountDiffs)"

subsection \<open>Committing a slot\<close>

text \<open>The diff that recreates a destroyed account; the nil diff of the source is None.\<close>

definition preserveDestroyedAccountData :: "manager \<Rightarrow> account_id \<Rightarrow> account_diff option" where
  "preserveDestroyedAccountData m accountID =
     (case accountsTree m accountID of
        None \<Rightarrow> None
      | Some accountData \<Rightarrow> Some (NewAccountDiff\<lparr>
          BICChange := - cr_value (ad_credits accountData),
          PreviousUpdatedSlot := cr_updateSlot (ad_credits accountData),
          NewExpirySlot := 0,
          PreviousExpirySlot := ad_expirySlot accountData,
          NewOutputID := 0,
          PreviousOutputID := ad_outputID accountData,
          BlockIssuerKeysRemoved := ad_blockIssuerKeys accountData,
          ValidatorStakeChange := - ad_validatorStake accountData,
          DelegationStakeChange := - ad_delegationStake accountData,
          StakeEndEpochChange := - ucast (ad_stakeEndEpoch accountData),
          FixedCostChange := - ad_fixedCost accountData,
          NewLatestSupportedVersionAndHash := EmptyVersionAndHash,
          PrevLatestSupportedVersionAndHash := ad_latestSupported accountData\<rparr>))"

definition commitStakes ::
  "safemath \<Rightarrow> account_diff \<Rightarrow> account_data \<Rightarrow> ledger_error + account_data" where
  "commitStakes sm diffChange a =
     and_then (or_err (ValidatorStakeOverflow (ad_id a))
                 (add_i64 sm (ad_validatorStake a) (ValidatorStakeChange diffChange))) (\<lambda>validatorStake.
     let a = a\<lparr>ad_validatorStake := validatorStake\<rparr> in
     and_then (or_err (DelegationStakeOverflow (ad_id a))
                 (add_i64 sm (ad_delegationStake a) (DelegationStakeChange diffChange))) (\<lambda>delegationStake.
     let a = a\<lparr>ad_delegationStake := delegationStake\<rparr> in
     and_then (or_err (StakeEndEpochOverflow (ad_id a))
                 (add_i64 sm (ucast (ad_stakeEndEpoch a)) (StakeEndEpochChange diffChange))) (\<lambda>stakeEndEpoch.
     let a = a\<lparr>ad_stakeEndEpoch := ucast stakeEndEpoch\<rparr> in
     and_then (or_err (FixedCostOverflow (ad_id a))
                 (add_i64 sm (ad_fixedCost a) (FixedCostChange diffChange))) (\<lambda>fixedCost.
     Inr (a\<lparr>ad_fixedCost := fixedCost\<rparr>)))))"

text \<open>The credits part of the loop body: the account's credits are decayed into the diff.\<close>

definition commitCredits ::
  "ledger_env \<Rightarrow> slot_index \<Rightarrow> bool \<Rightarrow> account_diff \<Rightarrow> account_data \<Rightarrow> ledger_error + account_data \<times> account_diff" where
  "commitCredits E slot exists diffChange a =
     (if BICChange diffChange \<noteq> 0 \<or> \<not> exists then
        and_then
          (if exists \<and> 0 <s cr_value (ad_credits a) then
             and_then (or_err (DecayFailed (ad_id a))
                 (DecayManaBySlots (apiForSlot E slot) (cr_value (ad_credits a))
                    (cr_updateSlot (ad_credits a)) slot)) (\<lambda>decayed.
               Inr (diffChange\<lparr>BICChange := BICChange diffChange - (cr_value (ad_credits a) - decayed)\<rparr>))
           else Inr diffChange) (\<lambda>diffChange.
          Inr (if BICChange diffChange \<noteq> 0 \<or> \<not> exists
               then a\<lparr>ad_credits := Credits_Update (BICChange diffChange) (Some slot) (ad_credits a)\<rparr>
               else a, diffChange))
      else Inr (a, diffChange))"

definition commitFields :: "account_diff \<Rightarrow> account_data \<Rightarrow> account_data" where
  "commitFields diffChange a =
     (let a = (if PreviousExpirySlot diffChange \<noteq> NewExpirySlot diffChange
               then a\<lparr>ad_expirySlot := NewExpirySlot diffChange\<rparr> else a);
          a = (if NewOutputID diffChange \<noteq> 0 then a\<lparr>ad_outputID := NewOutputID diffChange\<rparr> else a);
          a = AddBlockIssuerKeys (BlockIssuerKeysAdded diffChange) a
      in RemoveBlockIssuerKeys (BlockIssuerKeysRemoved diffChange) a)"

definition commitVersion :: "account_diff \<Rightarrow> account_data \<Rightarrow> account_data" where
  "commitVersion diffChange a =
     (if PrevLatestSupportedVersionAndHash diffChange \<noteq> NewLatestSupportedVersionAndHash diffChange
         \<and> vh_Version (ad_latestSupported a) < vh_Version (NewLatestSupportedVersionAndHash diffChange)
      then a\<lparr>ad_latestSupported := NewLatestSupportedVersionAndHash diffChange\<rparr> else a)"

definition commitAccount ::
  "ledger_env \<Rightarrow> slot_index \<Rightarrow> account_id \<Rightarrow> account_data option \<Rightarrow> account_diff
     \<Rightarrow> ledger_error + account_data \<times> account_diff" where
  "commitAccount E slot accountID current diffChange =
     (let exists = (current \<noteq> None);
          a = (case current of None \<Rightarrow> NewAccountData accountID | Some a \<Rightarrow> a)
      in and_then (commitCredits E slot exists diffChange a) (\<lambda>(a, diffChange).
         and_then (commitStakes (math E) diffChange (commitFields diffChange a)) (\<lambda>a.
         Inr (commitVersion diffChange a, diffChange))))"

text \<open>
  The body of the loop of \<^verbatim>\<open>commitAccountTree\<close> at one account: the account in the tree and the diff
  in the map, which is a pointer (\<open>Some None\<close> is nil) that the body updates in place.
\<close>

definition commitTreeAccount ::
  "ledger_env \<Rightarrow> slot_index \<Rightarrow> account_id set \<Rightarrow> account_id
     \<Rightarrow> account_data option \<times> account_diff option option
     \<Rightarrow> ledger_error + account_data option \<times> account_diff option option" where
  "commitTreeAccount E slot destroyed accountID = (\<lambda>(current, diff).
     if accountID \<in> destroyed then Inr (None, diff)
     else case diff of
            Some (Some diffChange) \<Rightarrow>
              map_sum id (\<lambda>(a, diffChange). (Some a, Some (Some diffChange)))
                (commitAccount E slot accountID current diffChange)
          | _ \<Rightarrow> Inl (PanicNilDiff accountID))"

definition put_entry ::
  "'k \<Rightarrow> 'a \<times> 'b \<Rightarrow> ('k \<Rightarrow> 'a) \<times> ('k \<Rightarrow> 'b) \<Rightarrow> ('k \<Rightarrow> 'a) \<times> ('k \<Rightarrow> 'b)" where
  "put_entry k v s = ((fst s)(k := fst v), (snd s)(k := snd v))"

definition commitAccountTree ::
  "ledger_env \<Rightarrow> slot_index \<Rightarrow> account_id set
     \<Rightarrow> (account_id \<rightharpoonup> account_data) \<times> (account_id \<rightharpoonup> account_diff option)
     \<Rightarrow> ledger_error + (account_id \<rightharpoonup> account_data) \<times> (account_id \<rightharpoonup> account_diff option)" where
  "commitAccountTree E slot destroyed s =
     range_loop (\<lambda>accountID s. map_sum id (\<lambda>v. put_entry accountID v s)
         (commitTreeAccount E slot destroyed accountID (fst s accountID, snd s accountID)))
       (iterAccounts E (dom (snd s))) s"

definition storeSlotDiff ::
  "slot_index \<Rightarrow> account_id set \<Rightarrow> (account_id \<rightharpoonup> account_diff option) \<Rightarrow> account_id \<Rightarrow> manager
     \<Rightarrow> ledger_error + manager" where
  "storeSlotDiff slot destroyed accountDiffs accountID m =
     and_then (or_err (SlotPruned slot) (slotDiff m slot)) (\<lambda>s.
       case accountDiffs accountID of
         Some (Some accountDiff) \<Rightarrow>
           Inr (m\<lparr>slotDiff := (slotDiff m)
                  (slot \<mapsto> AccountDiffs_Store accountID accountDiff (accountID \<in> destroyed) s)\<rparr>)
       | _ \<Rightarrow> Inl (PanicNilDiff accountID))"

text \<open>The loop over the diffs that replaces those of destroyed accounts.\<close>

definition preservedDiffs ::
  "manager \<Rightarrow> account_id set \<Rightarrow> (account_id \<rightharpoonup> account_diff) \<Rightarrow> (account_id \<rightharpoonup> account_diff option)" where
  "preservedDiffs m destroyed accountDiffs = (\<lambda>accountID.
     case accountDiffs accountID of
       None \<Rightarrow> None
     | Some accountDiff \<Rightarrow>
         Some (if accountID \<in> destroyed then preserveDestroyedAccountData m accountID else Some accountDiff))"

definition ApplyDiff ::
  "ledger_env \<Rightarrow> slot_index \<Rightarrow> mana \<Rightarrow> (account_id \<rightharpoonup> account_diff) \<Rightarrow> account_id set \<Rightarrow> manager
     \<Rightarrow> ledger_error + manager" where
  "ApplyDiff E slot rmc accountDiffs destroyed m =
     (if slot \<noteq> latestCommittedSlot m + 1 then Inl (CommittedSlotGap (latestCommittedSlot m) slot)
      else
        and_then (updateSlotDiffWithBurns E m slot rmc accountDiffs) (\<lambda>accountDiffs.
        let accountDiffs = updateSlotDiffWithVersionSignals E m slot accountDiffs;
            preserved = preservedDiffs m destroyed accountDiffs
        in and_then (commitAccountTree E slot destroyed (accountsTree m, preserved)) (\<lambda>(tree, preserved).
           and_then (range_loop (storeSlotDiff slot destroyed preserved)
                       (iterAccounts E (dom preserved)) (m\<lparr>accountsTree := tree\<rparr>)) (\<lambda>m.
           let m = m\<lparr>latestCommittedSlot := slot\<rparr>
           in Inr (evict (slot - MaxCommittableAge (apiForSlot E slot) - 1) m)))))"

section \<open>Lemmas on one account\<close>

text \<open>
  \<open>epoch_fits\<close>: the new end epoch is an epoch (the source converts a sum of \<^verbatim>\<open>int64\<close> values back to
  the 32 bit type without a check).
\<close>

definition epoch_fits :: "account_diff \<Rightarrow> account_data \<Rightarrow> bool" where
  "epoch_fits d a \<longleftrightarrow>
     0 \<le> int (unat (ad_stakeEndEpoch a)) + sint (StakeEndEpochChange d) \<and>
     int (unat (ad_stakeEndEpoch a)) + sint (StakeEndEpochChange d) < 2 ^ 32"

text \<open>The four stake fields of an account.\<close>

definition set_stakes :: "account_data \<Rightarrow> account_data \<Rightarrow> account_data" where
  "set_stakes a b = b\<lparr>ad_validatorStake := ad_validatorStake a, ad_delegationStake := ad_delegationStake a,
     ad_stakeEndEpoch := ad_stakeEndEpoch a, ad_fixedCost := ad_fixedCost a\<rparr>"

lemma rollbackStakes_undo:
  assumes sm: "safemath_ok sm" and c: "commitStakes sm d a = Inr a'" and e: "epoch_fits d a"
  shows "rollbackStakes sm d (set_stakes a' b) = Inr (set_stakes a b)"
proof -
  from c obtain v dl ep fc where
    f: "add_i64 sm (ad_validatorStake a) (ValidatorStakeChange d) = Some v"
       "add_i64 sm (ad_delegationStake a) (DelegationStakeChange d) = Some dl"
       "add_i64 sm (ucast (ad_stakeEndEpoch a)) (StakeEndEpochChange d) = Some ep"
       "add_i64 sm (ad_fixedCost a) (FixedCostChange d) = Some fc"
    and a': "a' = a\<lparr>ad_validatorStake := v, ad_delegationStake := dl, ad_stakeEndEpoch := ucast ep,
       ad_fixedCost := fc\<rparr>"
    by (auto simp: commitStakes_def go_result Let_def)
  note undo = f(1,2,3,4) [THEN safe_sub_after_add [OF sm]]
  from f(3) sm have "in_i64 (int (unat (ad_stakeEndEpoch a)) + sint (StakeEndEpochChange d))"
    "ep = word_of_int (int (unat (ad_stakeEndEpoch a)) + sint (StakeEndEpochChange d))"
    by (simp_all only: safemath_laws fit_i64_Some_iff sint_ucast_u32)
  then have "sint ep = int (unat (ad_stakeEndEpoch a)) + sint (StakeEndEpochChange d)"
    by (simp only: sint_word_of_int_64)
  with e have "ucast (ucast ep :: 32 word) = ep"
    unfolding epoch_fits_def by (intro ucast_u32_of_small) simp_all
  then show ?thesis using undo
    by (simp add: rollbackStakes_def set_stakes_def a' Let_def)
qed

lemma commitCredits_existing:
  assumes "commitCredits E slot True d a = Inr (a', d')"
  shows "\<exists>c. d' = d\<lparr>BICChange := c\<rparr> \<and> (BICChange d = 0 \<longrightarrow> c = 0) \<and>
     a' = (if c = 0 then a else a\<lparr>ad_credits := Credits_Update c (Some slot) (ad_credits a)\<rparr>)"
proof (cases "BICChange d = 0")
  case True
  then show ?thesis using assms by (auto simp: commitCredits_def intro!: exI [of _ 0])
next
  case False
  show ?thesis
  proof (cases "0 <s cr_value (ad_credits a)")
    case True
    with False assms obtain decayed where
      "d' = d\<lparr>BICChange := BICChange d - (cr_value (ad_credits a) - decayed)\<rparr>"
      "a' = (if BICChange d' \<noteq> 0
             then a\<lparr>ad_credits := Credits_Update (BICChange d') (Some slot) (ad_credits a)\<rparr> else a)"
      unfolding commitCredits_def by (auto simp only: go_result simp_thms if_True prod.inject sum.inject)
    then show ?thesis using False by (intro exI [of _ "BICChange d'"]) simp
  next
    case False
    with \<open>BICChange d \<noteq> 0\<close> show ?thesis using assms
      by (intro exI [of _ "BICChange d"]) (auto simp: commitCredits_def)
  qed
qed

text \<open>
  \<open>diff_matches d a\<close>: the diff records the state of the account before the slot, as
  \<^verbatim>\<open>prepareAccountDiffs\<close>, \<^verbatim>\<open>processStateDiffTransactions\<close> and \<^verbatim>\<open>updateSlotDiffWithBurns\<close> are
  to fill it in for an account that exists.
\<close>

definition diff_matches :: "account_diff \<Rightarrow> account_data \<Rightarrow> bool" where
  "diff_matches d a \<longleftrightarrow>
     (BICChange d \<noteq> 0 \<longrightarrow> PreviousUpdatedSlot d = cr_updateSlot (ad_credits a)) \<and>
     (PreviousExpirySlot d \<noteq> NewExpirySlot d \<longrightarrow> PreviousExpirySlot d = ad_expirySlot a) \<and>
     (NewOutputID d \<noteq> 0 \<longrightarrow> PreviousOutputID d \<noteq> 0) \<and>
     (PreviousOutputID d \<noteq> 0 \<longrightarrow> PreviousOutputID d = ad_outputID a) \<and>
     BlockIssuerKeysAdded d \<inter> ad_blockIssuerKeys a = {} \<and>
     BlockIssuerKeysRemoved d \<subseteq> ad_blockIssuerKeys a \<and>
     epoch_fits d a \<and>
     (PrevLatestSupportedVersionAndHash d \<noteq> NewLatestSupportedVersionAndHash d \<longrightarrow>
        PrevLatestSupportedVersionAndHash d = ad_latestSupported a)"

lemma commitFields_simps [simp]:
  "ad_id (commitFields d a) = ad_id a"
  "ad_credits (commitFields d a) = ad_credits a"
  "ad_expirySlot (commitFields d a) = (if PreviousExpirySlot d \<noteq> NewExpirySlot d then NewExpirySlot d else ad_expirySlot a)"
  "ad_outputID (commitFields d a) = (if NewOutputID d \<noteq> 0 then NewOutputID d else ad_outputID a)"
  "ad_blockIssuerKeys (commitFields d a) = ad_blockIssuerKeys a \<union> BlockIssuerKeysAdded d - BlockIssuerKeysRemoved d"
  "ad_validatorStake (commitFields d a) = ad_validatorStake a"
  "ad_delegationStake (commitFields d a) = ad_delegationStake a"
  "ad_fixedCost (commitFields d a) = ad_fixedCost a"
  "ad_stakeEndEpoch (commitFields d a) = ad_stakeEndEpoch a"
  "ad_latestSupported (commitFields d a) = ad_latestSupported a"
  "account_data.more (commitFields d a) = account_data.more a"
  by (simp_all add: commitFields_def Let_def AddBlockIssuerKeys_def RemoveBlockIssuerKeys_def)

lemma rollbackFields_simps [simp]:
  "ad_id (rollbackFields d a) = ad_id a"
  "ad_credits (rollbackFields d a) = ad_credits a"
  "ad_expirySlot (rollbackFields d a) = ad_expirySlot a"
  "ad_outputID (rollbackFields d a) = (if PreviousOutputID d \<noteq> 0 then PreviousOutputID d else ad_outputID a)"
  "ad_blockIssuerKeys (rollbackFields d a) = ad_blockIssuerKeys a \<union> BlockIssuerKeysRemoved d - BlockIssuerKeysAdded d"
  "ad_validatorStake (rollbackFields d a) = ad_validatorStake a"
  "ad_delegationStake (rollbackFields d a) = ad_delegationStake a"
  "ad_fixedCost (rollbackFields d a) = ad_fixedCost a"
  "ad_stakeEndEpoch (rollbackFields d a) = ad_stakeEndEpoch a"
  "ad_latestSupported (rollbackFields d a) = ad_latestSupported a"
  "account_data.more (rollbackFields d a) = account_data.more a"
  by (simp_all add: rollbackFields_def Let_def AddBlockIssuerKeys_def RemoveBlockIssuerKeys_def)

lemma rollbackCredits_simps [simp]:
  "ad_id (rollbackCredits d destroyed a) = ad_id a"
  "ad_credits (rollbackCredits d destroyed a) = (if BICChange d \<noteq> 0 \<or> destroyed
     then Credits_Update (- BICChange d) (Some (PreviousUpdatedSlot d)) (ad_credits a) else ad_credits a)"
  "ad_expirySlot (rollbackCredits d destroyed a) = (if PreviousExpirySlot d \<noteq> NewExpirySlot d then PreviousExpirySlot d else ad_expirySlot a)"
  "ad_outputID (rollbackCredits d destroyed a) = ad_outputID a"
  "ad_blockIssuerKeys (rollbackCredits d destroyed a) = ad_blockIssuerKeys a"
  "ad_validatorStake (rollbackCredits d destroyed a) = ad_validatorStake a"
  "ad_delegationStake (rollbackCredits d destroyed a) = ad_delegationStake a"
  "ad_fixedCost (rollbackCredits d destroyed a) = ad_fixedCost a"
  "ad_stakeEndEpoch (rollbackCredits d destroyed a) = ad_stakeEndEpoch a"
  "ad_latestSupported (rollbackCredits d destroyed a) = ad_latestSupported a"
  "account_data.more (rollbackCredits d destroyed a) = account_data.more a"
  by (simp_all add: rollbackCredits_def Let_def AddBlockIssuerKeys_def RemoveBlockIssuerKeys_def)

lemma commitVersion_simps [simp]:
  "ad_id (commitVersion d a) = ad_id a"
  "ad_credits (commitVersion d a) = ad_credits a"
  "ad_expirySlot (commitVersion d a) = ad_expirySlot a"
  "ad_outputID (commitVersion d a) = ad_outputID a"
  "ad_blockIssuerKeys (commitVersion d a) = ad_blockIssuerKeys a"
  "ad_validatorStake (commitVersion d a) = ad_validatorStake a"
  "ad_delegationStake (commitVersion d a) = ad_delegationStake a"
  "ad_fixedCost (commitVersion d a) = ad_fixedCost a"
  "ad_stakeEndEpoch (commitVersion d a) = ad_stakeEndEpoch a"
  "ad_latestSupported (commitVersion d a) = (if PrevLatestSupportedVersionAndHash d \<noteq> NewLatestSupportedVersionAndHash d
     \<and> vh_Version (ad_latestSupported a) < vh_Version (NewLatestSupportedVersionAndHash d)
   then NewLatestSupportedVersionAndHash d else ad_latestSupported a)"
  "account_data.more (commitVersion d a) = account_data.more a"
  by (simp_all add: commitVersion_def Let_def AddBlockIssuerKeys_def RemoveBlockIssuerKeys_def)

lemma rollbackVersion_simps [simp]:
  "ad_id (rollbackVersion d a) = ad_id a"
  "ad_credits (rollbackVersion d a) = ad_credits a"
  "ad_expirySlot (rollbackVersion d a) = ad_expirySlot a"
  "ad_outputID (rollbackVersion d a) = ad_outputID a"
  "ad_blockIssuerKeys (rollbackVersion d a) = ad_blockIssuerKeys a"
  "ad_validatorStake (rollbackVersion d a) = ad_validatorStake a"
  "ad_delegationStake (rollbackVersion d a) = ad_delegationStake a"
  "ad_fixedCost (rollbackVersion d a) = ad_fixedCost a"
  "ad_stakeEndEpoch (rollbackVersion d a) = ad_stakeEndEpoch a"
  "ad_latestSupported (rollbackVersion d a) = (if PrevLatestSupportedVersionAndHash d \<noteq> NewLatestSupportedVersionAndHash d
   then PrevLatestSupportedVersionAndHash d else ad_latestSupported a)"
  "account_data.more (rollbackVersion d a) = account_data.more a"
  by (simp_all add: rollbackVersion_def Let_def AddBlockIssuerKeys_def RemoveBlockIssuerKeys_def)

lemma set_stakes_simps [simp]:
  "ad_id (set_stakes a b) = ad_id b" "ad_credits (set_stakes a b) = ad_credits b"
  "ad_expirySlot (set_stakes a b) = ad_expirySlot b" "ad_outputID (set_stakes a b) = ad_outputID b"
  "ad_blockIssuerKeys (set_stakes a b) = ad_blockIssuerKeys b"
  "ad_latestSupported (set_stakes a b) = ad_latestSupported b"
  "ad_validatorStake (set_stakes a b) = ad_validatorStake a"
  "ad_delegationStake (set_stakes a b) = ad_delegationStake a"
  "ad_stakeEndEpoch (set_stakes a b) = ad_stakeEndEpoch a" "ad_fixedCost (set_stakes a b) = ad_fixedCost a"
  by (simp_all add: set_stakes_def)

lemma commitStakes_frame:
  assumes "commitStakes sm d a = Inr a'"
  shows "ad_id a' = ad_id a" "ad_credits a' = ad_credits a" "ad_expirySlot a' = ad_expirySlot a"
    "ad_outputID a' = ad_outputID a" "ad_blockIssuerKeys a' = ad_blockIssuerKeys a"
    "ad_latestSupported a' = ad_latestSupported a"
  using assms by (auto simp: commitStakes_def go_result Let_def)

lemma rollback_of_commit:
  assumes E: "safemath_ok (math E)" and c: "commitAccount E slot accountID (Some a) d = Inr (a', d')"
    and d: "diff_matches d a" and s: "diffChangeStore s (ad_id a) = Some d'" "ad_id a \<notin> destroyedAccounts s"
  shows "rollbackSlotDiffOnAccount (math E) s a' = Inr (a, False, False)"
proof -
  from c obtain a1 a2 where a1: "commitCredits E slot True d a = Inr (a1, d')"
    and a2: "commitStakes (math E) d' (commitFields d' a1) = Inr a2" and a': "a' = commitVersion d' a2"
    by (auto simp: commitAccount_def go_result)
  from commitCredits_existing [OF a1] obtain cr where cr: "d' = d\<lparr>BICChange := cr\<rparr>" "BICChange d = 0 \<longrightarrow> cr = 0"
    "a1 = (if cr = 0 then a else a\<lparr>ad_credits := Credits_Update cr (Some slot) (ad_credits a)\<rparr>)"
    by blast
  note m = d [unfolded diff_matches_def]
  note a2' = commitStakes_frame [OF a2]
  define b where "b = rollbackFields d' (rollbackCredits d' False a')"
  have id: "ad_id a' = ad_id a" by (simp add: a' a2' cr(3))
  have b: "set_stakes a2 b = b" by (rule account_data.equality) (simp_all add: b_def a')
  have st: "rollbackStakes (math E) d' b = Inr (set_stakes (commitFields d' a1) b)"
    using rollbackStakes_undo [OF E a2, of b] b m by (simp add: epoch_fits_def cr)
  have "rollbackVersion d' (set_stakes (commitFields d' a1) b) = a"
    by (rule account_data.equality) (use m cr(2) in \<open>auto simp: b_def a' a2' cr(1,3)\<close>)
  moreover have "\<not> (PreviousOutputID d = 0 \<and> NewOutputID d \<noteq> 0)" using m by auto
  ultimately show ?thesis using st s id
    by (simp add: rollbackSlotDiffOnAccount_def AccountDiffs_Has_def AccountDiffs_Load_def b_def cr(1) Let_def)
qed

definition stakes_in_range :: "account_data \<Rightarrow> bool" where
  "stakes_in_range a \<longleftrightarrow> unat (ad_validatorStake a) < 2 ^ 63 \<and>
     unat (ad_delegationStake a) < 2 ^ 63 \<and> unat (ad_fixedCost a) < 2 ^ 63"

lemma rollback_of_destroyed:
  assumes sm: "safemath_ok sm" and a: "accountsTree m (ad_id a) = Some a" "stakes_in_range a"
    and d: "preserveDestroyedAccountData m (ad_id a) = Some d"
    and s: "diffChangeStore s (ad_id a) = Some d" "ad_id a \<in> destroyedAccounts s"
  shows "rollbackSlotDiffOnAccount sm s (NewAccountData (ad_id a)) = Inr (a, False, True)"
proof -
  define b where "b = rollbackFields d (rollbackCredits d True (NewAccountData (ad_id a)))"
  have e: "unat (ucast (ad_stakeEndEpoch a) :: 64 word) < 2 ^ 63"
    using unat_less_u32 [of "ad_stakeEndEpoch a"] by (simp only: unat_ucast_u32) simp
  have "rollbackStakes sm d b = Inr (set_stakes a b)"
    using d a(2) e by (auto simp: preserveDestroyedAccountData_def a(1) rollbackStakes_def b_def NewAccountData_def
       stakes_in_range_def safe_sub_uminus [OF sm] set_stakes_def Let_def)
  moreover have "rollbackVersion d (set_stakes a b) = a"
    by (rule account_data.equality)
      (use d in \<open>auto simp: preserveDestroyedAccountData_def a(1) b_def NewAccountData_def NewAccountDiff_def Credits_Update_def\<close>)
  ultimately show ?thesis using d s
    by (auto simp: rollbackSlotDiffOnAccount_def AccountDiffs_Has_def AccountDiffs_Load_def b_def Let_def
        preserveDestroyedAccountData_def a(1) NewAccountData_def)
qed

lemma rollback_of_created:
  assumes "PreviousOutputID d = 0" "NewOutputID d \<noteq> 0" "diffChangeStore s (ad_id a) = Some d"
  shows "\<exists>a'. rollbackSlotDiffOnAccount sm s a = Inr (a', True, False)"
  using assms by (simp add: rollbackSlotDiffOnAccount_def AccountDiffs_Has_def AccountDiffs_Load_def Let_def)

section \<open>Lemmas on the tree\<close>

definition entry_ok :: "account_id set \<Rightarrow> account_id \<Rightarrow> account_data option \<Rightarrow> account_diff \<Rightarrow> bool" where
  "entry_ok destroyed accountID current d =
     (case current of
        None \<Rightarrow> PreviousOutputID d = 0 \<and> NewOutputID d \<noteq> 0
      | Some a \<Rightarrow> ad_id a = accountID \<and>
          (if accountID \<in> destroyed then stakes_in_range a else diff_matches d a))"

lemma commitCredits_new:
  "commitCredits E slot False d a =
     Inr (a\<lparr>ad_credits := Credits_Update (BICChange d) (Some slot) (ad_credits a)\<rparr>, d)"
  by (simp add: commitCredits_def)

lemma commitAccount_created:
  assumes "commitAccount E slot accountID None d = Inr (a', d')"
  shows "ad_id a' = accountID \<and> PreviousOutputID d' = PreviousOutputID d \<and> NewOutputID d' = NewOutputID d"
proof -
  from assms obtain a2 where c: "commitStakes (math E) d (commitFields d
      ((NewAccountData accountID)\<lparr>ad_credits := Credits_Update (BICChange d) (Some slot)
         (ad_credits (NewAccountData accountID))\<rparr>)) = Inr a2" "a' = commitVersion d a2" "d' = d"
    by (auto simp: commitAccount_def commitCredits_new go_result)
  show ?thesis using commitStakes_frame(1) [OF c(1)] c(2,3) by (simp add: NewAccountData_def)
qed

lemma rollbackTreeAccount_undo:
  assumes E: "safemath_ok (math E)" and e: "entry_ok destroyed i (accountsTree m i) d"
    and c: "commitTreeAccount E slot destroyed i
       (accountsTree m i, Some (if i \<in> destroyed then preserveDestroyedAccountData m i else Some d))
       = Inr (cur', Some (Some d'))"
    and s: "diffChangeStore s i = Some d'" "i \<in> destroyedAccounts s \<longleftrightarrow> i \<in> destroyed"
  shows "rollbackTreeAccount (math E) s i cur' = Inr (accountsTree m i)"
proof (cases "accountsTree m i")
  case None
  then have nd: "i \<notin> destroyed" using c
    by (auto simp: commitTreeAccount_def preserveDestroyedAccountData_def)
  from c nd None obtain a' where a': "commitAccount E slot i None d = Inr (a', d')" "cur' = Some a'"
    by (auto simp: commitTreeAccount_def map_sum_def split: sum.splits)
  from commitAccount_created [OF a'(1)] e None
  have "PreviousOutputID d' = 0" "NewOutputID d' \<noteq> 0" "ad_id a' = i" by (auto simp: entry_ok_def)
  with rollback_of_created [of d' s a' "math E"] s(1)
  show ?thesis by (auto simp: rollbackTreeAccount_def a' None)
next
  case (Some a)
  then have id: "ad_id a = i" using e by (simp add: entry_ok_def)
  show ?thesis
  proof (cases "i \<in> destroyed")
    case True
    with c have "preserveDestroyedAccountData m (ad_id a) = Some d'" "cur' = None"
      by (auto simp: commitTreeAccount_def id)
    moreover have "stakes_in_range a" using e True Some by (simp add: entry_ok_def)
    ultimately show ?thesis
      using rollback_of_destroyed [OF E, of m a d' s] Some True s
      by (simp add: id rollbackTreeAccount_def)
  next
    case False
    with c Some obtain a' where a': "commitAccount E slot i (Some a) d = Inr (a', d')" "cur' = Some a'"
      by (auto simp: commitTreeAccount_def map_sum_def split: sum.splits)
    moreover have "diff_matches d a" using e False Some by (simp add: entry_ok_def)
    ultimately show ?thesis
      using rollback_of_commit [OF E a'(1), of s] Some False s id
      by (simp add: rollbackTreeAccount_def)
  qed
qed

text \<open>The pair of tree and diffs is keyed by account.\<close>

interpretation entries: keyed_state "\<lambda>s k. (fst s k, snd s k)" put_entry
  by unfold_locales (simp add: put_entry_def)

lemma commitAccountTree_pointwise:
  assumes "commitAccountTree E slot destroyed (t, P) = Inr (t', P')" "env_ok E" "finite (dom P)"
  shows "\<And>i. i \<in> dom P \<Longrightarrow> commitTreeAccount E slot destroyed i (t i, P i) = Inr (t' i, P' i)"
    "\<And>i. i \<notin> dom P \<Longrightarrow> t' i = t i \<and> P' i = P i"
proof -
  have it: "set (iterAccounts E (dom P)) = dom P" "distinct (iterAccounts E (dom P))"
    using assms(2,3) by (simp_all add: env_ok_def)
  have "(\<forall>k\<in>dom P. commitTreeAccount E slot destroyed k (t k, P k) = Inr (t' k, P' k)) \<and>
     (\<forall>k. k \<notin> dom P \<longrightarrow> (t' k, P' k) = (t k, P k))"
    using entries.loop_pointwise [OF assms(1) [unfolded commitAccountTree_def], of "commitTreeAccount E slot destroyed"] it
    by simp
  then show "\<And>i. i \<in> dom P \<Longrightarrow> commitTreeAccount E slot destroyed i (t i, P i) = Inr (t' i, P' i)"
    "\<And>i. i \<notin> dom P \<Longrightarrow> t' i = t i \<and> P' i = P i" by blast+
qed

lemma commitTreeAccount_diff:
  assumes "commitTreeAccount E slot destroyed i (cur, dif) = Inr (cur', dif')"
  shows "dif' = None \<longleftrightarrow> dif = None"
  using assms by (auto simp: commitTreeAccount_def map_sum_def split: if_splits option.splits sum.splits)

lemma storeSlotDiff_loop:
  assumes "range_loop (storeSlotDiff slot destroyed P) ids m = Inr m'" "slotDiff m slot = Some s"
  shows "\<forall>i\<in>set ids. \<exists>d. P i = Some (Some d)"
    "slotDiff m' = (slotDiff m)(slot \<mapsto>
      \<lparr>diffChangeStore = (\<lambda>i. if i \<in> set ids then Option.bind (P i) id else diffChangeStore s i),
       destroyedAccounts = destroyedAccounts s \<union> (set ids \<inter> destroyed)\<rparr>)"
    "accountsTree m' = accountsTree m \<and> blockBurns m' = blockBurns m \<and>
     latestSupportedVersionSignals m' = latestSupportedVersionSignals m"
proof -
  let ?x = "\<lambda>ids s. \<lparr>diffChangeStore = (\<lambda>j. if j \<in> set ids then Option.bind (P j) id else diffChangeStore s j),
       destroyedAccounts = destroyedAccounts s \<union> (set ids \<inter> destroyed)\<rparr>"
  have "(\<forall>i\<in>set ids. \<exists>d. P i = Some (Some d)) \<and> slotDiff m' = (slotDiff m)(slot \<mapsto> ?x ids s) \<and>
    accountsTree m' = accountsTree m \<and> blockBurns m' = blockBurns m \<and>
    latestSupportedVersionSignals m' = latestSupportedVersionSignals m"
    using assms
  proof (induction ids arbitrary: m s)
    case Nil
    then show ?case by (simp add: fun_upd_idem)
  next
    case (Cons i ids)
    from Cons.prems(1) obtain m1 where m1: "storeSlotDiff slot destroyed P i m = Inr m1"
      and r: "range_loop (storeSlotDiff slot destroyed P) ids m1 = Inr m'"
      by (auto simp: go_result)
    let ?s = "\<lambda>d. AccountDiffs_Store i d (i \<in> destroyed) s"
    from m1 Cons.prems(2) obtain d where d: "P i = Some (Some d)"
      "slotDiff m1 = (slotDiff m)(slot \<mapsto> ?s d)" "accountsTree m1 = accountsTree m"
      "blockBurns m1 = blockBurns m" "latestSupportedVersionSignals m1 = latestSupportedVersionSignals m"
      by (auto simp: storeSlotDiff_def split: option.splits)
    have eq: "?x ids (?s d) = ?x (i # ids) s"
      by (rule account_diffs.equality) (auto simp: AccountDiffs_Store_def Let_def d(1) fun_eq_iff)
    have s1: "slotDiff m1 slot = Some (?s d)" by (simp add: d(2))
    from Cons.IH [OF r s1] show ?case
      unfolding eq d(2) by (simp only: d fun_upd_upd) (simp add: d(1))
  qed
  then show "\<forall>i\<in>set ids. \<exists>d. P i = Some (Some d)" "slotDiff m' = (slotDiff m)(slot \<mapsto> ?x ids s)"
    "accountsTree m' = accountsTree m \<and> blockBurns m' = blockBurns m \<and>
     latestSupportedVersionSignals m' = latestSupportedVersionSignals m" by blast+
qed

lemma rollbackSlot_restores:
  assumes E: "env_ok E" and s: "slotDiff m' slot = Some s" "finite (dom (diffChangeStore s))"
    and r: "\<And>i. i \<in> dom (diffChangeStore s) \<Longrightarrow> rollbackTreeAccount (math E) s i (accountsTree m' i) = Inr (t i)"
    and o: "\<And>i. i \<notin> dom (diffChangeStore s) \<Longrightarrow> accountsTree m' i = t i"
  shows "\<exists>m''. rollbackSlot E slot del m' = Inr m'' \<and> accountsTree m'' = t \<and>
     (\<forall>u. u \<noteq> slot \<or> \<not> del \<longrightarrow> slotDiff m'' u = slotDiff m' u) \<and> latestCommittedSlot m'' = latestCommittedSlot m'"
proof -
  let ?f = "\<lambda>i tree. map_sum id (\<lambda>a. tree(i := a)) (rollbackTreeAccount (math E) s i (tree i))"
  let ?ids = "iterAccounts E (dom (diffChangeStore s))"
  have it: "set ?ids = dom (diffChangeStore s)" "distinct ?ids"
    using E s(2) by (simp_all add: env_ok_def)
  obtain tree where tree: "range_loop ?f ?ids (accountsTree m') = Inr tree"
    using map_keyed.loop_succeeds [of ?ids "rollbackTreeAccount (math E) s" "accountsTree m'" ?f] it r by auto
  note p = map_keyed.loop_pointwise [OF tree it(2), of "rollbackTreeAccount (math E) s", OF refl, unfolded it(1)]
  have "tree i = t i" for i
  proof (cases "i \<in> dom (diffChangeStore s)")
    case True
    then have "rollbackTreeAccount (math E) s i (accountsTree m' i) = Inr (tree i)" using p by blast
    then show ?thesis using r [OF True] by simp
  next
    case False
    then show ?thesis using p o [OF False] by simp
  qed
  then have "tree = t" by blast
  then show ?thesis using tree s(1) by (auto simp: rollbackSlot_def)
qed

section \<open>Committing a slot\<close>

text \<open>The invariant of the manager: the tree is keyed by account identifier, signals are finite.\<close>

definition manager_ok :: "manager \<Rightarrow> bool" where
  "manager_ok m \<longleftrightarrow>
     (\<forall>i a. accountsTree m i = Some a \<longrightarrow> ad_id a = i) \<and>
     (\<forall>slot signals. latestSupportedVersionSignals m slot = Some signals \<longrightarrow> finite (dom signals))"

text \<open>The diffs of a slot after the burns and the version signals have been entered.\<close>

definition slotDiffs ::
  "ledger_env \<Rightarrow> manager \<Rightarrow> slot_index \<Rightarrow> mana \<Rightarrow> (account_id \<rightharpoonup> account_diff)
     \<Rightarrow> ledger_error + (account_id \<rightharpoonup> account_diff)" where
  "slotDiffs E m slot rmc accountDiffs =
     map_sum id (updateSlotDiffWithVersionSignals E m slot) (updateSlotDiffWithBurns E m slot rmc accountDiffs)"

lemma finite_dom_upd [simp]: "finite (dom (m(k := v))) \<longleftrightarrow> finite (dom m)"
  by (cases v) simp_all

lemma finite_dom_burns:
  assumes "updateSlotDiffWithBurns E m slot rmc D = Inr D'" "finite (dom D)"
  shows "finite (dom D')"
proof -
  from assms(1) obtain burns where b: "range_loop
         (\<lambda>accountID diffs. map_sum id (\<lambda>d. diffs(accountID := d))
            (burnIntoDiff E m slot burns accountID (diffs accountID)))
         (iterAccounts E (dom burns)) D = Inr D'"
    by (auto simp: updateSlotDiffWithBurns_def go_result)
  then show ?thesis using assms(2)
    by (rule range_loop_invariant [where P = "\<lambda>D. finite (dom D)"]) (auto simp: map_sum_def split: sum.splits)
qed

lemma fold_upd_pointwise:
  assumes "distinct ks"
  shows "fold (\<lambda>k f. f(k := g k (f k))) ks f k = (if k \<in> set ks then g k (f k) else f k)"
  using assms
proof (induction ks arbitrary: f)
  case Nil
  then show ?case by simp
next
  case (Cons j ks)
  then show ?case by auto
qed

lemma versionSignals_pointwise:
  assumes "env_ok E" "manager_ok m"
  shows "updateSlotDiffWithVersionSignals E m slot D i =
    (case latestSupportedVersionSignals m slot of None \<Rightarrow> D i | Some signals \<Rightarrow> signalIntoDiff m signals i (D i))"
proof (cases "latestSupportedVersionSignals m slot")
  case None
  then show ?thesis by (simp add: updateSlotDiffWithVersionSignals_def)
next
  case (Some signals)
  then have "finite (dom signals)" using assms(2) by (auto simp: manager_ok_def)
  then have it: "set (iterAccounts E (dom signals)) = dom signals" "distinct (iterAccounts E (dom signals))"
    using assms(1) by (simp_all add: env_ok_def)
  show ?thesis
    using fold_upd_pointwise [OF it(2), of "signalIntoDiff m signals" D i] it(1)
    by (auto simp: updateSlotDiffWithVersionSignals_def Some signalIntoDiff_def split: option.splits)
qed

lemma finite_dom_slotDiffs:
  assumes "slotDiffs E m slot rmc diffs = Inr D" "finite (dom diffs)" "env_ok E" "manager_ok m"
  shows "finite (dom D)"
proof -
  from assms(1) obtain D1 where D1: "updateSlotDiffWithBurns E m slot rmc diffs = Inr D1"
    "D = updateSlotDiffWithVersionSignals E m slot D1"
    by (auto simp: slotDiffs_def map_sum_def split: sum.splits)
  have fin: "finite (dom D1)" using finite_dom_burns [OF D1(1) assms(2)] .
  show ?thesis
  proof (cases "latestSupportedVersionSignals m slot")
    case None
    then show ?thesis using fin D1(2) by (simp add: updateSlotDiffWithVersionSignals_def)
  next
    case (Some signals)
    then have "dom D \<subseteq> dom D1 \<union> dom signals"
      using versionSignals_pointwise [OF assms(3,4), of slot D1] unfolding D1(2)
      by (auto simp: signalIntoDiff_def split: option.splits)
    moreover have "finite (dom signals)" using assms(4) Some by (auto simp: manager_ok_def)
    ultimately show ?thesis using fin by (meson finite_UnI finite_subset)
  qed
qed


lemma ApplyDiff_unfold:
  assumes "slot = latestCommittedSlot m + 1" "slotDiffs E m slot rmc diffs = Inr D"
  shows "ApplyDiff E slot rmc diffs destroyed m =
     and_then (commitAccountTree E slot destroyed (accountsTree m, preservedDiffs m destroyed D))
       (\<lambda>(tree, preserved).
         and_then (range_loop (storeSlotDiff slot destroyed preserved)
                     (iterAccounts E (dom preserved)) (m\<lparr>accountsTree := tree\<rparr>)) (\<lambda>m.
         Inr (evict (slot - MaxCommittableAge (apiForSlot E slot) - 1) (m\<lparr>latestCommittedSlot := slot\<rparr>))))"
proof -
  from assms(2) obtain D1 where "updateSlotDiffWithBurns E m slot rmc diffs = Inr D1"
    "D = updateSlotDiffWithVersionSignals E m slot D1"
    by (auto simp: slotDiffs_def map_sum_def split: sum.splits)
  then show ?thesis using assms(1) unfolding ApplyDiff_def by (simp only: and_then_simps Let_def if_False simp_thms)
qed

lemma dom_preservedDiffs [simp]: "dom (preservedDiffs m destroyed D) = dom D"
  by (auto simp: preservedDiffs_def split: option.splits)

lemma preservedDiffs_Some [simp]:
  "D i = Some d \<Longrightarrow> preservedDiffs m destroyed D i =
     Some (if i \<in> destroyed then preserveDestroyedAccountData m i else Some d)"
  by (simp add: preservedDiffs_def)

text \<open>\<open>diffs_ok\<close>: every diff the slot commits records the state of its account.\<close>

definition diffs_ok ::
  "ledger_env \<Rightarrow> slot_index \<Rightarrow> mana \<Rightarrow> (account_id \<rightharpoonup> account_diff) \<Rightarrow> account_id set \<Rightarrow> manager \<Rightarrow> bool" where
  "diffs_ok E slot rmc diffs destroyed m \<longleftrightarrow>
     manager_ok m \<and> finite (dom diffs) \<and> slotDiff m slot = Some NewAccountDiffs \<and>
     (\<forall>D. slotDiffs E m slot rmc diffs = Inr D \<longrightarrow>
        (\<forall>i d. D i = Some d \<longrightarrow> entry_ok destroyed i (accountsTree m i) d))"

lemma ApplyDiff_slotDiffs:
  assumes "ApplyDiff E slot rmc diffs destroyed m = Inr m'"
  obtains D where "slotDiffs E m slot rmc diffs = Inr D"
  using assms by (auto simp: ApplyDiff_def slotDiffs_def go_result split: if_splits)

text \<open>The effect of a successful commit: \<open>D\<close> are the diffs of the slot, \<open>s\<close> the store it writes.\<close>

definition slot_effect ::
  "ledger_env \<Rightarrow> slot_index \<Rightarrow> account_id set \<Rightarrow> manager \<Rightarrow> manager \<Rightarrow> (account_id \<rightharpoonup> account_diff)
     \<Rightarrow> account_diffs \<Rightarrow> bool" where
  "slot_effect E slot destroyed m m' D s \<longleftrightarrow>
     slot = latestCommittedSlot m + 1 \<and> latestCommittedSlot m' = slot \<and>
     slotDiff m' = (slotDiff m)(slot \<mapsto> s) \<and>
     finite (dom D) \<and> dom (diffChangeStore s) = dom D \<and> destroyedAccounts s = dom D \<inter> destroyed \<and>
     (\<forall>i. D i = None \<longrightarrow> accountsTree m' i = accountsTree m i) \<and>
     (\<forall>i d. D i = Some d \<longrightarrow> (\<exists>d'. diffChangeStore s i = Some d' \<and>
        commitTreeAccount E slot destroyed i (accountsTree m i,
          Some (if i \<in> destroyed then preserveDestroyedAccountData m i else Some d))
        = Inr (accountsTree m' i, Some (Some d'))))"

lemma slot_effectD:
  assumes "slot_effect E slot destroyed m m' D s"
  shows "slot = latestCommittedSlot m + 1" "latestCommittedSlot m' = slot"
    "slotDiff m' = (slotDiff m)(slot \<mapsto> s)" "finite (dom D)" "dom (diffChangeStore s) = dom D"
    "destroyedAccounts s = dom D \<inter> destroyed" "\<And>i. D i = None \<Longrightarrow> accountsTree m' i = accountsTree m i"
    "\<And>i d. D i = Some d \<Longrightarrow> \<exists>d'. diffChangeStore s i = Some d' \<and>
        commitTreeAccount E slot destroyed i (accountsTree m i,
          Some (if i \<in> destroyed then preserveDestroyedAccountData m i else Some d))
        = Inr (accountsTree m' i, Some (Some d'))"
  using assms unfolding slot_effect_def by blast+

lemma ApplyDiff_effect:
  assumes A: "ApplyDiff E slot rmc diffs destroyed m = Inr m'" and E: "env_ok E"
    and ok: "diffs_ok E slot rmc diffs destroyed m" and D: "slotDiffs E m slot rmc diffs = Inr D"
  shows "\<exists>s. slot_effect E slot destroyed m m' D s"
proof -
  have m: "manager_ok m" and f: "finite (dom diffs)" and s: "slotDiff m slot = Some NewAccountDiffs"
    using ok by (simp_all add: diffs_ok_def)
  define P where "P = preservedDiffs m destroyed D"
  have slot: "slot = latestCommittedSlot m + 1"
    using A by (simp add: ApplyDiff_def split: if_splits)
  obtain t P' m1 where c: "commitAccountTree E slot destroyed (accountsTree m, P) = Inr (t, P')"
    and st: "range_loop (storeSlotDiff slot destroyed P') (iterAccounts E (dom P')) (m\<lparr>accountsTree := t\<rparr>) = Inr m1"
    and m': "m' = evict (slot - MaxCommittableAge (apiForSlot E slot) - 1) (m1\<lparr>latestCommittedSlot := slot\<rparr>)"
    using A unfolding ApplyDiff_unfold [OF slot D] P_def by (auto simp: go_result)
  have domP: "dom P = dom D" by (simp add: P_def)
  have fin: "finite (dom D)" using finite_dom_slotDiffs [OF D f E m] .
  note pw = commitAccountTree_pointwise [OF c E, unfolded domP, OF fin]
  have domP': "dom P' = dom D"
  proof (intro set_eqI)
    fix i
    show "i \<in> dom P' \<longleftrightarrow> i \<in> dom D"
    proof (cases "i \<in> dom D")
      case True
      then show ?thesis using commitTreeAccount_diff [OF pw(1) [OF True]] domP by auto
    next
      case False
      then show ?thesis using pw(2) [OF False] domP by auto
    qed
  qed
  have it: "set (iterAccounts E (dom P')) = dom D" using E fin by (simp add: env_ok_def domP')
  let ?s = "\<lparr>diffChangeStore = (\<lambda>i. if i \<in> dom D then Option.bind (P' i) id else None),
       destroyedAccounts = dom D \<inter> destroyed\<rparr>"
  note L = storeSlotDiff_loop [OF st, of NewAccountDiffs, unfolded it]
  have m't: "accountsTree m' i = t i" for i using L(3) s by (simp add: m' evict_def)
  have "\<exists>d'. diffChangeStore ?s i = Some d' \<and>
     commitTreeAccount E slot destroyed i (accountsTree m i,
       Some (if i \<in> destroyed then preserveDestroyedAccountData m i else Some d))
     = Inr (accountsTree m' i, Some (Some d'))" if d: "D i = Some d" for i d
  proof -
    have i: "i \<in> dom D" using d by blast
    obtain d' where d': "P' i = Some (Some d')" using L(1) s i by auto
    then show ?thesis using pw(1) [OF i] i d m't by (simp add: P_def)
  qed
  moreover have "accountsTree m' i = accountsTree m i" if "D i = None" for i
    using pw(2) [of i] m't that by auto
  moreover have "dom (diffChangeStore ?s) = dom D" using L(1) s by (force simp: dom_def)
  moreover have "slotDiff m' = (slotDiff m)(slot \<mapsto> ?s)" "latestCommittedSlot m' = slot"
    using L(2) s by (simp_all add: m' evict_def NewAccountDiffs_def cong: if_cong)
  ultimately have "slot_effect E slot destroyed m m' D ?s"
    using slot fin unfolding slot_effect_def by (intro conjI allI impI) simp_all
  then show ?thesis ..
qed

lemma slot_effect_undo:
  assumes s: "slot_effect E slot destroyed m m' D s" and E: "env_ok E"
    and ok: "diffs_ok E slot rmc diffs destroyed m" and D: "slotDiffs E m slot rmc diffs = Inr D" "D i = Some d"
  shows "rollbackTreeAccount (math E) s i (accountsTree m' i) = Inr (accountsTree m i)"
proof -
  have sm: "safemath_ok (math E)" using E by (simp add: env_ok_def)
  obtain d' where d': "diffChangeStore s i = Some d'" "commitTreeAccount E slot destroyed i (accountsTree m i,
       Some (if i \<in> destroyed then preserveDestroyedAccountData m i else Some d))
     = Inr (accountsTree m' i, Some (Some d'))" using slot_effectD(8) [OF s D(2)] by blast
  have "entry_ok destroyed i (accountsTree m i) d" using ok D by (auto simp: diffs_ok_def)
  moreover have "i \<in> destroyedAccounts s \<longleftrightarrow> i \<in> destroyed" using slot_effectD(6) [OF s] D(2) by auto
  ultimately show ?thesis by (intro rollbackTreeAccount_undo [OF sm _ d'(2,1)])
qed

lemma rollbackSlot_undoes_ApplyDiff:
  assumes A: "ApplyDiff E slot rmc diffs destroyed m = Inr m'" and E: "env_ok E"
    and ok: "diffs_ok E slot rmc diffs destroyed m"
    and u: "accountsTree u = accountsTree m'" "slotDiff u slot = slotDiff m' slot"
  shows "\<exists>v. rollbackSlot E slot del u = Inr v \<and> accountsTree v = accountsTree m \<and>
     (\<forall>s. s \<noteq> slot \<or> \<not> del \<longrightarrow> slotDiff v s = slotDiff u s) \<and> latestCommittedSlot v = latestCommittedSlot u"
proof -
  obtain D where D: "slotDiffs E m slot rmc diffs = Inr D" using A by (rule ApplyDiff_slotDiffs)
  obtain s where s: "slot_effect E slot destroyed m m' D s" using ApplyDiff_effect [OF A E ok D] by blast
  note e = slot_effectD [OF s]
  show ?thesis
  proof (rule rollbackSlot_restores [OF E])
    show "slotDiff u slot = Some s" by (simp add: u e(3))
    show "finite (dom (diffChangeStore s))" by (simp add: e(4,5))
    show "accountsTree u i = accountsTree m i" if "i \<notin> dom (diffChangeStore s)" for i
      using that e(5,7) u(1) by (auto simp: domIff)
    show "rollbackTreeAccount (math E) s i (accountsTree u i) = Inr (accountsTree m i)"
      if i: "i \<in> dom (diffChangeStore s)" for i
    proof -
      from i e(5) obtain d where d: "D i = Some d" by blast
      then show ?thesis using slot_effect_undo [OF s E ok D d] u(1) by simp
    qed
  qed
qed

section \<open>Sequences of slots\<close>

record slot_commit =
  sc_slot :: slot_index
  sc_rmc :: mana
  sc_diffs :: "account_id \<rightharpoonup> account_diff"
  sc_destroyed :: "account_id set"

definition commitSlotDiff :: "ledger_env \<Rightarrow> slot_commit \<Rightarrow> manager \<Rightarrow> ledger_error + manager" where
  "commitSlotDiff E c m = ApplyDiff E (sc_slot c) (sc_rmc c) (sc_diffs c) (sc_destroyed c) m"

definition commit_ok :: "ledger_env \<Rightarrow> slot_commit \<Rightarrow> manager \<Rightarrow> bool" where
  "commit_ok E c m \<longleftrightarrow> env_ok E \<and> sc_slot c \<noteq> 0 \<and>
     diffs_ok E (sc_slot c) (sc_rmc c) (sc_diffs c) (sc_destroyed c) m"

definition restores_ledger :: "manager \<Rightarrow> manager \<Rightarrow> bool" where
  "restores_ledger m v \<longleftrightarrow> accountsTree v = accountsTree m \<and>
     (\<forall>s \<le> latestCommittedSlot m. slotDiff v s = slotDiff m s)"

lemma ApplyDiff_slots:
  assumes "ApplyDiff E slot rmc diffs destroyed m = Inr m'"
    and "env_ok E" "diffs_ok E slot rmc diffs destroyed m"
  shows "slot = latestCommittedSlot m + 1" "latestCommittedSlot m' = slot"
    "\<And>s. s \<noteq> slot \<Longrightarrow> slotDiff m' s = slotDiff m s"
proof -
  obtain D where "slotDiffs E m slot rmc diffs = Inr D" using assms(1) by (rule ApplyDiff_slotDiffs)
  then obtain s where "slot_effect E slot destroyed m m' D s" using ApplyDiff_effect [OF assms] by blast
  note e = slot_effectD(1-3) [OF this]
  show "slot = latestCommittedSlot m + 1" "latestCommittedSlot m' = slot" by (fact e)+
  show "\<And>s. s \<noteq> slot \<Longrightarrow> slotDiff m' s = slotDiff m s" by (simp add: e(3))
qed

interpretation accounts: reversible_slots "commitSlotDiff E" "\<lambda>slot. rollbackSlot E slot False" sc_slot
  "commit_ok E" restores_ledger latestCommittedSlot for E
proof unfold_locales
  show "restores_ledger s s" for s by (simp add: restores_ledger_def)
next
  fix c s t u
  assume ok: "commit_ok E c s" and st: "commitSlotDiff E c s = Inr t" and r: "restores_ledger t u"
  note A = st [unfolded commitSlotDiff_def]
  have E: "env_ok E" "diffs_ok E (sc_slot c) (sc_rmc c) (sc_diffs c) (sc_destroyed c) s" "sc_slot c \<noteq> 0"
    using ok by (simp_all add: commit_ok_def)
  note sl = ApplyDiff_slots [OF A E(1,2)]
  have lt: "latestCommittedSlot s < sc_slot c" using sl(1) E(3) less_next_slot by metis
  have u: "accountsTree u = accountsTree t" "slotDiff u (sc_slot c) = slotDiff t (sc_slot c)"
    using r sl(2) by (simp_all add: restores_ledger_def)
  obtain v where v: "rollbackSlot E (sc_slot c) False u = Inr v" "accountsTree v = accountsTree s"
    "\<forall>w. slotDiff v w = slotDiff u w"
    using rollbackSlot_undoes_ApplyDiff [OF A E(1,2) u, of False] by auto
  have "slotDiff v w = slotDiff s w" if "w \<le> latestCommittedSlot s" for w
  proof -
    have "w \<noteq> sc_slot c" "w \<le> latestCommittedSlot t" using that lt sl(2) by auto
    then show ?thesis using v(3) r sl(3) by (simp add: restores_ledger_def)
  qed
  then show "\<exists>v. rollbackSlot E (sc_slot c) False u = Inr v \<and> restores_ledger s v"
    using v(1,2) by (auto simp: restores_ledger_def)
next
  fix c s t
  assume ok: "commit_ok E c s" and st: "commitSlotDiff E c s = Inr t"
  then show "sc_slot c = latestCommittedSlot s + 1 \<and> sc_slot c \<noteq> 0 \<and> latestCommittedSlot t = sc_slot c"
    using ApplyDiff_slots(1,2) [OF st [unfolded commitSlotDiff_def]] by (auto simp: commit_ok_def)
qed

lemma storeSlotDiff_succeeds:
  assumes "\<forall>i\<in>set ids. \<exists>d. P i = Some (Some d)" "slotDiff m slot \<noteq> None"
  shows "\<exists>m'. range_loop (storeSlotDiff slot destroyed P) ids m = Inr m'"
  using assms
proof (induction ids arbitrary: m)
  case Nil
  then show ?case by simp
next
  case (Cons i ids)
  then obtain d s where ds: "P i = Some (Some d)" "slotDiff m slot = Some s" by auto
  let ?m = "m\<lparr>slotDiff := (slotDiff m)(slot \<mapsto> AccountDiffs_Store i d (i \<in> destroyed) s)\<rparr>"
  have "\<exists>m'. range_loop (storeSlotDiff slot destroyed P) ids ?m = Inr m'"
    using Cons.prems by (intro Cons.IH) auto
  moreover have "storeSlotDiff slot destroyed P i m = Inr ?m" by (simp add: storeSlotDiff_def ds)
  ultimately show ?case by simp
qed

lemma commitTreeAccount_stored:
  assumes "commitTreeAccount E slot destroyed i (cur, Some (if i \<in> destroyed then p else Some d)) = Inr (cur', dif')"
    "i \<in> destroyed \<Longrightarrow> p \<noteq> None"
  shows "\<exists>d'. dif' = Some (Some d')"
  using assms by (auto simp: commitTreeAccount_def map_sum_def split: if_splits sum.splits)

text \<open>What a commit needs to succeed, account by account.\<close>

lemma ApplyDiff_succeeds:
  assumes E: "env_ok E" and m: "manager_ok m" and slot: "slot = latestCommittedSlot m + 1"
    and D: "slotDiffs E m slot rmc diffs = Inr D" "finite (dom diffs)" and s: "slotDiff m slot \<noteq> None"
    and c: "\<And>i d. D i = Some d \<Longrightarrow> is_ok (commitTreeAccount E slot destroyed i (accountsTree m i,
         Some (if i \<in> destroyed then preserveDestroyedAccountData m i else Some d)))"
    and p: "\<And>i. i \<in> dom D \<Longrightarrow> i \<in> destroyed \<Longrightarrow> accountsTree m i \<noteq> None"
  shows "\<exists>m'. ApplyDiff E slot rmc diffs destroyed m = Inr m'"
proof -
  define P where "P = preservedDiffs m destroyed D"
  have domP: "dom P = dom D" by (simp add: P_def)
  have fin: "finite (dom D)" using finite_dom_slotDiffs [OF D E m] .
  have it: "set (iterAccounts E (dom P)) = dom D" "distinct (iterAccounts E (dom P))"
    using E fin by (simp_all add: env_ok_def domP)
  have P: "P i = Some (if i \<in> destroyed then preserveDestroyedAccountData m i else Some d)" if "D i = Some d" for i d
    using that by (simp add: P_def)
  have "\<forall>i\<in>set (iterAccounts E (dom P)). is_ok (commitTreeAccount E slot destroyed i (accountsTree m i, P i))"
    unfolding it(1) using c P by force
  then obtain t P' where tP: "commitAccountTree E slot destroyed (accountsTree m, P) = Inr (t, P')"
    using entries.loop_succeeds [OF it(2), of "commitTreeAccount E slot destroyed" "(accountsTree m, P)"]
    unfolding commitAccountTree_def by fastforce
  note pw = commitAccountTree_pointwise [OF tP E, unfolded domP, OF fin]
  have "\<exists>d'. P' i = Some (Some d')" if i: "i \<in> dom D" for i
  proof -
    from i obtain d where d: "D i = Some d" by blast
    have "i \<in> destroyed \<Longrightarrow> preserveDestroyedAccountData m i \<noteq> None"
      using p [OF i] by (auto simp: preserveDestroyedAccountData_def)
    then show ?thesis using commitTreeAccount_stored [OF pw(1) [OF i, unfolded P [OF d]]] by blast
  qed
  moreover have domP': "dom P' = dom D"
    using calculation pw(2) domP by (force simp: dom_def)
  ultimately have "\<forall>i\<in>set (iterAccounts E (dom P')). \<exists>d. P' i = Some (Some d)"
    using E fin by (simp add: env_ok_def)
  then have "\<exists>m1. range_loop (storeSlotDiff slot destroyed P') (iterAccounts E (dom P')) (m\<lparr>accountsTree := t\<rparr>) = Inr m1"
    by (rule storeSlotDiff_succeeds) (simp add: s)
  then show ?thesis unfolding ApplyDiff_unfold [OF slot D(1)] tP [unfolded P_def] by auto
qed

section \<open>Properties\<close>


text \<open>A concrete ledger.\<close>

definition demo_api :: api where
  "demo_api = \<lparr>GenesisSlot = 0, MaxCommittableAge = 20, ValidationBlocksPerSlot = 10, PunishmentEpochs = 9,
     EpochDurationSlots = 8192, SlotsPerEpochExponent = 13, MinReferenceManaCost = 1, RMCIncrease = 1,
     RMCDecrease = 1, RMCIncreaseThreshold = 800000, RMCDecreaseThreshold = 500000,
     EpochFromSlot = (\<lambda>s. s div 8192), DecayManaBySlots = (\<lambda>v s t. Some (v - 1)),
     GenerateManaAndDecayBySlots = (\<lambda>v s t. Some v)\<rparr>"

definition demo_block :: "block_id \<Rightarrow> block option" where
  "demo_block b = Some \<lparr>blk_ID = b, blk_IssuerID = 7, blk_IssuingTime = 0, blk_WorkScore = 2, blk_body = BasicBlock\<rparr>"

definition demo_env :: ledger_env where
  "demo_env = \<lparr>apiForSlot = (\<lambda>_. demo_api), math = checked_math, blockFunc = demo_block, blockIDBytes = bid_hash,
     iterAccounts = sorted_list_of_set, iterBlocks = sorted_list_of_set\<rparr>"


definition demo_account :: "account_id \<Rightarrow> account_data" where
  "demo_account i = (NewAccountData i)\<lparr>ad_credits := NewBlockIssuanceCredits 100 1, ad_outputID := 70,
     ad_blockIssuerKeys := {1, 2}, ad_validatorStake := 50, ad_stakeEndEpoch := 6\<rparr>"

definition demo_manager :: manager where
  "demo_manager = \<lparr>blockBurns = Map.empty, latestSupportedVersionSignals = Map.empty, latestCommittedSlot = 4,
     accountsTree = [7 \<mapsto> demo_account 7, 9 \<mapsto> demo_account 9], slotDiff = (\<lambda>s. if s = 5 then Some NewAccountDiffs else None)\<rparr>"

text \<open>Account 7 receives an allotment and a new key, 8 is created, 9 is destroyed.\<close>

definition demo_commit :: slot_commit where
  "demo_commit = \<lparr>sc_slot = 5, sc_rmc = 1,
     sc_diffs = [7 \<mapsto> NewAccountDiff\<lparr>BICChange := 10, PreviousUpdatedSlot := 1, NewOutputID := 71,
                     PreviousOutputID := 70, BlockIssuerKeysAdded := {3}, BlockIssuerKeysRemoved := {1}\<rparr>,
                 8 \<mapsto> NewAccountDiff\<lparr>NewOutputID := 80, ValidatorStakeChange := 5\<rparr>,
                 9 \<mapsto> NewAccountDiff],
     sc_destroyed = {9}\<rparr>"

lemmas demo_defs = demo_manager_def demo_commit_def demo_env_def demo_api_def demo_account_def

lemma demo_env_ok: "env_ok demo_env"
  by (simp add: env_ok_def demo_env_def enumerates_sorted_list)

lemma demo_slotDiffs: "slotDiffs demo_env demo_manager 5 1 D = Inr D"
  by (simp add: slotDiffs_def updateSlotDiffWithBurns_def computeBlockBurnsForSlot_def
      updateSlotDiffWithVersionSignals_def demo_manager_def demo_env_def)

lemma demo_commit_ok: "steps_ok (commitSlotDiff demo_env) (commit_ok demo_env) [demo_commit] demo_manager"
proof -
  have "manager_ok demo_manager" by (simp add: manager_ok_def demo_defs NewAccountData_def)
  moreover have "entry_ok {9} i (accountsTree demo_manager i) d" if "sc_diffs demo_commit i = Some d" for i d
    using that by (auto simp: entry_ok_def diff_matches_def epoch_fits_def stakes_in_range_def demo_defs
        NewAccountData_def NewAccountDiff_def NewBlockIssuanceCredits_def split: if_splits)
  ultimately show ?thesis using demo_env_ok
    by (simp add: commit_ok_def diffs_ok_def demo_commit_def demo_slotDiffs split: sum.split)
       (simp add: demo_manager_def)
qed

lemmas demo_eval = commitTreeAccount_def commitAccount_def commitCredits_def commitStakes_def
  preserveDestroyedAccountData_def NewAccountData_def NewAccountDiff_def NewBlockIssuanceCredits_def
  checked_math_def fit_i64_def in_i64_def Let_def word_sless_alt

lemma demo_entries:
  assumes "sc_diffs demo_commit i = Some d"
  shows "is_ok (commitTreeAccount demo_env 5 (sc_destroyed demo_commit) i (accountsTree demo_manager i,
    Some (if i \<in> sc_destroyed demo_commit then preserveDestroyedAccountData demo_manager i else Some d)))"
    and "i \<in> sc_destroyed demo_commit \<Longrightarrow> accountsTree demo_manager i \<noteq> None"
proof -
  consider "i = 7" | "i = 8" | "i = 9" using assms by (auto simp: demo_commit_def split: if_splits)
  note i = this
  have d: "d = the (sc_diffs demo_commit i)" using assms by simp
  show "is_ok (commitTreeAccount demo_env 5 (sc_destroyed demo_commit) i (accountsTree demo_manager i,
    Some (if i \<in> sc_destroyed demo_commit then preserveDestroyedAccountData demo_manager i else Some d)))"
    unfolding d by (cases rule: i) (simp_all add: demo_defs demo_eval)
  show "i \<in> sc_destroyed demo_commit \<Longrightarrow> accountsTree demo_manager i \<noteq> None"
    by (cases rule: i) (simp_all add: demo_defs)
qed

lemma demo_commit_succeeds: "\<exists>m'. commitSlotDiff demo_env demo_commit demo_manager = Inr m'"
  unfolding commitSlotDiff_def
proof (rule ApplyDiff_succeeds [OF demo_env_ok, where D = "sc_diffs demo_commit"])
  show "manager_ok demo_manager" by (simp add: manager_ok_def demo_defs NewAccountData_def)
  show "slotDiffs demo_env demo_manager (sc_slot demo_commit) (sc_rmc demo_commit) (sc_diffs demo_commit)
      = Inr (sc_diffs demo_commit)" using demo_slotDiffs by (simp add: demo_commit_def)
  show "is_ok (commitTreeAccount demo_env (sc_slot demo_commit) (sc_destroyed demo_commit) i
     (accountsTree demo_manager i,
      Some (if i \<in> sc_destroyed demo_commit then preserveDestroyedAccountData demo_manager i else Some d)))"
    if "sc_diffs demo_commit i = Some d" for i d
    using demo_entries(1) [OF that] by (simp add: demo_commit_def)
  show "accountsTree demo_manager i \<noteq> None" if "i \<in> dom (sc_diffs demo_commit)" "i \<in> sc_destroyed demo_commit" for i
    using demo_entries(2) that by blast
qed (simp_all add: demo_commit_def demo_manager_def)


lemma rollbackAccountTo_one:
  assumes "slot = t + 1" "slot \<noteq> 0" "latestCommittedSlot m = slot" "slotDiff m slot = Some s"
    and "rollbackSlotDiffOnAccount sm s a = Inr (a', created, destroyed)"
  shows "rollbackAccountTo sm m a t = Inr (a', \<not> created \<and> destroyed)"
proof -
  have lt: "t < slot" "slot - 1 = t" using assms(1,2) less_next_slot by auto
  show ?thesis using assms(3-5) lt
    by (simp add: rollbackAccountTo_def rollbackAccountLoop.simps [of sm m t slot] rollbackAccountLoop.simps [of sm m t t])
qed

lemma rollbackTreeAccount_Some:
  assumes "rollbackTreeAccount sm s i cur = Inr (Some a)"
  shows "\<exists>created. rollbackSlotDiffOnAccount sm s (case cur of None \<Rightarrow> NewAccountData i | Some b \<Rightarrow> b)
    = Inr (a, created, cur = None) \<and> (created \<longrightarrow> cur = None)"
  using assms by (cases cur) (auto simp: rollbackTreeAccount_def go_result split: if_splits)

lemma rollbackSlotDiff_flags:
  assumes "rollbackSlotDiffOnAccount sm s a = Inr (a', created, destroyed)"
  shows "\<not> (created \<and> destroyed)"
  using assms by (auto simp: rollbackSlotDiffOnAccount_def go_result Let_def split: if_splits)





subsection \<open>Burns\<close>

definition amount :: "('k \<rightharpoonup> 'v::zero) \<Rightarrow> 'k \<Rightarrow> 'v" where
  "amount f k = (case f k of None \<Rightarrow> 0 | Some v \<Rightarrow> v)"

lemma amount_simps [simp]:
  "amount Map.empty k = 0"
  "amount (incr j v f) k = (if k = j then amount f j + v else amount f k)"
  by (simp_all add: amount_def incr_def split: option.splits)

text \<open>What one block burns of account \<open>i\<close>, and whether it is a validation block of \<open>i\<close>.\<close>

definition basicBurn :: "ledger_env \<Rightarrow> mana \<Rightarrow> account_id \<Rightarrow> block_id \<Rightarrow> mana" where
  "basicBurn E rmc i b =
     (case blockFunc E b of
        None \<Rightarrow> 0
      | Some blk \<Rightarrow> if IsBasicBlock blk \<and> blk_IssuerID blk = i then ucast (blk_WorkScore blk) * rmc else 0)"

definition validationOf :: "ledger_env \<Rightarrow> account_id \<Rightarrow> block_id \<Rightarrow> bool" where
  "validationOf E i b =
     (case blockFunc E b of None \<Rightarrow> False | Some blk \<Rightarrow> IsValidationBlock blk \<and> blk_IssuerID blk = i)"

lemma block_kinds_disjoint: "IsBasicBlock b \<Longrightarrow> \<not> IsValidationBlock b"
  by (simp add: IsBasicBlock_def IsValidationBlock_def split: block_body.splits)

lemma trackedBlockBurn_loop:
  assumes "range_loop (trackedBlockBurn E rmc) bs (burns, counts) = Inr (burns', counts')"
  shows "amount burns' i = amount burns i + sum_list (map (basicBurn E rmc i) bs) \<and>
    amount counts' i = amount counts i + length (filter (validationOf E i) bs)"
  using assms
proof (induction bs arbitrary: burns counts)
  case Nil
  then show ?case by simp
next
  case (Cons b bs)
  then obtain burns1 counts1 where s: "trackedBlockBurn E rmc b (burns, counts) = Inr (burns1, counts1)"
    "range_loop (trackedBlockBurn E rmc) bs (burns1, counts1) = Inr (burns', counts')"
    by (auto simp: go_result)
  from s(1) obtain blk where blk: "blockFunc E b = Some blk" by (auto simp: trackedBlockBurn_def go_result)
  consider "IsBasicBlock blk" "\<not> IsValidationBlock blk" | "\<not> IsBasicBlock blk" "IsValidationBlock blk"
    | "\<not> IsBasicBlock blk" "\<not> IsValidationBlock blk" using block_kinds_disjoint by blast
  then have "amount burns1 i = amount burns i + basicBurn E rmc i b \<and>
    amount counts1 i = amount counts i + (if validationOf E i b then 1 else 0)"
    using s(1) blk by cases (auto simp: trackedBlockBurn_def basicBurn_def validationOf_def)
  then show ?case using Cons.IH [OF s(2)] by (simp add: add.assoc)
qed

lemma account_latest: "account sm m i (latestCommittedSlot m) = Inr (accountsTree m i)"
  by (auto simp: account_def rollbackAccountTo_def rollbackAccountLoop.simps Let_def split: option.splits)

text \<open>The punishment of an over-issuing validator, zero for all others.\<close>

definition punishment :: "ledger_env \<Rightarrow> manager \<Rightarrow> slot_index \<Rightarrow> nat \<Rightarrow> account_id \<Rightarrow> mana option" where
  "punishment E m slot count i =
     (let api = apiForSlot E slot; limit = unat (ValidationBlocksPerSlot api)
      in if count \<le> limit then Some 0
         else Option.bind (accountsTree m i) (\<lambda>a.
           map_option (\<lambda>p. word_of_nat (count - limit) * p)
             (GenerateManaAndDecayBySlots api (ad_validatorStake a) slot
                (slot + EpochDurationSlots api * PunishmentEpochs api))))"

lemma overIssuanceBurn_step:
  assumes "overIssuanceBurn E m slot counts j burns = Inr burns'"
  shows "\<exists>p. punishment E m slot (amount counts j) j = Some p \<and>
    amount burns' k = amount burns k + (if k = j then p else 0)"
  using assms
  by (auto simp: overIssuanceBurn_def punishment_def account_latest amount_def [symmetric] Let_def go_result
      split: if_splits option.splits)

lemma overIssuanceBurn_loop:
  assumes "range_loop (overIssuanceBurn E m slot counts) js burns = Inr burns'" "distinct js"
  shows "if i \<in> set js
    then \<exists>p. punishment E m slot (amount counts i) i = Some p \<and> amount burns' i = amount burns i + p
    else amount burns' i = amount burns i"
  using assms
proof (induction js arbitrary: burns)
  case Nil
  then show ?case by simp
next
  case (Cons j js)
  then obtain burns1 where s: "overIssuanceBurn E m slot counts j burns = Inr burns1"
    "range_loop (overIssuanceBurn E m slot counts) js burns1 = Inr burns'" by (auto simp: go_result)
  show ?case
    using overIssuanceBurn_step [OF s(1), of i] Cons.IH [OF s(2)] Cons.prems(2)
    by (cases "i = j") auto
qed

lemma finite_dom_counts:
  assumes "range_loop (trackedBlockBurn E rmc) bs (burns, counts) = Inr (burns', counts')" "finite (dom counts)"
  shows "finite (dom counts')"
proof -
  have "finite (dom (snd (burns', counts')))"
    using assms(1)
  proof (rule range_loop_invariant [where P = "\<lambda>s. finite (dom (snd s))"])
    show "finite (dom (snd (burns, counts)))" using assms(2) by simp
  qed (auto simp: trackedBlockBurn_def go_result incr_def split: if_splits)
  then show ?thesis by simp
qed

text \<open>
  C4. The mana burned by an account in a slot is the sum, over its basic blocks of the slot, of work
  score times reference mana cost, plus the punishment for each validation block above the limit,
  whatever the order in which the blocks are visited.
\<close>

theorem computeBlockBurns_sum:
  assumes "env_ok E" "blockBurns m slot = Some B" "finite B"
    and "computeBlockBurnsForSlot E m slot rmc = Inr burns"
  shows "\<exists>p. punishment E m slot (card {b \<in> B. validationOf E i b}) i = Some p \<and>
    amount burns i = (\<Sum>b\<in>B. basicBurn E rmc i b) + p"
proof -
  have it: "set (iterBlocks E B) = B" "distinct (iterBlocks E B)" using assms(1,3) by (simp_all add: env_ok_def)
  from assms(2,4) obtain b0 c0 where
    l: "range_loop (trackedBlockBurn E rmc) (iterBlocks E B) (Map.empty, Map.empty) = Inr (b0, c0)"
    and o: "range_loop (overIssuanceBurn E m slot c0) (iterAccounts E (dom c0)) b0 = Inr burns"
    by (auto simp: computeBlockBurnsForSlot_def go_result)
  have c: "amount c0 i = card {b \<in> B. validationOf E i b}" "amount b0 i = (\<Sum>b\<in>B. basicBurn E rmc i b)"
    using trackedBlockBurn_loop [OF l, of i] it
    by (simp_all add: distinct_length_filter sum_list_distinct_conv_sum_set Int_def conj_commute)
  have fin: "finite (dom c0)" using finite_dom_counts [OF l] by simp
  have ia: "set (iterAccounts E (dom c0)) = dom c0" "distinct (iterAccounts E (dom c0))"
    using assms(1) fin by (simp_all add: env_ok_def)
  show ?thesis
  proof (cases "i \<in> dom c0")
    case True
    then show ?thesis using overIssuanceBurn_loop [OF o ia(2), of i] ia(1) c by auto
  next
    case False
    then have "amount c0 i = 0" by (auto simp: amount_def split: option.splits)
    then show ?thesis using overIssuanceBurn_loop [OF o ia(2), of i] ia(1) c False
      by (auto simp: punishment_def Let_def)
  qed
qed


text \<open>On two blocks of account 7.\<close>

theorem computeBlockBurns_sum_witness:
  "\<exists>burns p. computeBlockBurnsForSlot demo_env
       (demo_manager\<lparr>blockBurns := [5 \<mapsto> {\<lparr>bid_hash = 1, bid_slot = 5\<rparr>, \<lparr>bid_hash = 2, bid_slot = 5\<rparr>}]\<rparr>) 5 3 = Inr burns
     \<and> amount burns 7 = (\<Sum>b\<in>{\<lparr>bid_hash = 1, bid_slot = 5\<rparr>, \<lparr>bid_hash = 2, bid_slot = 5\<rparr>}. basicBurn demo_env 3 7 b) + p
     \<and> p = 0 \<and> amount burns 7 = 12"
proof -
  let ?B = "{\<lparr>bid_hash = 1, bid_slot = 5\<rparr>, \<lparr>bid_hash = 2, bid_slot = 5\<rparr>} :: block_id set"
  let ?m = "demo_manager\<lparr>blockBurns := [5 \<mapsto> ?B]\<rparr>"
  have basic: "basicBurn demo_env 3 7 b = 6" "\<not> validationOf demo_env 7 b" for b
    by (simp_all add: basicBurn_def validationOf_def demo_env_def demo_block_def IsBasicBlock_def IsValidationBlock_def)
  have "set (iterBlocks demo_env ?B) = ?B" "distinct (iterBlocks demo_env ?B)"
    using demo_env_ok by (simp_all add: env_ok_def)
  then have step: "\<exists>burns. range_loop (trackedBlockBurn demo_env 3) bs (b0, Map.empty) = Inr (burns, Map.empty)" for bs b0
    by (induction bs arbitrary: b0)
      (simp_all add: trackedBlockBurn_def demo_env_def demo_block_def IsBasicBlock_def)
  obtain burns where b: "computeBlockBurnsForSlot demo_env ?m 5 3 = Inr burns"
    using step [of "iterBlocks demo_env ?B" Map.empty]
    by (auto simp: computeBlockBurnsForSlot_def demo_env_def)
  obtain p where "punishment demo_env ?m 5 (card {b \<in> ?B. validationOf demo_env 7 b}) 7 = Some p"
    "amount burns 7 = (\<Sum>b\<in>?B. basicBurn demo_env 3 7 b) + p"
    using computeBlockBurns_sum [OF demo_env_ok _ _ b, of ?B 7] by auto
  moreover from this(1) have "p = 0" using basic(2) by (simp add: punishment_def)
  ultimately show ?thesis using b basic(1) by auto
qed

subsection \<open>Version signals\<close>

definition signalOf :: "manager \<Rightarrow> slot_index \<Rightarrow> account_id \<Rightarrow> signaled_block option" where
  "signalOf m slot i = Option.bind (latestSupportedVersionSignals m slot) (\<lambda>s. s i)"

text \<open>The signals that the validation blocks of account \<open>i\<close> in a slot carry.\<close>

fun signalsFrom :: "slot_index \<Rightarrow> account_id \<Rightarrow> block list \<Rightarrow> signaled_block list" where
  "signalsFrom slot i [] = []"
| "signalsFrom slot i (b # bs) =
     (case blk_body b of
        ValidationBlock version hash \<Rightarrow>
          if bid_slot (blk_ID b) = slot \<and> blk_IssuerID b = i
          then NewSignaledBlock b version hash # signalsFrom slot i bs else signalsFrom slot i bs
      | _ \<Rightarrow> signalsFrom slot i bs)"

definition keepSignal :: "ledger_env \<Rightarrow> signaled_block option \<Rightarrow> signaled_block option \<Rightarrow> signaled_block option" where
  "keepSignal E new cur = (if SignaledBlock_Compare (blockIDBytes E) new cur = 1 then new else cur)"

lemma signalOf_TrackBlock:
  "signalOf (TrackBlock E b m) slot i = fold (keepSignal E) (map Some (signalsFrom slot i [b])) (signalOf m slot i)"
  by (auto simp: signalOf_def TrackBlock_def keepSignal_def Let_def split: block_body.splits option.splits)

lemma signalOf_TrackBlocks:
  "signalOf (fold (TrackBlock E) bs m) slot i =
     fold (keepSignal E) (map Some (signalsFrom slot i bs)) (signalOf m slot i)"
proof (induction bs arbitrary: m)
  case Nil
  then show ?case by simp
next
  case (Cons b bs)
  show ?case using Cons.IH [of "TrackBlock E b m"] signalOf_TrackBlock [of E b m slot i]
    by (auto split: block_body.splits)
qed

text \<open>
  C7. Tracking blocks keeps, for each validator and slot, a signal that one of its validation blocks
  carried and that no other of them exceeds in version, issuing time and identifier.
\<close>

theorem TrackBlock_keeps_greatest_signal:
  assumes "signalOf m slot i = None" "signalsFrom slot i bs \<noteq> []"
  shows "\<exists>s \<in> set (signalsFrom slot i bs). signalOf (fold (TrackBlock E) bs m) slot i = Some s \<and>
    (\<forall>s' \<in> set (signalsFrom slot i bs). SignaledBlock_Compare (blockIDBytes E) (Some s') (Some s) \<le> 0)"
proof -
  let ?r = "fold (keepSignal E) (map Some (signalsFrom slot i bs)) None"
  have g: "?r \<in> insert None (Some ` set (signalsFrom slot i bs)) \<and>
    (\<forall>y\<in>insert None (Some ` set (signalsFrom slot i bs)). SignaledBlock_Compare (blockIDBytes E) y ?r \<le> 0)"
    using signal.keep_greater [of "blockIDBytes E" "map Some (signalsFrom slot i bs)" None]
    unfolding keepSignal_def [symmetric] by simp
  obtain s0 where "s0 \<in> set (signalsFrom slot i bs)" using assms(2) by (meson list.set_sel(1))
  then have "?r \<noteq> None" using g by force
  then show ?thesis using g signalOf_TrackBlocks [of E bs m slot i] assms(1)
    by (auto simp del: SignaledBlock_Compare.simps)
qed

definition demo_validation :: "nat \<Rightarrow> u8 \<Rightarrow> block" where
  "demo_validation h v = \<lparr>blk_ID = \<lparr>bid_hash = h, bid_slot = 5\<rparr>, blk_IssuerID = 7, blk_IssuingTime = 1000 - int h,
     blk_WorkScore = 1, blk_body = ValidationBlock v h\<rparr>"

theorem TrackBlock_keeps_greatest_signal_witness:
  "signalOf (fold (TrackBlock demo_env) [demo_validation 1 3, demo_validation 2 4, demo_validation 3 3] demo_manager) 5 7
     = Some (NewSignaledBlock (demo_validation 2 4) 4 2)"
proof -
  let ?bs = "[demo_validation 1 3, demo_validation 2 4, demo_validation 3 3]"
  have s: "signalsFrom 5 7 ?bs = [NewSignaledBlock (demo_validation 1 3) 3 1,
      NewSignaledBlock (demo_validation 2 4) 4 2, NewSignaledBlock (demo_validation 3 3) 3 3]"
    by (simp add: demo_validation_def)
  have "\<exists>s \<in> set (signalsFrom 5 7 ?bs). signalOf (fold (TrackBlock demo_env) ?bs demo_manager) 5 7 = Some s \<and>
    (\<forall>s' \<in> set (signalsFrom 5 7 ?bs). SignaledBlock_Compare (blockIDBytes demo_env) (Some s') (Some s) \<le> 0)"
    by (rule TrackBlock_keeps_greatest_signal) (simp_all add: signalOf_def demo_manager_def demo_validation_def)
  then show ?thesis unfolding s by (auto simp: NewSignaledBlock_def)
qed

subsection \<open>Deviations\<close>

lemma commitAccount_update_slot:
  "commitAccount E slot i cur (d\<lparr>PreviousUpdatedSlot := u\<rparr>) =
     map_sum id (\<lambda>(a, d). (a, d\<lparr>PreviousUpdatedSlot := u\<rparr>)) (commitAccount E slot i cur d)"
proof -
  have c: "commitCredits E slot ex (d\<lparr>PreviousUpdatedSlot := u\<rparr>) a =
     map_sum id (\<lambda>(a, d). (a, d\<lparr>PreviousUpdatedSlot := u\<rparr>)) (commitCredits E slot ex d a)" for ex a
    by (cases "DecayManaBySlots (apiForSlot E slot) (cr_value (ad_credits a)) (cr_updateSlot (ad_credits a)) slot")
      (simp_all add: commitCredits_def)
  have f: "commitFields (d\<lparr>PreviousUpdatedSlot := u\<rparr>) a = commitFields d a"
    "commitVersion (d\<lparr>PreviousUpdatedSlot := u\<rparr>) a = commitVersion d a"
    "commitStakes sm (d\<lparr>PreviousUpdatedSlot := u\<rparr>) a = commitStakes sm d a" for d a sm
    by (simp_all add: commitFields_def commitVersion_def commitStakes_def)
  let ?a = "case cur of None \<Rightarrow> NewAccountData i | Some a \<Rightarrow> a"
  show ?thesis
  proof (cases "commitCredits E slot (cur \<noteq> None) d ?a")
    case (Inl e)
    then show ?thesis by (simp add: commitAccount_def c)
  next
    case (Inr ad)
    obtain a1 d1 where ad: "ad = (a1, d1)" by (cases ad)
    show ?thesis using Inr
      by (cases "commitStakes (math E) d1 (commitFields d1 a1)") (simp_all add: commitAccount_def c f ad)
  qed
qed

lemma rollbackStakes_credits:
  "rollbackStakes sm d (a\<lparr>ad_credits := c\<rparr>) = map_sum id (\<lambda>a. a\<lparr>ad_credits := c\<rparr>) (rollbackStakes sm d a)"
  by (cases "sub_i64 sm (ad_validatorStake a) (ValidatorStakeChange d)";
      cases "sub_i64 sm (ad_delegationStake a) (DelegationStakeChange d)";
      cases "sub_i64 sm (ucast (ad_stakeEndEpoch a)) (StakeEndEpochChange d)";
      cases "sub_i64 sm (ad_fixedCost a) (FixedCostChange d)") (simp_all add: rollbackStakes_def Let_def)

lemma rollbackSlotDiff_update_slot:
  assumes r: "rollbackSlotDiffOnAccount sm s a = Inr (b, False, False)"
    and s: "diffChangeStore s (ad_id a) = Some (d\<lparr>PreviousUpdatedSlot := u\<rparr>)" "BICChange d \<noteq> 0"
    and t: "diffChangeStore t (ad_id a) = Some d" and nd: "ad_id a \<notin> destroyedAccounts s" "ad_id a \<notin> destroyedAccounts t"
  shows "rollbackSlotDiffOnAccount sm t a =
    Inr (b\<lparr>ad_credits := (ad_credits b)\<lparr>cr_updateSlot := PreviousUpdatedSlot d\<rparr>\<rparr>, False, False)"
proof -
  let ?d = "d\<lparr>PreviousUpdatedSlot := u\<rparr>"
  let ?x = "rollbackFields d (rollbackCredits ?d False a)"
  let ?c = "(ad_credits ?x)\<lparr>cr_updateSlot := PreviousUpdatedSlot d\<rparr>"
  have f: "rollbackFields ?d = rollbackFields d" "rollbackVersion ?d = rollbackVersion d"
    "rollbackStakes sm ?d = rollbackStakes sm d"
    by (simp_all add: fun_eq_iff rollbackFields_def rollbackVersion_def rollbackStakes_def)
  obtain b' where b': "rollbackStakes sm d ?x = Inr b'" "b = rollbackVersion d b'"
    and nc: "\<not> (PreviousOutputID d = 0 \<and> NewOutputID d \<noteq> 0)"
    using r s nd by (auto simp: rollbackSlotDiffOnAccount_def AccountDiffs_Has_def AccountDiffs_Load_def go_result f Let_def
        split: if_splits)
  have bc: "ad_credits b' = ad_credits ?x" using b'(1) by (auto simp: rollbackStakes_def go_result Let_def)
  have x: "rollbackFields d (rollbackCredits d False a) = ?x\<lparr>ad_credits := ?c\<rparr>"
    by (rule account_data.equality) (simp_all add: s(2) Credits_Update_def)
  have v: "rollbackVersion d (b'\<lparr>ad_credits := ?c\<rparr>) = b\<lparr>ad_credits := ?c\<rparr>"
    by (simp add: b'(2) rollbackVersion_def)
  have "rollbackStakes sm d (rollbackFields d (rollbackCredits d False a)) = Inr (b'\<lparr>ad_credits := ?c\<rparr>)"
    unfolding x by (simp only: rollbackStakes_credits b'(1) map_sum.simps id_apply)
  moreover have "?c = (ad_credits b)\<lparr>cr_updateSlot := PreviousUpdatedSlot d\<rparr>" using b'(2) bc by simp
  ultimately show ?thesis using t nd(2) nc v
    by (simp add: rollbackSlotDiffOnAccount_def AccountDiffs_Has_def AccountDiffs_Load_def Let_def)
qed

lemma commitAccount_existing:
  assumes "commitAccount E slot i (Some a) d = Inr (a', d')"
  shows "ad_id a' = ad_id a" "\<exists>c. d' = d\<lparr>BICChange := c\<rparr>"
proof -
  from assms obtain a1 a2 where a1: "commitCredits E slot True d a = Inr (a1, d')"
    and a2: "commitStakes (math E) d' (commitFields d' a1) = Inr a2" and a': "a' = commitVersion d' a2"
    by (auto simp: commitAccount_def go_result)
  from commitCredits_existing [OF a1] obtain cr where cr: "d' = d\<lparr>BICChange := cr\<rparr>"
    "a1 = (if cr = 0 then a else a\<lparr>ad_credits := Credits_Update cr (Some slot) (ad_credits a)\<rparr>)" by blast
  show "ad_id a' = ad_id a" using commitStakes_frame(1) [OF a2] by (simp add: a' cr(2))
  show "\<exists>c. d' = d\<lparr>BICChange := c\<rparr>" using cr(1) by blast
qed

text \<open>
  C31. When a burn meets a diff that already exists, the diff's \<^verbatim>\<open>PreviousUpdatedSlot\<close> is not filled in.
  If the diff came from a transition or a delegation (where it is 0), committing the slot and rolling
  it back leaves the account with update slot 0 instead of its own.
\<close>

theorem burn_on_existing_diff_loses_update_slot:
  assumes E: "safemath_ok (math E)" and b: "burnIntoDiff E m slot burns i (Some d) = Inr (Some d1)"
    and z: "PreviousUpdatedSlot d = 0" and c: "commitAccount E slot i (Some a) d1 = Inr (a', d')" "BICChange d' \<noteq> 0"
    and m: "diff_matches (d1\<lparr>PreviousUpdatedSlot := cr_updateSlot (ad_credits a)\<rparr>) a"
    and s: "diffChangeStore s (ad_id a) = Some d'" "ad_id a \<notin> destroyedAccounts s"
  shows "rollbackSlotDiffOnAccount (math E) s a' =
    Inr (a\<lparr>ad_credits := (ad_credits a)\<lparr>cr_updateSlot := 0\<rparr>\<rparr>, False, False)"
proof -
  let ?u = "cr_updateSlot (ad_credits a)"
  let ?s = "s\<lparr>diffChangeStore := (diffChangeStore s)(ad_id a \<mapsto> d'\<lparr>PreviousUpdatedSlot := ?u\<rparr>)\<rparr>"
  have cu: "commitAccount E slot i (Some a) (d1\<lparr>PreviousUpdatedSlot := ?u\<rparr>) = Inr (a', d'\<lparr>PreviousUpdatedSlot := ?u\<rparr>)"
    by (simp add: commitAccount_update_slot c(1))
  have r: "rollbackSlotDiffOnAccount (math E) ?s a' = Inr (a, False, False)"
    using rollback_of_commit [OF E cu m, of ?s] s(2) by simp
  have "PreviousUpdatedSlot d1 = 0" using b z by (auto simp: burnIntoDiff_def Let_def)
  then have p: "PreviousUpdatedSlot d' = 0" using commitAccount_existing(2) [OF c(1)] by auto
  note id = commitAccount_existing(1) [OF c(1)]
  show ?thesis using rollbackSlotDiff_update_slot [OF r, where d = d' and u = ?u and t = s] s c(2) p id by simp
qed


text \<open>On account 7: a transition without allotment and one burn of 5.\<close>

theorem burn_on_existing_diff_loses_update_slot_witness:
  "\<exists>d1 a' d'. burnIntoDiff demo_env demo_manager 5 [7 \<mapsto> 5] 7 (Some (NewAccountDiff\<lparr>NewOutputID := 71, PreviousOutputID := 70\<rparr>))
       = Inr (Some d1) \<and> commitAccount demo_env 5 7 (Some (demo_account 7)) d1 = Inr (a', d') \<and>
     rollbackSlotDiffOnAccount (math demo_env) (AccountDiffs_Store 7 d' False NewAccountDiffs) a' =
       Inr ((demo_account 7)\<lparr>ad_credits := \<lparr>cr_value = 100, cr_updateSlot = 0\<rparr>\<rparr>, False, False)"
proof -
  let ?d = "NewAccountDiff\<lparr>NewOutputID := 71, PreviousOutputID := 70\<rparr>"
  let ?d1 = "?d\<lparr>BICChange := -5\<rparr>"
  let ?d' = "?d\<lparr>BICChange := -6\<rparr>"
  have b: "burnIntoDiff demo_env demo_manager 5 [7 \<mapsto> 5] 7 (Some ?d) = Inr (Some ?d1)"
    by (simp add: burnIntoDiff_def Let_def NewAccountDiff_def)
  obtain a' where c: "commitAccount demo_env 5 7 (Some (demo_account 7)) ?d1 = Inr (a', ?d')"
    by (simp add: demo_defs demo_eval)
  have id: "ad_id (demo_account 7) = 7" "(ad_credits (demo_account 7))\<lparr>cr_updateSlot := 0\<rparr> = \<lparr>cr_value = 100, cr_updateSlot = 0\<rparr>"
    by (simp_all add: demo_account_def NewAccountData_def NewBlockIssuanceCredits_def)
  have "rollbackSlotDiffOnAccount (math demo_env) (AccountDiffs_Store 7 ?d' False NewAccountDiffs) a' =
      Inr ((demo_account 7)\<lparr>ad_credits := (ad_credits (demo_account 7))\<lparr>cr_updateSlot := 0\<rparr>\<rparr>, False, False)"
    by (rule burn_on_existing_diff_loses_update_slot [OF _ b _ c])
      (simp_all add: demo_env_def NewAccountDiff_def diff_matches_def epoch_fits_def demo_account_def
        NewAccountData_def NewBlockIssuanceCredits_def AccountDiffs_Store_def NewAccountDiffs_def)
  then show ?thesis using b c id by auto
qed

text \<open>
  C32. An empty diff for an account that is not in the tree (the ledger registers one for every
  allotment, also to accounts without block issuer feature) adds the account to the tree, and rolling
  the slot back does not remove it.
\<close>

theorem empty_diff_adds_account:
  assumes "safemath_ok (math E)" "i \<notin> destroyed" "diffChangeStore s i = Some NewAccountDiff" "i \<notin> destroyedAccounts s"
  shows "\<exists>a. commitTreeAccount E slot destroyed i (None, Some (Some NewAccountDiff)) = Inr (Some a, Some (Some NewAccountDiff))
    \<and> rollbackTreeAccount (math E) s i (Some a) = Inr (Some a)"
proof -
  let ?a = "(NewAccountData i)\<lparr>ad_credits := Credits_Update 0 (Some slot) (ad_credits (NewAccountData i))\<rparr>"
  have d: "add_i64 (math E) x 0 = Some x" "sub_i64 (math E) x 0 = Some x" for x
    using assms(1) by (simp_all add: safemath_laws)
  have st: "commitStakes (math E) NewAccountDiff a = Inr a" "rollbackStakes (math E) NewAccountDiff a = Inr a" for a
    by (simp_all add: commitStakes_def rollbackStakes_def NewAccountDiff_def d Let_def)
  have f: "commitFields NewAccountDiff a = a" "commitVersion NewAccountDiff a = a"
    "rollbackFields NewAccountDiff a = a" "rollbackVersion NewAccountDiff a = a" "rollbackCredits NewAccountDiff False a = a" for a
    by (rule account_data.equality; simp add: NewAccountDiff_def)+
  have "commitAccount E slot i None NewAccountDiff = Inr (?a, NewAccountDiff)"
    by (simp add: commitAccount_def commitCredits_new f st) (simp add: NewAccountDiff_def)
  moreover have "rollbackSlotDiffOnAccount (math E) s ?a = Inr (?a, False, False)"
    using assms(3,4) by (simp add: rollbackSlotDiffOnAccount_def AccountDiffs_Has_def AccountDiffs_Load_def f st
        NewAccountData_def Let_def) (simp add: NewAccountDiff_def)
  ultimately show ?thesis using assms(2)
    by (auto simp: commitTreeAccount_def rollbackTreeAccount_def)
qed

theorem empty_diff_adds_account_witness:
  "\<exists>a. commitTreeAccount demo_env 5 {} 8 (None, Some (Some NewAccountDiff)) = Inr (Some a, Some (Some NewAccountDiff))
    \<and> rollbackTreeAccount (math demo_env) (AccountDiffs_Store 8 NewAccountDiff False NewAccountDiffs) 8 (Some a) = Inr (Some a)"
  by (rule empty_diff_adds_account) (simp_all add: demo_env_def AccountDiffs_Store_def NewAccountDiffs_def)



subsection \<open>The invariant\<close>

lemma manager_ok_upd_tree:
  assumes "manager_ok m" "\<And>i a. t i = Some a \<Longrightarrow> ad_id a = i"
  shows "manager_ok (m\<lparr>accountsTree := t\<rparr>)"
  using assms by (simp add: manager_ok_def)

lemma manager_ok_TrackBlock: "manager_ok m \<Longrightarrow> manager_ok (TrackBlock E b m)"
  by (auto simp: manager_ok_def TrackBlock_def Let_def split: block_body.splits option.splits)

lemma manager_ok_AddAccount: "manager_ok m \<Longrightarrow> AddAccount out c m = Inr m' \<Longrightarrow> manager_ok m'"
  by (auto simp: manager_ok_def AddAccount_def go_result Let_def AddBlockIssuerKeys_def NewAccountData_def
      split: output_kind.splits option.splits if_splits)

lemma rollbackTreeAccount_id:
  assumes "rollbackTreeAccount sm s i cur = Inr (Some a)" "\<And>b. cur = Some b \<Longrightarrow> ad_id b = i"
  shows "ad_id a = i"
proof -
  let ?c = "case cur of None \<Rightarrow> NewAccountData i | Some b \<Rightarrow> b"
  have st: "ad_id b' = ad_id b" if "rollbackStakes sm d b = Inr b'" for d b b'
    using that by (auto simp: rollbackStakes_def go_result Let_def)
  obtain created where "rollbackSlotDiffOnAccount sm s ?c = Inr (a, created, cur = None)"
    using rollbackTreeAccount_Some [OF assms(1)] by blast
  then have "ad_id a = ad_id ?c"
    by (auto simp: rollbackSlotDiffOnAccount_def go_result Let_def dest!: st split: if_splits prod.splits)
  then show ?thesis using assms(2) by (auto simp: NewAccountData_def split: option.splits)
qed

lemma commitTreeAccount_id:
  assumes c: "commitTreeAccount E slot destroyed i (cur, dif) = Inr (cur', dif')" and "cur' = Some a"
    and id: "\<And>b. cur = Some b \<Longrightarrow> ad_id b = i"
  shows "ad_id a = i"
proof -
  from c assms(2) obtain d d' where d: "commitAccount E slot i cur d = Inr (a, d')"
    by (auto simp: commitTreeAccount_def map_sum_def split: if_splits option.splits sum.splits)
  show ?thesis
  proof (cases cur)
    case None
    then show ?thesis using commitAccount_created d by blast
  next
    case (Some b)
    then show ?thesis using commitAccount_existing(1) d id by metis
  qed
qed

lemma manager_ok_ApplyDiff:
  assumes m: "manager_ok m" and A: "ApplyDiff E slot rmc diffs destroyed m = Inr m'"
  shows "manager_ok m'"
proof -
  let ?I = "\<lambda>s :: (account_id \<rightharpoonup> account_data) \<times> (account_id \<rightharpoonup> account_diff option).
    \<forall>i a. fst s i = Some a \<longrightarrow> ad_id a = i"
  have slot: "slot = latestCommittedSlot m + 1" using A by (simp add: ApplyDiff_def split: if_splits)
  obtain D where D: "slotDiffs E m slot rmc diffs = Inr D" using A by (rule ApplyDiff_slotDiffs)
  obtain t P' m1 where c: "commitAccountTree E slot destroyed (accountsTree m, preservedDiffs m destroyed D) = Inr (t, P')"
    and st: "range_loop (storeSlotDiff slot destroyed P') (iterAccounts E (dom P')) (m\<lparr>accountsTree := t\<rparr>) = Inr m1"
    and m': "m' = evict (slot - MaxCommittableAge (apiForSlot E slot) - 1) (m1\<lparr>latestCommittedSlot := slot\<rparr>)"
    using A unfolding ApplyDiff_unfold [OF slot D] by (auto simp: go_result)
  have "?I (t, P')"
    using c unfolding commitAccountTree_def
  proof (rule range_loop_invariant)
    show "?I (accountsTree m, preservedDiffs m destroyed D)" using m by (simp add: manager_ok_def)
    fix i s s' assume I: "?I s" and f: "map_sum id (\<lambda>v. put_entry i v s)
      (commitTreeAccount E slot destroyed i (fst s i, snd s i)) = Inr s'"
    then obtain cur dif where v: "commitTreeAccount E slot destroyed i (fst s i, snd s i) = Inr (cur, dif)"
      "s' = put_entry i (cur, dif) s" by (auto simp: map_sum_def split: sum.splits)
    have "ad_id a = i" if "cur = Some a" for a
      using commitTreeAccount_id [OF v(1) that] I by blast
    then show "?I s'" using I by (simp add: v(2) put_entry_def)
  qed
  then have "manager_ok (m\<lparr>accountsTree := t\<rparr>)" using m by (intro manager_ok_upd_tree) simp_all
  with st have "manager_ok m1"
    by (rule range_loop_invariant) (auto simp: storeSlotDiff_def manager_ok_def go_result split: option.splits)
  then show ?thesis by (auto simp: m' evict_def manager_ok_def)
qed

lemma manager_ok_rollbackSlot:
  assumes m: "manager_ok m" and r: "rollbackSlot E slot del m = Inr m'"
  shows "manager_ok m'"
proof -
  let ?I = "\<lambda>t :: account_id \<rightharpoonup> account_data. \<forall>i a. t i = Some a \<longrightarrow> ad_id a = i"
  from r obtain s t where t: "range_loop (\<lambda>i tree. map_sum id (\<lambda>a. tree(i := a))
        (rollbackTreeAccount (math E) s i (tree i))) (iterAccounts E (dom (diffChangeStore s))) (accountsTree m) = Inr t"
    and m': "accountsTree m' = t" "latestSupportedVersionSignals m' = latestSupportedVersionSignals m"
    by (auto simp: rollbackSlot_def go_result)
  have "?I t"
    using t
  proof (rule range_loop_invariant)
    show "?I (accountsTree m)" using m by (simp add: manager_ok_def)
    fix i u u' assume I: "?I u" and "map_sum id (\<lambda>a. u(i := a)) (rollbackTreeAccount (math E) s i (u i)) = Inr u'"
    then obtain cur where v: "rollbackTreeAccount (math E) s i (u i) = Inr cur" "u' = u(i := cur)"
      by (auto simp: map_sum_def split: sum.splits)
    have "ad_id a = i" if "cur = Some a" for a
      using rollbackTreeAccount_id [OF v(1) [unfolded that]] I by blast
    then show "?I u'" using I by (simp add: v(2))
  qed
  then show ?thesis using m m' by (simp add: manager_ok_def)
qed

lemma manager_ok_rollbackFromTo:
  assumes "manager_ok m" "rollbackFromTo E fromSlot toSlot del m = Inr m'"
  shows "manager_ok m'"
  using assms(2) unfolding rollbackFromTo_def
  by (rule down_loop_invariant [where P = manager_ok, OF _ assms(1)]) (rule manager_ok_rollbackSlot)



end
