(* ===== verification/ManaManager.thy ===== *)
theory ManaManager
  imports AccountsLedger
begin

text \<open>
  The mana manager, \<^verbatim>\<open>engine/accounts/mana/manager.go\<close>: the mana of an account at a slot, from its credits,
  its output and the mana that the output generates, and the cache of these values that every commit
  refreshes.  The cache is bounded and may drop entries; the environment says how.
\<close>


section \<open>State\<close>

record mana_entry =
  mn_value :: mana
  mn_excessBaseTokens :: base_token
  mn_updateTime :: slot_index

type_synonym mana_cache = "account_id \<rightharpoonup> mana_entry"

text \<open>
  The environment: the protocol parameters, the checked arithmetic, the minimal deposit of an output and
  the creation slot in an output identifier (iota.go), the insertion into the cache of bounded size, and
  the two functions that the manager is constructed with.
\<close>

record mana_env =
  mn_apis :: "slot_index \<Rightarrow> api"
  mn_math :: safemath
  MinDeposit :: "slot_index \<Rightarrow> tx_output \<Rightarrow> base_token option"
  CreationSlot :: "output_id \<Rightarrow> slot_index"
  cachePut :: "account_id \<Rightarrow> mana_entry \<Rightarrow> mana_cache \<Rightarrow> mana_cache"
  mn_iterAccounts :: "account_id set \<Rightarrow> account_id list"
  accountOutputResolveFunc :: "account_id \<Rightarrow> slot_index \<Rightarrow> utxo_output option"
  accountRetrieveFunc :: "account_id \<Rightarrow> slot_index \<Rightarrow> ledger_error + account_data option"

text \<open>The cache holds what was put last; to make room it may drop other entries.\<close>

definition cache_ok :: "mana_env \<Rightarrow> bool" where
  "cache_ok E \<longleftrightarrow> (\<forall>k v c. cachePut E k v c k = Some v \<and> (\<forall>j. j \<noteq> k \<longrightarrow> cachePut E k v c j = c j \<or> cachePut E k v c j = None))"

datatype mana_error =
    OutputNotResolved account_id slot_index
  | AccountNotRetrieved account_id slot_index
  | PanicMinDeposit
  | LaterThanRequested account_id slot_index
  | ManaDecayFailed account_id
  | ManaOverflow account_id

section \<open>Operations\<close>

definition getBIC :: "mana_env \<Rightarrow> account_id \<Rightarrow> slot_index \<Rightarrow> mana_error + (mana \<times> slot_index)" where
  "getBIC E accountID slot =
     (case accountRetrieveFunc E accountID slot of
        Inr (Some accountBIC) \<Rightarrow>
          if sint (cr_value (ad_credits accountBIC)) \<le> 0 then Inr (0, 0)
          else Inr (cr_value (ad_credits accountBIC), cr_updateSlot (ad_credits accountBIC))
      | _ \<Rightarrow> Inl (AccountNotRetrieved accountID slot))"

definition getMana :: "mana_env \<Rightarrow> account_id \<Rightarrow> utxo_output \<Rightarrow> slot_index \<Rightarrow> mana_error + mana_entry" where
  "getMana E accountID out slot =
     and_then (getBIC E accountID slot) (\<lambda>(bic, bicUpdateTime).
     and_then (or_err PanicMinDeposit (MinDeposit E slot (uo_output out))) (\<lambda>minDeposit.
       let params = mn_apis E slot;
           storedMana = StoredMana (uo_output out);
           slotCreated = CreationSlot E (uo_outputID out);
           excessBaseTokens = (case sub_u64 (mn_math E) (BaseTokenAmount (uo_output out)) minDeposit of None \<Rightarrow> 0 | Some x \<Rightarrow> x);
           overflow = ManaOverflow accountID;
           decay = ManaDecayFailed accountID
       in if slotCreated > slot \<or> bicUpdateTime > slot then Inl (LaterThanRequested accountID slot)
          else if bicUpdateTime > slotCreated then
            and_then (or_err decay (GenerateManaAndDecayBySlots params excessBaseTokens slotCreated bicUpdateTime)) (\<lambda>manaPotential.
            and_then (or_err decay (DecayManaBySlots params storedMana slotCreated bicUpdateTime)) (\<lambda>manaStored.
            and_then (or_err overflow (add_u64 (mn_math E) manaStored manaPotential)) (\<lambda>manaStoredPotential.
            and_then (or_err overflow (add_u64 (mn_math E) bic manaStoredPotential)) (\<lambda>totalMana.
              Inr \<lparr>mn_value = totalMana, mn_excessBaseTokens = excessBaseTokens, mn_updateTime = bicUpdateTime\<rparr>))))
          else if slotCreated > bicUpdateTime then
            and_then (or_err decay (DecayManaBySlots params bic bicUpdateTime slotCreated)) (\<lambda>bicWithDecay.
            and_then (or_err overflow (add_u64 (mn_math E) bicWithDecay storedMana)) (\<lambda>totalMana.
              Inr \<lparr>mn_value = totalMana, mn_excessBaseTokens = excessBaseTokens, mn_updateTime = slotCreated\<rparr>))
          else
            and_then (or_err overflow (add_u64 (mn_math E) bic storedMana)) (\<lambda>totalMana.
              Inr \<lparr>mn_value = totalMana, mn_excessBaseTokens = excessBaseTokens, mn_updateTime = slotCreated\<rparr>)))"

text \<open>The value of an entry at a later slot.\<close>

definition manaAt :: "mana_env \<Rightarrow> account_id \<Rightarrow> mana_entry \<Rightarrow> slot_index \<Rightarrow> mana_error + mana" where
  "manaAt E accountID entry slot =
     (if slot = mn_updateTime entry then Inr (mn_value entry)
      else
        and_then (or_err (ManaDecayFailed accountID)
            (DecayManaBySlots (mn_apis E slot) (mn_value entry) (mn_updateTime entry) slot)) (\<lambda>manaWithDecay.
        and_then (or_err (ManaDecayFailed accountID)
            (GenerateManaAndDecayBySlots (mn_apis E slot) (mn_excessBaseTokens entry) (mn_updateTime entry) slot)) (\<lambda>manaPotential.
          or_err (ManaOverflow accountID) (add_u64 (mn_math E) manaWithDecay manaPotential))))"

text \<open>The result is the cache, which may change also when the call fails, and the mana or the error.\<close>

definition GetManaOnAccount :: "mana_env \<Rightarrow> account_id \<Rightarrow> slot_index \<Rightarrow> mana_cache \<Rightarrow> mana_cache \<times> (mana_error + mana)" where
  "GetManaOnAccount E accountID slot cache =
     (case cache accountID of
        Some entry \<Rightarrow>
          if mn_updateTime entry > slot then
            (cache,
             and_then (or_err (OutputNotResolved accountID slot) (accountOutputResolveFunc E accountID slot)) (\<lambda>out.
             and_then (getMana E accountID out slot) (\<lambda>entry. manaAt E accountID entry slot)))
          else (cache, manaAt E accountID entry slot)
      | None \<Rightarrow>
          (case accountOutputResolveFunc E accountID slot of
             None \<Rightarrow> (cache, Inl (OutputNotResolved accountID slot))
           | Some out \<Rightarrow>
               (case getMana E accountID out slot of
                  Inl e \<Rightarrow> (cache, Inl e)
                | Inr entry \<Rightarrow> (cachePut E accountID entry cache, manaAt E accountID entry slot))))"

text \<open>The output with which the entry of an account is recomputed, if there is one: one diff of the loop of \<^verbatim>\<open>ApplyDiff\<close>.\<close>

definition changedOutput ::
  "mana_env \<Rightarrow> slot_index \<Rightarrow> (account_id \<rightharpoonup> utxo_output) \<Rightarrow> (account_id \<rightharpoonup> account_diff) \<Rightarrow> account_id \<Rightarrow> mana_error + utxo_output option" where
  "changedOutput E slot accountOutputs accountDiffs accountID =
     (case accountOutputs accountID of
        Some out \<Rightarrow> Inr (Some out)
      | None \<Rightarrow>
          if (case accountDiffs accountID of None \<Rightarrow> 0 | Some d \<Rightarrow> BICChange d) \<noteq> 0 then
            map_sum id Some (or_err (OutputNotResolved accountID slot) (accountOutputResolveFunc E accountID slot))
          else Inr None)"

definition refreshEntry ::
  "mana_env \<Rightarrow> slot_index \<Rightarrow> (account_id \<rightharpoonup> utxo_output) \<Rightarrow> (account_id \<rightharpoonup> account_diff) \<Rightarrow> account_id \<Rightarrow> mana_cache \<Rightarrow> mana_error + mana_cache" where
  "refreshEntry E slot accountOutputs accountDiffs accountID cache =
     (if cache accountID = None then Inr cache
      else
        and_then (changedOutput E slot accountOutputs accountDiffs accountID) (\<lambda>accountOutput.
          case accountOutput of
            None \<Rightarrow> Inr cache
          | Some out \<Rightarrow> and_then (getMana E accountID out slot) (\<lambda>entry. Inr (cachePut E accountID entry cache))))"

definition Mana_ApplyDiff ::
  "mana_env \<Rightarrow> slot_index \<Rightarrow> account_id set \<Rightarrow> (account_id \<rightharpoonup> utxo_output) \<Rightarrow> (account_id \<rightharpoonup> account_diff) \<Rightarrow> mana_cache
     \<Rightarrow> mana_error + mana_cache" where
  "Mana_ApplyDiff E slot destroyed accountOutputs accountDiffs cache =
     range_loop (refreshEntry E slot accountOutputs accountDiffs) (mn_iterAccounts E (dom accountDiffs))
       (fold (\<lambda>accountID cache. cache(accountID := None)) (mn_iterAccounts E destroyed) cache)"

section \<open>The cache after a commit\<close>

text \<open>What a cached entry must be after the commit of a slot.\<close>

definition entry_current ::
  "mana_env \<Rightarrow> slot_index \<Rightarrow> (account_id \<rightharpoonup> utxo_output) \<Rightarrow> (account_id \<rightharpoonup> account_diff) \<Rightarrow> mana_cache \<Rightarrow> account_id \<Rightarrow> mana_entry \<Rightarrow> bool" where
  "entry_current E slot outs ds c i entry \<longleftrightarrow>
     (case changedOutput E slot outs ds i of
        Inr (Some out) \<Rightarrow> getMana E i out slot = Inr entry
      | Inr None \<Rightarrow> c i = Some entry
      | Inl e \<Rightarrow> False)"

lemma cache_put:
  assumes "cache_ok E"
  shows "cachePut E k v c k = Some v" "j \<noteq> k \<longrightarrow> cachePut E k v c j = c j \<or> cachePut E k v c j = None"
  using assms [unfolded cache_ok_def, rule_format, of k v c] by simp_all

lemma refreshEntry_current:
  assumes "cache_ok E" "refreshEntry E slot outs ds i c = Inr c'"
  shows "c' i = Some entry \<Longrightarrow> entry_current E slot outs ds c i entry" "j \<noteq> i \<Longrightarrow> c' j = c j \<or> c' j = None"
proof -
  have "(c' = c \<and> (c i = None \<or> changedOutput E slot outs ds i = Inr None)) \<or>
    (\<exists>out e. changedOutput E slot outs ds i = Inr (Some out) \<and> getMana E i out slot = Inr e \<and> c' = cachePut E i e c)"
  proof (cases "c i = None")
    case False
    then obtain y where y: "c i = Some y" by blast
    obtain a where a: "changedOutput E slot outs ds i = Inr a"
      "(case a of None \<Rightarrow> Inr c | Some out \<Rightarrow> and_then (getMana E i out slot) (\<lambda>entry. Inr (cachePut E i entry c))) = Inr c'"
      using assms(2) y unfolding refreshEntry_def by (cases "changedOutput E slot outs ds i") simp_all
    show ?thesis
    proof (cases a)
      case None
      then show ?thesis using a by simp
    next
      case (Some out)
      then have "\<exists>e. getMana E i out slot = Inr e \<and> c' = cachePut E i e c" using a(2) by (cases "getMana E i out slot") simp_all
      then show ?thesis using a(1) Some by blast
    qed
  qed (use assms(2) in \<open>simp add: refreshEntry_def\<close>)
  then consider "c' = c" "c i = None \<or> changedOutput E slot outs ds i = Inr None"
    | out e where "changedOutput E slot outs ds i = Inr (Some out)" "getMana E i out slot = Inr e" "c' = cachePut E i e c" by blast
  then have "(c' i = Some entry \<longrightarrow> entry_current E slot outs ds c i entry) \<and> (j \<noteq> i \<longrightarrow> c' j = c j \<or> c' j = None)"
  proof cases
    case 1
    then show ?thesis by (auto simp: entry_current_def)
  next
    case 2
    have put: "c' i = Some e" "j \<noteq> i \<longrightarrow> c' j = c j \<or> c' j = None" unfolding 2(3) by (rule cache_put [OF assms(1)])+
    have "c' i = Some entry \<longrightarrow> entry_current E slot outs ds c i entry" using put(1) 2(1,2) by (simp add: entry_current_def)
    then show ?thesis using put(2) by blast
  qed
  note current = this
  show "entry_current E slot outs ds c i entry" if "c' i = Some entry" by (rule mp [OF conjunct1 [OF current] that])
  show "c' j = c j \<or> c' j = None" if "j \<noteq> i" by (rule mp [OF conjunct2 [OF current] that])
qed

lemma refresh_loop:
  assumes "cache_ok E" "range_loop (refreshEntry E slot outs ds) ks c = Inr c'" "distinct ks"
  shows "(\<forall>i\<in>set ks. \<forall>entry. c' i = Some entry \<longrightarrow> entry_current E slot outs ds c i entry) \<and>
    (\<forall>j. j \<notin> set ks \<longrightarrow> c' j = c j \<or> c' j = None) \<and> (\<forall>j. c j = None \<longrightarrow> c' j = None)"
  using assms(2,3)
proof (induction ks arbitrary: c)
  case (Cons i ks)
  then obtain c1 where c1: "refreshEntry E slot outs ds i c = Inr c1" "range_loop (refreshEntry E slot outs ds) ks c1 = Inr c'"
    by (auto simp: go_result)
  note r = refreshEntry_current [OF assms(1) c1(1)]
  have IH: "\<forall>j\<in>set ks. \<forall>entry. c' j = Some entry \<longrightarrow> entry_current E slot outs ds c1 j entry"
    "\<forall>j. j \<notin> set ks \<longrightarrow> c' j = c1 j \<or> c' j = None" "\<forall>j. c1 j = None \<longrightarrow> c' j = None"
    using Cons(1) [OF c1(2)] Cons(3) by auto
  have none: "c1 j = None" if "c j = None" for j
  proof (cases "j = i")
    case True
    then show ?thesis using c1(1) that by (auto simp: refreshEntry_def)
  next
    case False
    then show ?thesis using r(2) [of j] that by auto
  qed
  have other: "entry_current E slot outs ds c j entry" if "j \<noteq> i" "entry_current E slot outs ds c1 j entry" for j entry
    using that r(2) [of j] by (auto simp: entry_current_def split: sum.splits option.splits)
  have "entry_current E slot outs ds c i entry" if "c' i = Some entry" for entry
    using IH(2) Cons(3) that r(1) by (metis distinct.simps(2) option.distinct(1))
  moreover have "\<forall>j. j \<notin> set (i # ks) \<longrightarrow> c' j = c j \<or> c' j = None" using IH(2) r(2) by (metis list.set_intros(1,2))
  moreover have "i \<notin> set ks" using Cons(3) by simp
  ultimately show ?case using IH other none by (metis set_ConsD)
qed simp


definition demo_mana_env :: mana_env where
  "demo_mana_env =
     \<lparr>mn_apis = (\<lambda>_. demo_api), mn_math = checked_math, MinDeposit = (\<lambda>_ _. Some 10), CreationSlot = (\<lambda>_. 1),
      cachePut = (\<lambda>k v c. c(k \<mapsto> v)), mn_iterAccounts = sorted_list_of_set,
      accountOutputResolveFunc = (\<lambda>_ _. None), accountRetrieveFunc = (\<lambda>i _. Inr (Some (demo_account i)))\<rparr>"

definition demo_mana_output :: utxo_output where
  "demo_mana_output =
     \<lparr>uo_outputID = 71, uo_blockID = \<lparr>bid_hash = 1, bid_slot = 1\<rparr>, uo_slotBooked = 1,
      uo_output = \<lparr>BaseTokenAmount = 30, StoredMana = 5, out_kind = OutputOther\<rparr>\<rparr>"


end
