(* ===== verification/ReferenceManaCost.thy ===== *)
theory ReferenceManaCost
  imports AccountData
begin

text \<open>
  The reference mana cost: \<^verbatim>\<open>congestioncontrol/rmc/rmc.go\<close>.  \<open>rmc_manager\<close> is the state of the Go type
  \<^verbatim>\<open>Manager\<close>; the stored commitments are a parameter of the operations that load them, and part of
  the state in the step relation \<open>rmc_step\<close>.  The lemmas show how the cost of a slot follows from the
  work accepted in it and that the cached costs agree with the commitments.
\<close>


record rmc_manager =
  slotWork :: "slot_index \<rightharpoonup> work_score"
  rmc :: "slot_index \<rightharpoonup> mana"
  rm_latestCommittedSlot :: slot_index

datatype rmc_error =
    SlotAlreadyCommitted slot_index
  | CommitmentNotLoaded slot_index
  | RMCCalculation slot_index
  | RMCNotCreated slot_index
  | SlotNotCommittedYet slot_index
  | SlotEvicted slot_index

text \<open>
  The commitment loader is read only for the reference mana cost of the commitment; None is a
  commitment that cannot be loaded.
\<close>

type_synonym commitments = "slot_index \<rightharpoonup> mana"

definition NewManager :: rmc_manager where
  "NewManager = \<lparr>slotWork = Map.empty, rmc = Map.empty, rm_latestCommittedSlot = 0\<rparr>"

definition RMC_SetLatestCommittedSlot :: "slot_index \<Rightarrow> rmc_manager \<Rightarrow> rmc_manager" where
  "RMC_SetLatestCommittedSlot index m = m\<lparr>rm_latestCommittedSlot := index\<rparr>"

definition RMC_Reset :: "rmc_manager \<Rightarrow> rmc_manager" where
  "RMC_Reset m =
     m\<lparr>slotWork := Map.empty,
       rmc := (\<lambda>index. if rm_latestCommittedSlot m < index then None else rmc m index)\<rparr>"

definition BlockAccepted :: "block \<Rightarrow> rmc_manager \<Rightarrow> rmc_error + rmc_manager" where
  "BlockAccepted b m =
     (let slot = bid_slot (blk_ID b)
      in if slot \<le> rm_latestCommittedSlot m then Inl (SlotAlreadyCommitted slot)
         else Inr (m\<lparr>slotWork := (slotWork m)(slot \<mapsto>
                (case slotWork m slot of None \<Rightarrow> 0 | Some w \<Rightarrow> w) + blk_WorkScore b)\<rparr>))"

definition newRMC :: "safemath \<Rightarrow> api \<Rightarrow> mana \<Rightarrow> work_score \<Rightarrow> mana option" where
  "newRMC sm params lastRMC currentSlotWork =
     (if currentSlotWork < RMCDecreaseThreshold params \<and> lastRMC > MinReferenceManaCost params then
        map_option (\<lambda>r. max r (MinReferenceManaCost params)) (sub_u64 sm lastRMC (RMCDecrease params))
      else if currentSlotWork > RMCIncreaseThreshold params then
        add_u64 sm lastRMC (RMCIncrease params)
      else Some lastRMC)"

definition RMC_CommitSlot ::
  "safemath \<Rightarrow> (slot_index \<Rightarrow> api) \<Rightarrow> commitments \<Rightarrow> slot_index \<Rightarrow> rmc_manager \<Rightarrow> rmc_error + mana \<times> rmc_manager" where
  "RMC_CommitSlot sm apis commitmentLoader index m =
     (if index \<le> rm_latestCommittedSlot m then Inl (SlotAlreadyCommitted index)
      else
        and_then (or_err (CommitmentNotLoaded (index - 1)) (commitmentLoader (index - 1))) (\<lambda>lastRMC.
        let currentSlotWork = (case slotWork m index of None \<Rightarrow> 0 | Some w \<Rightarrow> w) in
        and_then (or_err (RMCCalculation index) (newRMC sm (apis index) lastRMC currentSlotWork)) (\<lambda>new.
          if rmc m index \<noteq> None then Inl (RMCNotCreated index)
          else
            let m = m\<lparr>rmc := (rmc m)(index \<mapsto> new)\<rparr>;
                m = m\<lparr>slotWork := (slotWork m)(index := None)\<rparr>;
                maxCommittableAge = MaxCommittableAge (apis index);
                m = (if index > maxCommittableAge
                     then m\<lparr>rmc := (rmc m)(index - maxCommittableAge := None)\<rparr> else m)
            in Inr (new, m\<lparr>rm_latestCommittedSlot := index\<rparr>))))"

definition RMC ::
  "(slot_index \<Rightarrow> api) \<Rightarrow> commitments \<Rightarrow> slot_index \<Rightarrow> rmc_manager \<Rightarrow> rmc_error + mana" where
  "RMC apis commitmentLoader slot m =
     (if slot > rm_latestCommittedSlot m then Inl (SlotNotCommittedYet slot)
      else if slot + MaxCommittableAge (apis slot) < rm_latestCommittedSlot m then Inl (SlotEvicted slot)
      else case rmc m slot of
             Some r \<Rightarrow> Inr r
           | None \<Rightarrow> or_err (CommitmentNotLoaded slot) (commitmentLoader slot))"

section \<open>The new cost\<close>

lemma newRMC_range:
  assumes "safemath_ok sm" "newRMC sm p lastRMC work = Some new" "MinReferenceManaCost p \<le> lastRMC"
  shows "MinReferenceManaCost p \<le> new"
proof -
  note cases = assms(2) [unfolded newRMC_def]
  consider (dec) "work < RMCDecreaseThreshold p \<and> lastRMC > MinReferenceManaCost p"
    | (inc) "\<not> (work < RMCDecreaseThreshold p \<and> lastRMC > MinReferenceManaCost p)" "work > RMCIncreaseThreshold p"
    | (keep) "\<not> (work < RMCDecreaseThreshold p \<and> lastRMC > MinReferenceManaCost p)" "\<not> work > RMCIncreaseThreshold p"
    by blast
  then show ?thesis
  proof cases
    case dec
    then show ?thesis using cases by (auto simp: max_def split: if_splits)
  next
    case inc
    then have "add_u64 sm lastRMC (RMCIncrease p) = Some new" using cases by auto
    then have "unat new = unat lastRMC + unat (RMCIncrease p)" using add_u64_fits [OF assms(1)] by blast
    then show ?thesis using assms(3) by (simp add: word_le_nat_alt)
  next
    case keep
    then show ?thesis using cases assms(3) by auto
  qed
qed

section \<open>Committing slots\<close>

text \<open>
  The manager together with the stored commitments.  The node stores the commitment of a slot with
  the cost that \<^verbatim>\<open>CommitSlot\<close> returned for it.
\<close>

inductive rmc_step :: "safemath \<Rightarrow> (slot_index \<Rightarrow> api) \<Rightarrow> rmc_manager \<times> commitments \<Rightarrow> rmc_manager \<times> commitments \<Rightarrow> bool"
  for sm :: safemath and apis :: "slot_index \<Rightarrow> api" where
  accept: "BlockAccepted b m = Inr m' \<Longrightarrow> rmc_step sm apis (m, cs) (m', cs)"
| commit: "RMC_CommitSlot sm apis cs (rm_latestCommittedSlot m + 1) m = Inr (new, m') \<Longrightarrow>
    rmc_step sm apis (m, cs) (m', cs(rm_latestCommittedSlot m + 1 \<mapsto> new))"
| reset: "rmc_step sm apis (m, cs) (RMC_Reset m, cs)"

inductive_cases rmc_stepE: "rmc_step sm apis s t"

definition rmc_ok :: "(slot_index \<Rightarrow> api) \<Rightarrow> mana \<Rightarrow> rmc_manager \<times> commitments \<Rightarrow> bool" where
  "rmc_ok apis minimum = (\<lambda>(m, cs).
     (\<forall>s v. rmc m s = Some v \<longrightarrow> s \<le> rm_latestCommittedSlot m \<and> cs s = Some v) \<and>
     (\<forall>s v. cs s = Some v \<longrightarrow> s \<le> rm_latestCommittedSlot m \<and> minimum \<le> v) \<and>
     (\<forall>s w. slotWork m s = Some w \<longrightarrow> rm_latestCommittedSlot m < s))"

lemma RMC_CommitSlot_Inr:
  assumes "RMC_CommitSlot sm apis cs index m = Inr (new, m')"
  shows "rm_latestCommittedSlot m < index" "rm_latestCommittedSlot m' = index" "rmc m index = None"
    "slotWork m' = (slotWork m)(index := None)" "rmc m' \<subseteq>\<^sub>m (rmc m)(index \<mapsto> new)"
    "\<exists>lastRMC. cs (index - 1) = Some lastRMC \<and>
       newRMC sm (apis index) lastRMC (case slotWork m index of None \<Rightarrow> 0 | Some w \<Rightarrow> w) = Some new"
proof -
  obtain lastRMC where l: "cs (index - 1) = Some lastRMC"
    "newRMC sm (apis index) lastRMC (case slotWork m index of None \<Rightarrow> 0 | Some w \<Rightarrow> w) = Some new"
    "rm_latestCommittedSlot m < index" "rmc m index = None"
    using assms by (auto simp: RMC_CommitSlot_def go_result Let_def not_le split: if_splits)
  then show "rm_latestCommittedSlot m < index" "rmc m index = None"
    "\<exists>lastRMC. cs (index - 1) = Some lastRMC \<and>
       newRMC sm (apis index) lastRMC (case slotWork m index of None \<Rightarrow> 0 | Some w \<Rightarrow> w) = Some new" by blast+
  show "rm_latestCommittedSlot m' = index" "slotWork m' = (slotWork m)(index := None)" "rmc m' \<subseteq>\<^sub>m (rmc m)(index \<mapsto> new)"
    using assms l by (auto simp: RMC_CommitSlot_def Let_def map_le_def split: if_splits)
qed

lemma rmc_ok_step:
  assumes "safemath_ok sm" "\<And>s. MinReferenceManaCost (apis s) = minimum"
    and "rmc_step sm apis s t" "rmc_ok apis minimum s"
  shows "rmc_ok apis minimum t"
  using assms(3)
proof (cases rule: rmc_step.cases)
  case (accept b m m' cs)
  then show ?thesis using assms(4)
    by (auto simp: rmc_ok_def BlockAccepted_def Let_def not_le split: if_splits)
next
  case (reset m cs)
  then show ?thesis using assms(4) by (auto simp: rmc_ok_def RMC_Reset_def split: if_splits)
next
  case (commit cs m new m')
  let ?l = "rm_latestCommittedSlot m"
  note c = RMC_CommitSlot_Inr [OF commit(3)]
  have ok: "\<And>s v. rmc m s = Some v \<Longrightarrow> s \<le> ?l \<and> cs s = Some v" "\<And>s v. cs s = Some v \<Longrightarrow> s \<le> ?l \<and> minimum \<le> v"
    "\<And>s w. slotWork m s = Some w \<Longrightarrow> ?l < s" using assms(4) commit(1) by (auto simp: rmc_ok_def)
  obtain lastRMC where l: "cs ?l = Some lastRMC"
    "newRMC sm (apis (?l + 1)) lastRMC (case slotWork m (?l + 1) of None \<Rightarrow> 0 | Some w \<Rightarrow> w) = Some new"
    using c(6) by auto
  have new: "minimum \<le> new" using newRMC_range [OF assms(1) l(2)] ok(2) [OF l(1)] assms(2) by simp
  have cache: "s \<noteq> ?l + 1 \<and> rmc m s = Some v \<or> s = ?l + 1 \<and> v = new" if "rmc m' s = Some v" for s v
  proof -
    have "((rmc m)(?l + 1 \<mapsto> new)) s = Some v" using c(5) that unfolding map_le_def by force
    then show ?thesis by (auto split: if_splits)
  qed
  have above: "?l < s \<and> s \<noteq> ?l + 1 \<longleftrightarrow> ?l + 1 < s" for s
  proof -
    have "?l \<noteq> - 1" using c(1) by auto
    then have "?l + 1 \<le> s \<longleftrightarrow> ?l < s" by (rule succ_le_iff)
    then show ?thesis by auto
  qed
  have below: "s \<le> ?l + 1" if "s \<le> ?l" for s using that c(1) by simp
  have "s \<le> ?l + 1 \<and> (cs(?l + 1 \<mapsto> new)) s = Some v" if "rmc m' s = Some v" for s v
    using cache [OF that] ok(1) below by auto
  moreover have "s \<le> ?l + 1 \<and> minimum \<le> v" if "(cs(?l + 1 \<mapsto> new)) s = Some v" for s v
    using that ok(2) new below by (auto split: if_splits)
  moreover have "?l + 1 < s" if "((slotWork m)(?l + 1 := None)) s = Some w" for s w
    using that ok(3) above by (auto split: if_splits)
  ultimately show ?thesis unfolding commit(2) rmc_ok_def prod.case c(2,4) by blast
qed

inductive rmc_reachable :: "safemath \<Rightarrow> (slot_index \<Rightarrow> api) \<Rightarrow> rmc_manager \<times> commitments \<Rightarrow> rmc_manager \<times> commitments \<Rightarrow> bool"
  for sm :: safemath and apis :: "slot_index \<Rightarrow> api" and s :: "rmc_manager \<times> commitments" where
  start: "rmc_reachable sm apis s s"
| step: "rmc_reachable sm apis s t \<Longrightarrow> rmc_step sm apis t u \<Longrightarrow> rmc_reachable sm apis s u"

lemma rmc_ok_reachable:
  assumes "rmc_reachable sm apis s t" "safemath_ok sm" "\<And>s. MinReferenceManaCost (apis s) = minimum" "rmc_ok apis minimum s"
  shows "rmc_ok apis minimum t"
  using assms(1)
proof (induction rule: rmc_reachable.induct)
  case start
  show ?case by (fact assms(4))
next
  case (step t u)
  show ?case by (rule rmc_ok_step [OF assms(2,3) step.hyps(2) step.IH])
qed

text \<open>The state after a snapshot is loaded: nothing cached, commitments up to the latest slot.\<close>

definition rmc_start :: "commitments \<Rightarrow> slot_index \<Rightarrow> rmc_manager \<times> commitments" where
  "rmc_start cs slot = (RMC_SetLatestCommittedSlot slot NewManager, cs)"

text \<open>
  C24. However blocks are accepted, slots committed and the manager reset, the reference mana cost
  that it reports for a slot is the one in the stored commitment of that slot, whether it is cached
  or not, and it never falls below the protocol's minimum.
\<close>

theorem RMC_is_committed_cost:
  assumes "safemath_ok sm" "\<And>s. MinReferenceManaCost (apis s) = minimum"
    and "\<And>s v. cs s = Some v \<Longrightarrow> s \<le> slot \<and> minimum \<le> v"
    and "rmc_reachable sm apis (rmc_start cs slot) (m, cs')" "RMC apis cs' i m = Inr v"
  shows "cs' i = Some v \<and> minimum \<le> v"
proof -
  have "rmc_ok apis minimum (rmc_start cs slot)"
    using assms(3) by (simp add: rmc_ok_def rmc_start_def NewManager_def RMC_SetLatestCommittedSlot_def)
  then have "rmc_ok apis minimum (m, cs')" by (rule rmc_ok_reachable [OF assms(4,1,2)])
  then have ok: "\<And>s v. rmc m s = Some v \<Longrightarrow> cs' s = Some v" "\<And>s v. cs' s = Some v \<Longrightarrow> minimum \<le> v"
    by (auto simp: rmc_ok_def)
  have "cs' i = Some v"
    using assms(5) ok(1) by (cases "rmc m i"; cases "cs' i") (auto simp: RMC_def split: if_splits)
  then show ?thesis using ok(2) by blast
qed

lemma BlockAccepted_work:
  assumes "range_loop BlockAccepted bs m = Inr m'" "\<forall>b\<in>set bs. bid_slot (blk_ID b) = index"
  shows "rm_latestCommittedSlot m' = rm_latestCommittedSlot m \<and> rmc m' = rmc m \<and>
    (case slotWork m' index of None \<Rightarrow> 0 | Some w \<Rightarrow> w) =
    (case slotWork m index of None \<Rightarrow> 0 | Some w \<Rightarrow> w) + sum_list (map blk_WorkScore bs)"
  using assms
proof (induction bs arbitrary: m)
  case Nil
  then show ?case by simp
next
  case (Cons b bs)
  then obtain m1 where m1: "BlockAccepted b m = Inr m1" "range_loop BlockAccepted bs m1 = Inr m'" by (auto simp: go_result)
  then have "rm_latestCommittedSlot m1 = rm_latestCommittedSlot m" "rmc m1 = rmc m"
    "slotWork m1 index = Some ((case slotWork m index of None \<Rightarrow> 0 | Some w \<Rightarrow> w) + blk_WorkScore b)"
    using Cons.prems(2) by (auto simp: BlockAccepted_def Let_def split: if_splits)
  then show ?case using Cons.IH [OF m1(2)] Cons.prems(2) by simp
qed

text \<open>The cost in exact arithmetic; None is a failed commit.\<close>

definition nextCost :: "api \<Rightarrow> mana \<Rightarrow> work_score \<Rightarrow> nat option" where
  "nextCost p lastRMC work =
    (if work < RMCDecreaseThreshold p \<and> MinReferenceManaCost p < lastRMC then
       if unat (RMCDecrease p) \<le> unat lastRMC
       then Some (max (unat lastRMC - unat (RMCDecrease p)) (unat (MinReferenceManaCost p))) else None
     else if RMCIncreaseThreshold p < work then
       if unat lastRMC + unat (RMCIncrease p) < 2 ^ 64 then Some (unat lastRMC + unat (RMCIncrease p)) else None
     else Some (unat lastRMC))"

lemma newRMC_nextCost:
  assumes sm: "safemath_ok sm"
  shows "map_option unat (newRMC sm p lastRMC work) = nextCost p lastRMC work"
proof -
  have "map_option unat (map_option (\<lambda>r. max r (MinReferenceManaCost p)) (sub_u64 sm lastRMC (RMCDecrease p))) =
    (if unat (RMCDecrease p) \<le> unat lastRMC
     then Some (max (unat lastRMC - unat (RMCDecrease p)) (unat (MinReferenceManaCost p))) else None)"
    using sub_u64_fits [OF sm, of "RMCDecrease p" lastRMC] sm
    by (cases "unat (RMCDecrease p) \<le> unat lastRMC") (simp_all add: max_def word_le_nat_alt safemath_laws)
  moreover have "map_option unat (add_u64 sm lastRMC (RMCIncrease p)) =
    (if unat lastRMC + unat (RMCIncrease p) < 2 ^ 64 then Some (unat lastRMC + unat (RMCIncrease p)) else None)"
    using add_u64_fits [OF sm, of lastRMC "RMCIncrease p"] by (cases "add_u64 sm lastRMC (RMCIncrease p)") auto
  ultimately show ?thesis by (simp only: newRMC_def nextCost_def if_distrib [of "map_option unat"] option.map)
qed

text \<open>
  C20. The new cost of a slot depends on the total work of the blocks accepted in it: below the
  lower threshold it decreases, but not below the minimum; above the upper threshold it increases;
  otherwise it stays.  Committing fails when the decrement is larger than the current cost, although
  the minimum would be the result, and when the increment overflows.
\<close>

theorem RMC_CommitSlot_cost:
  assumes "safemath_ok sm" "range_loop BlockAccepted bs m = Inr m'" "\<forall>b\<in>set bs. bid_slot (blk_ID b) = index"
    and "slotWork m index = None" "rmc m index = None" "rm_latestCommittedSlot m < index" "cs (index - 1) = Some lastRMC"
  shows "(case RMC_CommitSlot sm apis cs index m' of Inl _ \<Rightarrow> None | Inr (new, _) \<Rightarrow> Some (unat new)) =
    nextCost (apis index) lastRMC (sum_list (map blk_WorkScore bs))"
proof -
  let ?work = "sum_list (map blk_WorkScore bs)"
  have w: "(case slotWork m' index of None \<Rightarrow> 0 | Some w \<Rightarrow> w) = ?work"
    "rm_latestCommittedSlot m' < index" "rmc m' index = None"
    using BlockAccepted_work [OF assms(2,3)] assms(4-6) by simp_all
  have "(case RMC_CommitSlot sm apis cs index m' of Inl _ \<Rightarrow> None | Inr (new, _) \<Rightarrow> Some (unat new)) =
      map_option unat (newRMC sm (apis index) lastRMC ?work)"
    using w assms(7) by (cases "newRMC sm (apis index) lastRMC ?work") (simp_all add: RMC_CommitSlot_def Let_def not_le [symmetric])
  then show ?thesis by (simp only: newRMC_nextCost [OF assms(1)])
qed

text \<open>Concrete parameters: a decrement of 5 with a minimum of 1.\<close>

definition demo_rmc_api :: "slot_index \<Rightarrow> api" where
  "demo_rmc_api _ = \<lparr>GenesisSlot = 0, MaxCommittableAge = 20, ValidationBlocksPerSlot = 10, PunishmentEpochs = 9,
     EpochDurationSlots = 8192, SlotsPerEpochExponent = 13, MinReferenceManaCost = 1, RMCIncrease = 1,
     RMCDecrease = 5, RMCIncreaseThreshold = 800, RMCDecreaseThreshold = 500, EpochFromSlot = (\<lambda>_. 0),
     DecayManaBySlots = (\<lambda>m _ _. Some m), GenerateManaAndDecayBySlots = (\<lambda>_ _ _. Some 0)\<rparr>"

theorem RMC_CommitSlot_cost_witness:
  "(case RMC_CommitSlot checked_math demo_rmc_api [0 \<mapsto> 3] 1 NewManager of Inl _ \<Rightarrow> None | Inr (new, _) \<Rightarrow> Some (unat new)) = None"
  using RMC_CommitSlot_cost [of checked_math "[]" NewManager NewManager 1 "[0 \<mapsto> 3]" 3 demo_rmc_api]
  by (simp add: NewManager_def nextCost_def demo_rmc_api_def)

theorem RMC_is_committed_cost_witness:
  "\<exists>m. RMC demo_rmc_api [0 \<mapsto> 9, 1 \<mapsto> 4] 1 m = Inr 4 \<and>
     rmc_reachable checked_math demo_rmc_api (rmc_start [0 \<mapsto> 9] 0) (m, [0 \<mapsto> 9, 1 \<mapsto> 4]) \<and> [0 \<mapsto> 9, 1 \<mapsto> 4] (1 :: slot_index) = Some (4 :: mana)"
proof -
  let ?m0 = "RMC_SetLatestCommittedSlot 0 NewManager"
  define m where "m = \<lparr>slotWork = (\<lambda>_. None)(1 := None), rmc = [1 \<mapsto> 4], rm_latestCommittedSlot = 1\<rparr>"
  have sub: "sub_u64 checked_math 9 5 = Some 4" by (simp add: checked_math_def)
  have "RMC_CommitSlot checked_math demo_rmc_api [0 \<mapsto> 9] (rm_latestCommittedSlot ?m0 + 1) ?m0 = Inr (4, m)"
    by (simp add: RMC_CommitSlot_def RMC_SetLatestCommittedSlot_def NewManager_def newRMC_def demo_rmc_api_def sub m_def)
  then have "rmc_step checked_math demo_rmc_api (rmc_start [0 \<mapsto> 9] 0) (m, [0 \<mapsto> 9](rm_latestCommittedSlot ?m0 + 1 \<mapsto> 4))"
    unfolding rmc_start_def by (rule rmc_step.commit)
  then have r: "rmc_reachable checked_math demo_rmc_api (rmc_start [0 \<mapsto> 9] 0) (m, [0 \<mapsto> 9, 1 \<mapsto> 4])"
    using rmc_reachable.intros by (simp add: RMC_SetLatestCommittedSlot_def NewManager_def) blast
  have v: "RMC demo_rmc_api [0 \<mapsto> 9, 1 \<mapsto> 4] 1 m = Inr 4" by (simp add: RMC_def m_def demo_rmc_api_def)
  have minimum: "MinReferenceManaCost (demo_rmc_api s) = 1" for s by (simp add: demo_rmc_api_def)
  have "[0 \<mapsto> 9, 1 \<mapsto> 4] (1 :: slot_index) = Some (4 :: mana) \<and> 1 \<le> (4 :: mana)"
    by (rule RMC_is_committed_cost [OF safemath_ok_checked minimum _ r v]) (simp split: if_splits)
  then have c: "[0 \<mapsto> 9, 1 \<mapsto> 4] (1 :: slot_index) = Some (4 :: mana)" ..
  show ?thesis by (intro exI [of _ m] conjI) (fact v r c)+
qed

end
