(* ===== verification/Ledger.thy ===== *)
theory Ledger
  imports StateDiffs ManaManager ReferenceManaCost
begin

text \<open>
  The ledger, \<^verbatim>\<open>engine/ledger/ledger/ledger.go\<close>: what the commit of a slot makes of the state diff of the
  mempool.  The transactions give the outputs, spents and allotments; the compacted states give the
  accounts that are created, transitioned and destroyed; both together the account diffs, which go to
  the accounts ledger and the mana manager, while the outputs and spents go to the UTXO ledger.

  The mempool and the spend DAG are not modelled; the calls into them at the end of a commit are recorded
  as events.  A Go map of diffs holds pointers; \<open>changeDiff\<close> is a change through such a pointer.
\<close>


section \<open>State\<close>

text \<open>
  The context holds what the ledger reads elsewhere: the environment of the accounts ledger, the
  identifiers that iota.go derives from output identifiers, the creation slot of an output, the states
  and transactions of the mempool, the costs in stored commitments and the orders of the maps.
\<close>

record ledger_ctx =
  lc_env :: ledger_env
  AccountIDFromOutputID :: "output_id \<Rightarrow> account_id"
  DelegationIDFromOutputID :: "output_id \<Rightarrow> hash_id"
  lc_CreationSlot :: "output_id \<Rightarrow> slot_index"
  lc_MinDeposit :: "slot_index \<Rightarrow> tx_output \<Rightarrow> base_token option"
  lc_cachePut :: "account_id \<Rightarrow> mana_entry \<Rightarrow> mana_cache \<Rightarrow> mana_cache"
  stateMetadata :: "output_id \<Rightarrow> mem_state option"
  earliestAttachmentOf :: "output_id \<Rightarrow> block_id option"
  lc_commitments :: commitments
  iterStates :: "hash_id set \<Rightarrow> hash_id list"

text \<open>The events of the ledger and its calls into the mempool, in order.\<close>

datatype ledger_event =
    AccountDestroyed account_id
  | AccountCreated account_id
  | TransactionCommitted hash_id
  | MempoolEvicted slot_index

record ledger =
  accountsLedger :: manager
  utxoLedger :: utxo_manager
  rmcManager :: rmc_manager
  manaVectorCache :: mana_cache
  lg_events :: "ledger_event list"

datatype commit_error =
    PanicLedgerGap slot_index slot_index
  | PanicUnexpectedState
  | PanicAccountLookup ledger_error
  | PanicAccountNotFound account_id
  | PanicNilBlockIssuer account_id
  | UnexpectedState
  | RMCUnavailable rmc_error
  | AccountsFailed ledger_error
  | ManaFailed mana_error

type_synonym diffs = "account_id \<rightharpoonup> account_diff"

section \<open>Transactions\<close>

definition outputFromState :: "ledger_ctx \<Rightarrow> mem_state \<Rightarrow> commit_error + utxo_output" where
  "outputFromState C st =
     (case st_output st of
        None \<Rightarrow> Inl PanicUnexpectedState
      | Some out \<Rightarrow>
          if uo_slotBooked out = 0 then
            (case earliestAttachmentOf C (uo_outputID out) of
               None \<Rightarrow> Inr out
             | Some earliestAttachment \<Rightarrow> Inr (CopyWithBlockIDAndSlotBooked earliestAttachment (bid_slot earliestAttachment) out))
          else Inr out)"

definition getAccountDiff :: "diffs \<Rightarrow> account_id \<Rightarrow> account_diff" where
  "getAccountDiff accountDiffs accountID =
     (case accountDiffs accountID of None \<Rightarrow> NewAccountDiff | Some accountDiff \<Rightarrow> accountDiff)"

text \<open>The diff that \<^verbatim>\<open>getAccountDiff\<close> returns is in the map and is changed in place.\<close>

definition changeDiff :: "account_id \<Rightarrow> (account_diff \<Rightarrow> account_diff) \<Rightarrow> diffs \<Rightarrow> diffs" where
  "changeDiff accountID f accountDiffs = accountDiffs(accountID \<mapsto> f (getAccountDiff accountDiffs accountID))"

text \<open>One allotment of a transaction: an account that does not exist still gets a diff.\<close>

definition processAllotment :: "ledger_ctx \<Rightarrow> manager \<Rightarrow> slot_index \<Rightarrow> account_id \<times> mana \<Rightarrow> diffs \<Rightarrow> commit_error + diffs" where
  "processAllotment C m slot = (\<lambda>(accountID, allotted) accountDiffs.
     case account (math (lc_env C)) m accountID (slot - 1) of
       Inl e \<Rightarrow> Inl (PanicAccountLookup e)
     | Inr None \<Rightarrow> Inr (changeDiff accountID id accountDiffs)
     | Inr (Some accountData) \<Rightarrow>
         Inr (changeDiff accountID (\<lambda>d. d\<lparr>
            BICChange := BICChange d + allotted,
            PreviousUpdatedSlot := cr_updateSlot (ad_credits accountData),
            PreviousExpirySlot := ad_expirySlot accountData,
            NewExpirySlot := ad_expirySlot accountData,
            NewOutputID := ad_outputID accountData,
            PreviousOutputID := ad_outputID accountData\<rparr>) accountDiffs))"

text \<open>
  The inputs of a transaction, up to the first one that the mempool does not know; the flag tells whether
  all were found.
\<close>

fun processInputs :: "ledger_ctx \<Rightarrow> hash_id \<Rightarrow> slot_index \<Rightarrow> output_id list \<Rightarrow> spent list \<Rightarrow> commit_error + (spent list \<times> bool)" where
  "processInputs C txID slot [] spents = Inr (spents, True)"
| "processInputs C txID slot (i # rest) spents =
     (case stateMetadata C i of
        None \<Rightarrow> Inr (spents, False)
      | Some st \<Rightarrow>
          and_then (outputFromState C st) (\<lambda>out.
            processInputs C txID slot rest (spents @ [NewSpent out txID slot])))"

fun processOutputs :: "block_id \<Rightarrow> slot_index \<Rightarrow> mem_state list \<Rightarrow> utxo_output list \<Rightarrow> utxo_output list \<times> bool" where
  "processOutputs attachment slot [] outputs = (outputs, True)"
| "processOutputs attachment slot (st # sts) outputs =
     (case st_output st of
        None \<Rightarrow> (outputs, False)
      | Some out \<Rightarrow> processOutputs attachment slot sts (outputs @ [CopyWithBlockIDAndSlotBooked attachment slot out]))"

text \<open>
  The transactions in order.  When an input or output is not found the iteration stops; what has been
  collected until then is returned without an error.
\<close>

fun processTransactions ::
  "ledger_ctx \<Rightarrow> manager \<Rightarrow> slot_index \<Rightarrow> tx_metadata list \<Rightarrow> spent list \<times> utxo_output list \<times> diffs
     \<Rightarrow> commit_error + (spent list \<times> utxo_output list \<times> diffs)" where
  "processTransactions C m slot [] (spents, outputs, accountDiffs) = Inr (spents, outputs, accountDiffs)"
| "processTransactions C m slot (tx # txs) (spents, outputs, accountDiffs) =
     and_then (processInputs C (tx_ID tx) slot (tx_utxoInputs tx) spents) (\<lambda>(spents, found).
       if \<not> found then Inr (spents, outputs, accountDiffs)
       else
         let (outputs, typed) = processOutputs (tx_EarliestIncludedAttachment tx) slot (tx_outputs tx) outputs
         in if \<not> typed then Inr (spents, outputs, accountDiffs)
            else and_then (range_loop (processAllotment C m slot) (tx_Allotments tx) accountDiffs) (\<lambda>accountDiffs.
                   processTransactions C m slot txs (spents, outputs, accountDiffs)))"

definition processStateDiffTransactions ::
  "ledger_ctx \<Rightarrow> manager \<Rightarrow> state_diff \<Rightarrow> commit_error + (spent list \<times> utxo_output list \<times> diffs)" where
  "processStateDiffTransactions C m stateDiff =
     processTransactions C m (sdf_slot stateDiff) (executedTransactions stateDiff) ([], [], Map.empty)"

section \<open>Account outputs\<close>

record account_changes =
  createdAccountOutputs :: "account_id \<rightharpoonup> utxo_output"
  consumedAccountOutputs :: "account_id \<rightharpoonup> utxo_output"
  createdAccounts :: "account_id set"
  ch_destroyedAccounts :: "account_id set"
  newAccountDelegation :: "hash_id \<rightharpoonup> account_id \<times> base_token"
  ch_diffs :: diffs

definition processCreated :: "ledger_ctx \<Rightarrow> state_diff \<Rightarrow> hash_id \<Rightarrow> account_changes \<Rightarrow> commit_error + account_changes" where
  "processCreated C stateDiff stateID ch =
     (case Option.bind (createdOutputs stateDiff stateID) st_output of
        None \<Rightarrow> Inl UnexpectedState
      | Some out \<Rightarrow>
          (case out_kind (uo_output out) of
             OutputAccount accountID blockIssuer staking \<Rightarrow>
               if blockIssuer = None \<and> staking = None then Inr ch
               else if accountID = 0 then
                 let accountID = AccountIDFromOutputID C (uo_outputID out)
                 in Inr (ch\<lparr>createdAccounts := insert accountID (createdAccounts ch),
                            createdAccountOutputs := (createdAccountOutputs ch)(accountID \<mapsto> out)\<rparr>)
               else Inr (ch\<lparr>createdAccountOutputs := (createdAccountOutputs ch)(accountID \<mapsto> out)\<rparr>)
           | OutputDelegation delegationID validator delegated \<Rightarrow>
               if delegationID = 0 then
                 Inr (ch\<lparr>newAccountDelegation :=
                        (newAccountDelegation ch)(DelegationIDFromOutputID C (uo_outputID out) \<mapsto> (validator, delegated))\<rparr>)
               else Inr ch
           | OutputBasic (Some implicitKey) \<Rightarrow>
               let accountID = AccountIDFromOutputID C (uo_outputID out)
               in Inr (ch\<lparr>createdAccounts := insert accountID (createdAccounts ch),
                          createdAccountOutputs := (createdAccountOutputs ch)(accountID \<mapsto> out)\<rparr>)
           | _ \<Rightarrow> Inr ch))"

definition processDestroyed :: "ledger_ctx \<Rightarrow> state_diff \<Rightarrow> hash_id \<Rightarrow> account_changes \<Rightarrow> commit_error + account_changes" where
  "processDestroyed C stateDiff stateID ch =
     (case Option.bind (spentOutputs stateDiff stateID) st_output of
        None \<Rightarrow> Inl UnexpectedState
      | Some out \<Rightarrow>
          (case out_kind (uo_output out) of
             OutputAccount accountID blockIssuer staking \<Rightarrow>
               let accountID = (if accountID = 0 then AccountIDFromOutputID C (uo_outputID out) else accountID)
               in if blockIssuer = None \<and> staking = None then Inr ch
                  else
                    let ch = ch\<lparr>consumedAccountOutputs := (consumedAccountOutputs ch)(accountID \<mapsto> out)\<rparr>
                    in Inr (if createdAccountOutputs ch accountID = None
                            then ch\<lparr>ch_destroyedAccounts := insert accountID (ch_destroyedAccounts ch)\<rparr> else ch)
           | OutputDelegation delegationID validator delegated \<Rightarrow>
               if delegationID = 0 then
                 Inr (ch\<lparr>ch_diffs := changeDiff validator (\<lambda>d. d\<lparr>DelegationStakeChange := DelegationStakeChange d - delegated\<rparr>) (ch_diffs ch)\<rparr>)
               else Inr ch
           | OutputBasic (Some implicitKey) \<Rightarrow>
               let accountID = AccountIDFromOutputID C (uo_outputID out)
               in Inr (ch\<lparr>consumedAccountOutputs := (consumedAccountOutputs ch)(accountID \<mapsto> out)\<rparr>)
           | _ \<Rightarrow> Inr ch))"

definition addDelegation :: "hash_id \<Rightarrow> account_changes \<Rightarrow> account_changes" where
  "addDelegation delegationID ch =
     (case newAccountDelegation ch delegationID of
        None \<Rightarrow> ch
      | Some (validator, delegated) \<Rightarrow>
          ch\<lparr>ch_diffs := changeDiff validator (\<lambda>d. d\<lparr>DelegationStakeChange := DelegationStakeChange d + delegated\<rparr>) (ch_diffs ch)\<rparr>)"

definition processCreatedAndConsumedAccountOutputs ::
  "ledger_ctx \<Rightarrow> state_diff \<Rightarrow> diffs \<Rightarrow> commit_error + account_changes" where
  "processCreatedAndConsumedAccountOutputs C stateDiff accountDiffs =
     and_then (range_loop (processCreated C stateDiff) (iterStates C (dom (createdOutputs stateDiff)))
         \<lparr>createdAccountOutputs = Map.empty, consumedAccountOutputs = Map.empty, createdAccounts = {},
          ch_destroyedAccounts = {}, newAccountDelegation = Map.empty, ch_diffs = accountDiffs\<rparr>) (\<lambda>ch.
     and_then (range_loop (processDestroyed C stateDiff) (iterStates C (dom (spentOutputs stateDiff))) ch) (\<lambda>ch.
       Inr (fold addDelegation (iterStates C (dom (newAccountDelegation ch))) ch)))"

section \<open>Account diffs\<close>

definition MaxSlotIndex :: slot_index where
  "MaxSlotIndex = 4294967295"

text \<open>Case 2 of the comment of \<^verbatim>\<open>prepareAccountDiffs\<close>: the account was consumed and created again.\<close>

definition transitionDiff ::
  "account_id \<Rightarrow> utxo_output \<Rightarrow> utxo_output \<Rightarrow> account_data \<Rightarrow> account_diff \<Rightarrow> commit_error + account_diff" where
  "transitionDiff accountID consumedOutput createdOutput accountData d =
     and_then
       (case out_kind (uo_output consumedOutput) of
          OutputAccount _ blockIssuer _ \<Rightarrow>
            and_then (or_err (PanicNilBlockIssuer accountID) blockIssuer) (\<lambda>bi. Inr (d\<lparr>PreviousExpirySlot := ExpirySlot bi\<rparr>))
        | OutputBasic _ \<Rightarrow> Inr (d\<lparr>PreviousExpirySlot := MaxSlotIndex\<rparr>)
        | _ \<Rightarrow> Inr d) (\<lambda>d.
     and_then (or_err (PanicNilBlockIssuer accountID) (BlockIssuer (out_kind (uo_output createdOutput)))) (\<lambda>bi.
       let d = d\<lparr>PreviousOutputID := uo_outputID consumedOutput, NewOutputID := uo_outputID createdOutput,
                 NewExpirySlot := ExpirySlot bi,
                 BlockIssuerKeysAdded := BlockIssuerKeys bi - ad_blockIssuerKeys accountData,
                 BlockIssuerKeysRemoved := ad_blockIssuerKeys accountData - BlockIssuerKeys bi\<rparr>
       in Inr (case Staking (out_kind (uo_output createdOutput)) of
                 Some stakingFeature \<Rightarrow>
                   d\<lparr>ValidatorStakeChange := StakedAmount stakingFeature - ad_validatorStake accountData,
                     StakeEndEpochChange := ucast (EndEpoch stakingFeature) - ucast (ad_stakeEndEpoch accountData),
                     FixedCostChange := sf_FixedCost stakingFeature - ad_fixedCost accountData\<rparr>
               | None \<Rightarrow>
                   if Staking (out_kind (uo_output consumedOutput)) \<noteq> None then
                     d\<lparr>ValidatorStakeChange := - ad_validatorStake accountData,
                       StakeEndEpochChange := - ucast (ad_stakeEndEpoch accountData),
                       FixedCostChange := - ad_fixedCost accountData\<rparr>
                   else d)))"

text \<open>Case 3: the account was only created.\<close>

definition creationDiff :: "account_id \<Rightarrow> utxo_output \<Rightarrow> account_diff \<Rightarrow> commit_error + account_diff" where
  "creationDiff accountID createdOutput d =
     (let d = d\<lparr>NewOutputID := uo_outputID createdOutput, PreviousOutputID := 0, PreviousExpirySlot := 0\<rparr>
      in case out_kind (uo_output createdOutput) of
           OutputAccount _ blockIssuer staking \<Rightarrow>
             and_then (or_err (PanicNilBlockIssuer accountID) blockIssuer) (\<lambda>bi.
               let d = d\<lparr>BlockIssuerKeysAdded := BlockIssuerKeys bi, NewExpirySlot := ExpirySlot bi\<rparr>
               in Inr (case staking of
                         None \<Rightarrow> d
                       | Some sf \<Rightarrow> d\<lparr>ValidatorStakeChange := StakedAmount sf, StakeEndEpochChange := ucast (EndEpoch sf),
                                       FixedCostChange := sf_FixedCost sf\<rparr>))
         | OutputBasic (Some implicitKey) \<Rightarrow> Inr (d\<lparr>BlockIssuerKeysAdded := {implicitKey}, NewExpirySlot := MaxSlotIndex\<rparr>)
         | _ \<Rightarrow> Inr d)"

text \<open>The two loops; each changes the diff of one account.\<close>

definition consumedDiff ::
  "ledger_ctx \<Rightarrow> manager \<Rightarrow> slot_index \<Rightarrow> (account_id \<rightharpoonup> utxo_output) \<Rightarrow> (account_id \<rightharpoonup> utxo_output) \<Rightarrow>
     account_id \<Rightarrow> account_diff option \<Rightarrow> commit_error + account_diff option" where
  "consumedDiff C m slot consumedAccounts createdAccountsMap accountID current =
     (let accountDiff = (case current of None \<Rightarrow> NewAccountDiff | Some d \<Rightarrow> d)
      in case account (math (lc_env C)) m accountID (slot - 1) of
           Inl e \<Rightarrow> Inl (PanicAccountLookup e)
         | Inr None \<Rightarrow> Inl (PanicAccountNotFound accountID)
         | Inr (Some accountData) \<Rightarrow>
             (case (consumedAccounts accountID, createdAccountsMap accountID) of
                (Some consumedOutput, Some createdOutput) \<Rightarrow>
                  map_sum id Some (transitionDiff accountID consumedOutput createdOutput accountData accountDiff)
              | _ \<Rightarrow> Inr (Some accountDiff)))"

definition createdDiff ::
  "(account_id \<rightharpoonup> utxo_output) \<Rightarrow> (account_id \<rightharpoonup> utxo_output) \<Rightarrow> account_id \<Rightarrow> account_diff option \<Rightarrow> commit_error + account_diff option" where
  "createdDiff consumedAccounts createdAccountsMap accountID current =
     (case (consumedAccounts accountID, createdAccountsMap accountID) of
        (None, Some createdOutput) \<Rightarrow>
          map_sum id Some (creationDiff accountID createdOutput (case current of None \<Rightarrow> NewAccountDiff | Some d \<Rightarrow> d))
      | _ \<Rightarrow> Inr current)"

definition prepareAccountDiffs ::
  "ledger_ctx \<Rightarrow> manager \<Rightarrow> slot_index \<Rightarrow> (account_id \<rightharpoonup> utxo_output) \<Rightarrow> (account_id \<rightharpoonup> utxo_output) \<Rightarrow> diffs \<Rightarrow> commit_error + diffs" where
  "prepareAccountDiffs C m slot consumedAccounts createdAccountsMap accountDiffs =
     and_then (range_loop (\<lambda>i ds. map_sum id (\<lambda>d. ds(i := d)) (consumedDiff C m slot consumedAccounts createdAccountsMap i (ds i)))
         (iterAccounts (lc_env C) (dom consumedAccounts)) accountDiffs) (\<lambda>accountDiffs.
       range_loop (\<lambda>i ds. map_sum id (\<lambda>d. ds(i := d)) (createdDiff consumedAccounts createdAccountsMap i (ds i)))
         (iterAccounts (lc_env C) (dom createdAccountsMap)) accountDiffs)"

section \<open>Committing a slot\<close>

definition rmcSlotFor :: "api \<Rightarrow> slot_index \<Rightarrow> slot_index" where
  "rmcSlotFor params slot =
     max (if MaxCommittableAge params \<le> slot then slot - MaxCommittableAge params else 0) (GenesisSlot params)"

definition resolveAccountOutput :: "ledger_ctx \<Rightarrow> ledger \<Rightarrow> account_id \<Rightarrow> slot_index \<Rightarrow> utxo_output option" where
  "resolveAccountOutput C l accountID slot =
     (case account (math (lc_env C)) (accountsLedger l) accountID slot of
        Inr (Some accountMetadata) \<Rightarrow>
          (case ReadOutputByOutputID (utxoLedger l) (ad_outputID accountMetadata) of Inl e \<Rightarrow> None | Inr out \<Rightarrow> Some out)
      | _ \<Rightarrow> None)"

text \<open>The mana manager reads accounts and outputs through the ledger.\<close>

definition manaEnv :: "ledger_ctx \<Rightarrow> ledger \<Rightarrow> mana_env" where
  "manaEnv C l =
     \<lparr>mn_apis = apiForSlot (lc_env C), mn_math = math (lc_env C), MinDeposit = lc_MinDeposit C, CreationSlot = lc_CreationSlot C,
      cachePut = lc_cachePut C, mn_iterAccounts = iterAccounts (lc_env C), accountOutputResolveFunc = resolveAccountOutput C l,
      accountRetrieveFunc = account (math (lc_env C)) (accountsLedger l)\<rparr>"

text \<open>
  The accounts ledger changes the diffs in the map that it is passed and stores them all under the slot,
  so that the diffs that go to the mana manager are the stored ones.
\<close>

definition storedDiffs :: "slot_index \<Rightarrow> manager \<Rightarrow> diffs" where
  "storedDiffs slot m = (case slotDiff m slot of None \<Rightarrow> Map.empty | Some s \<Rightarrow> diffChangeStore s)"

text \<open>The part of the commit that applies the prepared changes to the ledgers and to the mana cache.\<close>

definition applyChanges ::
  "ledger_ctx \<Rightarrow> slot_index \<Rightarrow> spent list \<Rightarrow> utxo_output list \<Rightarrow> account_changes \<Rightarrow> diffs \<Rightarrow> ledger \<Rightarrow> commit_error + ledger" where
  "applyChanges C slot spenders outputs ch accountDiffs l =
     (let E = lc_env C;
          l = l\<lparr>utxoLedger := ApplyDiffWithoutLocking (lc_CreationSlot C) slot outputs spenders (utxoLedger l)\<rparr>
      in case RMC (apiForSlot E) (lc_commitments C) (rmcSlotFor (apiForSlot E slot) slot) (rmcManager l) of
           Inl e \<Rightarrow> Inl (RMCUnavailable e)
         | Inr rmcForSlot \<Rightarrow>
             (case ApplyDiff E slot rmcForSlot accountDiffs (ch_destroyedAccounts ch) (accountsLedger l) of
                Inl e \<Rightarrow> Inl (AccountsFailed e)
              | Inr m \<Rightarrow>
                  let l = l\<lparr>accountsLedger := m\<rparr>
                  in case Mana_ApplyDiff (manaEnv C l) slot (ch_destroyedAccounts ch) (createdAccountOutputs ch)
                            (storedDiffs slot m) (manaVectorCache l) of
                       Inl e \<Rightarrow> Inl (ManaFailed e)
                     | Inr cache \<Rightarrow> Inr (l\<lparr>manaVectorCache := cache\<rparr>)))"

definition ledgerEvents :: "ledger_event list \<Rightarrow> ledger \<Rightarrow> ledger" where
  "ledgerEvents es l = l\<lparr>lg_events := lg_events l @ es\<rparr>"

text \<open>\<open>stateDiff\<close> is what the mempool returns for the slot.\<close>

definition CommitSlot :: "ledger_ctx \<Rightarrow> state_diff \<Rightarrow> slot_index \<Rightarrow> ledger \<Rightarrow> commit_error + ledger" where
  "CommitSlot C stateDiff slot l =
     (let E = lc_env C;
          ledgerIndex = ReadLedgerIndex (GenesisSlot (apiForSlot E slot)) (utxoLedger l)
      in if slot \<noteq> ledgerIndex + 1 then Inl (PanicLedgerGap (ledgerIndex + 1) slot)
         else
           and_then (processStateDiffTransactions C (accountsLedger l) stateDiff) (\<lambda>(spenders, outputs, accountDiffs).
           and_then (processCreatedAndConsumedAccountOutputs C stateDiff accountDiffs) (\<lambda>ch.
           let l = ledgerEvents (map AccountDestroyed (iterAccounts E (ch_destroyedAccounts ch))) l
           in and_then (prepareAccountDiffs C (accountsLedger l) slot (consumedAccountOutputs ch) (createdAccountOutputs ch) (ch_diffs ch))
                (\<lambda>accountDiffs.
              and_then (applyChanges C slot spenders outputs ch accountDiffs l) (\<lambda>l.
              Inr (ledgerEvents (map AccountCreated (iterAccounts E (createdAccounts ch)) @
                     map (TransactionCommitted \<circ> tx_ID) (executedTransactions stateDiff) @ [MempoolEvicted slot]) l))))))"

text \<open>The inclusion of an attachment in the mempool is left out; an error of the cost manager is only reported.\<close>

definition Ledger_TrackBlock :: "ledger_ctx \<Rightarrow> block \<Rightarrow> ledger \<Rightarrow> ledger" where
  "Ledger_TrackBlock C blk l =
     (let l = l\<lparr>accountsLedger := TrackBlock (lc_env C) blk (accountsLedger l)\<rparr>
      in case BlockAccepted blk (rmcManager l) of
           Inl e \<Rightarrow> l
         | Inr r \<Rightarrow> l\<lparr>rmcManager := r\<rparr>)"

section \<open>Accounts follow their outputs\<close>

text \<open>When the data of an account are those of its output.\<close>

definition stakes_match :: "staking_feature option \<Rightarrow> account_data \<Rightarrow> bool" where
  "stakes_match staking a =
     (case staking of
        None \<Rightarrow> ad_validatorStake a = 0 \<and> ad_stakeEndEpoch a = 0 \<and> ad_fixedCost a = 0
      | Some sf \<Rightarrow> ad_validatorStake a = StakedAmount sf \<and> ad_stakeEndEpoch a = EndEpoch sf \<and> ad_fixedCost a = sf_FixedCost sf)"

definition account_matches :: "output_kind \<Rightarrow> account_data \<Rightarrow> bool" where
  "account_matches kind a =
     (case kind of
        OutputAccount _ (Some bi) staking \<Rightarrow>
          ad_expirySlot a = ExpirySlot bi \<and> ad_blockIssuerKeys a = BlockIssuerKeys bi \<and> stakes_match staking a
      | OutputBasic (Some key) \<Rightarrow> ad_expirySlot a = MaxSlotIndex \<and> ad_blockIssuerKeys a = {key} \<and> stakes_match None a
      | _ \<Rightarrow> False)"

definition is_account_output :: "output_kind \<Rightarrow> bool" where
  "is_account_output kind = (case kind of OutputAccount _ _ _ \<Rightarrow> True | OutputBasic (Some _) \<Rightarrow> True | _ \<Rightarrow> False)"

text \<open>A diff that says nothing about keys and stakes of the validator, as those of allotments and delegations.\<close>

definition only_credits :: "account_diff \<Rightarrow> bool" where
  "only_credits d \<longleftrightarrow> ValidatorStakeChange d = 0 \<and> StakeEndEpochChange d = 0 \<and> FixedCostChange d = 0 \<and>
     BlockIssuerKeysAdded d = {} \<and> BlockIssuerKeysRemoved d = {}"

definition startDiff :: "account_diff option \<Rightarrow> account_diff" where
  "startDiff current = (case current of None \<Rightarrow> NewAccountDiff | Some d \<Rightarrow> d)"

lemma startDiff_only_credits: "(\<And>d. current = Some d \<Longrightarrow> only_credits d) \<Longrightarrow> only_credits (startDiff current)"
  by (cases current) (simp_all add: startDiff_def only_credits_def NewAccountDiff_def)

lemma map_sum_Inr_iff: "map_sum id f r = Inr y \<longleftrightarrow> (\<exists>x. r = Inr x \<and> y = f x)"
  by (cases r) auto

lemma safe_add_word: "safemath_ok sm \<Longrightarrow> add_i64 sm x y = Some r \<Longrightarrow> r = x + y"
  by (auto simp: safemath_laws fit_i64_Some_iff word_of_int_sint_add)

lemma commitStakes_effect:
  assumes "safemath_ok sm" "commitStakes sm d a = Inr b"
  shows "ad_validatorStake b = ad_validatorStake a + ValidatorStakeChange d" "ad_fixedCost b = ad_fixedCost a + FixedCostChange d"
    "ad_stakeEndEpoch b = ucast (ucast (ad_stakeEndEpoch a) + StakeEndEpochChange d)"
    "ad_outputID b = ad_outputID a" "ad_expirySlot b = ad_expirySlot a" "ad_blockIssuerKeys b = ad_blockIssuerKeys a"
  using assms(2) by (auto simp: commitStakes_def go_result Let_def dest: safe_add_word [OF assms(1)])

lemma commitAccount_effect:
  assumes "safemath_ok (math E)" "commitAccount E slot i current d = Inr (b, d')"
  defines "a \<equiv> (case current of None \<Rightarrow> NewAccountData i | Some a \<Rightarrow> a)"
  shows "ad_validatorStake b = ad_validatorStake a + ValidatorStakeChange d" "ad_fixedCost b = ad_fixedCost a + FixedCostChange d"
    "ad_stakeEndEpoch b = ucast (ucast (ad_stakeEndEpoch a) + StakeEndEpochChange d)"
    "ad_outputID b = (if NewOutputID d \<noteq> 0 then NewOutputID d else ad_outputID a)"
    "ad_expirySlot b = (if PreviousExpirySlot d \<noteq> NewExpirySlot d then NewExpirySlot d else ad_expirySlot a)"
    "ad_blockIssuerKeys b = (ad_blockIssuerKeys a \<union> BlockIssuerKeysAdded d) - BlockIssuerKeysRemoved d"
proof -
  obtain a1 d1 a2 where c: "commitCredits E slot (current \<noteq> None) d a = Inr (a1, d1)"
    "commitStakes (math E) d1 (commitFields d1 a1) = Inr a2" "b = commitVersion d1 a2"
    using assms(2) unfolding a_def by (auto simp: commitAccount_def go_result Let_def)
  have cr: "\<exists>cr bic. a1 = a\<lparr>ad_credits := cr\<rparr> \<and> d1 = d\<lparr>BICChange := bic\<rparr>"
    using c(1) by (auto simp: commitCredits_def go_result split: if_splits intro: exI [of _ "ad_credits a"] exI [of _ "BICChange d"])
  then obtain cr bic where 1: "a1 = a\<lparr>ad_credits := cr\<rparr>" "d1 = d\<lparr>BICChange := bic\<rparr>" by blast
  have f: "ad_validatorStake b = ad_validatorStake a2" "ad_fixedCost b = ad_fixedCost a2" "ad_stakeEndEpoch b = ad_stakeEndEpoch a2"
    "ad_outputID b = ad_outputID a2" "ad_expirySlot b = ad_expirySlot a2" "ad_blockIssuerKeys b = ad_blockIssuerKeys a2"
    by (simp_all add: c(3) commitVersion_def)
  note e = commitStakes_effect [OF assms(1) c(2)]
  show "ad_validatorStake b = ad_validatorStake a + ValidatorStakeChange d" "ad_fixedCost b = ad_fixedCost a + FixedCostChange d"
    "ad_stakeEndEpoch b = ucast (ucast (ad_stakeEndEpoch a) + StakeEndEpochChange d)"
    "ad_outputID b = (if NewOutputID d \<noteq> 0 then NewOutputID d else ad_outputID a)"
    "ad_expirySlot b = (if PreviousExpirySlot d \<noteq> NewExpirySlot d then NewExpirySlot d else ad_expirySlot a)"
    "ad_blockIssuerKeys b = (ad_blockIssuerKeys a \<union> BlockIssuerKeysAdded d) - BlockIssuerKeysRemoved d"
    unfolding f e 1 by (simp_all add: commitFields_def Let_def AddBlockIssuerKeys_def RemoveBlockIssuerKeys_def)
qed

lemma transitionDiff_Inr:
  assumes "transitionDiff i co cr a d0 = Inr d" "account_matches (out_kind (uo_output co)) a" "only_credits d0"
  shows "\<exists>aid bi st. out_kind (uo_output cr) = OutputAccount aid (Some bi) st \<and>
    PreviousExpirySlot d = ad_expirySlot a \<and> NewExpirySlot d = ExpirySlot bi \<and> NewOutputID d = uo_outputID cr \<and>
    BlockIssuerKeysAdded d = BlockIssuerKeys bi - ad_blockIssuerKeys a \<and> BlockIssuerKeysRemoved d = ad_blockIssuerKeys a - BlockIssuerKeys bi \<and>
    ValidatorStakeChange d = (case st of None \<Rightarrow> 0 | Some sf \<Rightarrow> StakedAmount sf) - ad_validatorStake a \<and>
    StakeEndEpochChange d = (case st of None \<Rightarrow> 0 | Some sf \<Rightarrow> ucast (EndEpoch sf)) - ucast (ad_stakeEndEpoch a) \<and>
    FixedCostChange d = (case st of None \<Rightarrow> 0 | Some sf \<Rightarrow> sf_FixedCost sf) - ad_fixedCost a"
proof -
  let ?d = "d0\<lparr>PreviousExpirySlot := ad_expirySlot a\<rparr>"
  have prev: "(case out_kind (uo_output co) of
          OutputAccount _ blockIssuer _ \<Rightarrow>
            and_then (or_err (PanicNilBlockIssuer i) blockIssuer) (\<lambda>bi. Inr (d0\<lparr>PreviousExpirySlot := ExpirySlot bi\<rparr>))
        | OutputBasic _ \<Rightarrow> Inr (d0\<lparr>PreviousExpirySlot := MaxSlotIndex\<rparr>)
        | _ \<Rightarrow> Inr d0) = Inr ?d"
    using assms(2) by (auto simp: account_matches_def split: output_kind.splits option.splits)
  have unstaked: "ad_validatorStake a = 0 \<and> ad_stakeEndEpoch a = 0 \<and> ad_fixedCost a = 0" if "Staking (out_kind (uo_output co)) = None"
    using assms(2) that by (auto simp: account_matches_def stakes_match_def split: output_kind.splits option.splits)
  have c: "ValidatorStakeChange d0 = 0" "StakeEndEpochChange d0 = 0" "FixedCostChange d0 = 0" using assms(3) by (simp_all add: only_credits_def)
  obtain bi where bi: "BlockIssuer (out_kind (uo_output cr)) = Some bi"
    using assms(1) unfolding transitionDiff_def prev and_then_simps by (cases "BlockIssuer (out_kind (uo_output cr))") auto
  then obtain aid st where k: "out_kind (uo_output cr) = OutputAccount aid (Some bi) st" by (cases "out_kind (uo_output cr)") auto
  show ?thesis
    using assms(1) unfolding transitionDiff_def prev and_then_simps
    by (cases st; cases "Staking (out_kind (uo_output co))") (auto simp: k c unstaked Let_def)
qed

lemma creationDiff_Inr:
  assumes "creationDiff i cr d0 = Inr d" "is_account_output (out_kind (uo_output cr))" "only_credits d0"
  shows "\<exists>keys expiry st. PreviousExpirySlot d = 0 \<and> NewExpirySlot d = expiry \<and> NewOutputID d = uo_outputID cr \<and>
    BlockIssuerKeysAdded d = keys \<and> BlockIssuerKeysRemoved d = {} \<and>
    ValidatorStakeChange d = (case st of None \<Rightarrow> 0 | Some sf \<Rightarrow> StakedAmount sf) \<and>
    StakeEndEpochChange d = (case st of None \<Rightarrow> 0 | Some sf \<Rightarrow> ucast (EndEpoch sf)) \<and>
    FixedCostChange d = (case st of None \<Rightarrow> 0 | Some sf \<Rightarrow> sf_FixedCost sf) \<and>
    (\<forall>b. account_matches (out_kind (uo_output cr)) b \<longleftrightarrow> ad_expirySlot b = expiry \<and> ad_blockIssuerKeys b = keys \<and> stakes_match st b)"
proof -
  have c: "ValidatorStakeChange d0 = 0" "StakeEndEpochChange d0 = 0" "FixedCostChange d0 = 0" "BlockIssuerKeysRemoved d0 = {}"
    using assms(3) by (simp_all add: only_credits_def)
  from assms(2) consider key where "out_kind (uo_output cr) = OutputBasic (Some key)"
    | aid bi st where "out_kind (uo_output cr) = OutputAccount aid bi st"
    by (auto simp: is_account_output_def split: output_kind.splits option.splits)
  then show ?thesis
  proof cases
    case 1
    then show ?thesis using assms(1) c
      by (intro exI [of _ "{key}"] exI [of _ MaxSlotIndex] exI [of _ None]) (auto simp: creationDiff_def account_matches_def Let_def)
  next
    case 2
    then obtain f where f: "bi = Some f" using assms(1) by (cases bi) (auto simp: creationDiff_def Let_def)
    show ?thesis using assms(1) c 2
      by (intro exI [of _ "BlockIssuerKeys f"] exI [of _ "ExpirySlot f"] exI [of _ st])
        (cases st; auto simp: f creationDiff_def account_matches_def Let_def)
  qed
qed

text \<open>The diffs after the two loops, account by account.\<close>

lemma prepareAccountDiffs_pointwise:
  assumes "env_ok (lc_env C)" "finite (dom consumed)" "finite (dom created)"
    and "prepareAccountDiffs C m slot consumed created ds = Inr ds'" "created i = Some cr"
  shows "case consumed i of
      Some co \<Rightarrow> consumedDiff C m slot consumed created i (ds i) = Inr (ds' i)
    | None \<Rightarrow> createdDiff consumed created i (ds i) = Inr (ds' i)"
proof -
  let ?f = "consumedDiff C m slot consumed created" and ?g = "createdDiff consumed created"
  obtain ds1 where l: "range_loop (\<lambda>i ds. map_sum id (\<lambda>d. ds(i := d)) (?f i (ds i))) (iterAccounts (lc_env C) (dom consumed)) ds = Inr ds1"
    "range_loop (\<lambda>i ds. map_sum id (\<lambda>d. ds(i := d)) (?g i (ds i))) (iterAccounts (lc_env C) (dom created)) ds1 = Inr ds'"
    using assms(4) by (auto simp: prepareAccountDiffs_def go_result)
  have en: "enumerates (iterAccounts (lc_env C))" using assms(1) by (simp add: env_ok_def)
  note d = enumerates_distinct [OF en] and s = enumerates_set [OF en]
  note first = map_keyed.loop_pointwise [OF l(1) d [OF assms(2)] refl, unfolded s [OF assms(2)]]
  note second = map_keyed.loop_pointwise [OF l(2) d [OF assms(3)] refl, unfolded s [OF assms(3)]]
  have "?g i (ds1 i) = Inr (ds' i)" using second assms(5) by blast
  moreover have "?f i (ds i) = Inr (ds1 i)" if "consumed i = Some co" for co using first that by blast
  moreover have "ds1 i = ds i" if "consumed i = None" using first that by auto
  moreover have "?g i (ds1 i) = Inr (ds1 i)" if "consumed i = Some co" for co using that by (simp add: createdDiff_def)
  ultimately show ?thesis by (cases "consumed i") auto
qed

definition demo_ctx :: ledger_ctx where
  "demo_ctx =
     \<lparr>lc_env = demo_env, AccountIDFromOutputID = id, DelegationIDFromOutputID = id, lc_CreationSlot = (\<lambda>_. 0), lc_MinDeposit = (\<lambda>_ _. Some 0),
      lc_cachePut = (\<lambda>k v c. c(k \<mapsto> v)),
      stateMetadata = (\<lambda>_. None), earliestAttachmentOf = (\<lambda>_. None), lc_commitments = (\<lambda>_. None), iterStates = sorted_list_of_set\<rparr>"

definition demo_account_output :: "output_id \<Rightarrow> output_kind \<Rightarrow> utxo_output" where
  "demo_account_output i kind = (demo_output i 0 1)\<lparr>uo_output := \<lparr>BaseTokenAmount = 0, StoredMana = 0, out_kind = kind\<rparr>\<rparr>"

text \<open>Account 7 is transitioned, the implicit account 8 is created.\<close>

definition demo_consumed :: "account_id \<rightharpoonup> utxo_output" where
  "demo_consumed = [7 \<mapsto> demo_account_output 70 (OutputAccount 7 (Some \<lparr>BlockIssuerKeys = {1, 2}, ExpirySlot = 0\<rparr>)
     (Some \<lparr>StakedAmount = 50, sf_FixedCost = 0, EndEpoch = 6\<rparr>))]"

definition demo_created :: "account_id \<rightharpoonup> utxo_output" where
  "demo_created =
     [7 \<mapsto> demo_account_output 71 (OutputAccount 7 (Some \<lparr>BlockIssuerKeys = {2, 3}, ExpirySlot = 90\<rparr>)
        (Some \<lparr>StakedAmount = 60, sf_FixedCost = 0, EndEpoch = 7\<rparr>)),
      8 \<mapsto> demo_account_output 80 (OutputBasic (Some 5))]"

lemmas demo_ledger_defs = demo_ctx_def demo_consumed_def demo_created_def demo_account_output_def demo_output_def

lemma demo_prepare:
  "\<exists>ds. prepareAccountDiffs demo_ctx demo_manager 5 demo_consumed demo_created Map.empty = Inr ds"
proof -
  have "account checked_math demo_manager 7 4 = Inr (Some (demo_account 7))"
    using account_latest [of checked_math demo_manager 7] by (simp add: demo_manager_def)
  then show ?thesis
    by (simp add: prepareAccountDiffs_def demo_ledger_defs demo_env_def consumedDiff_def createdDiff_def transitionDiff_def creationDiff_def
        Let_def)
qed

text \<open>
  C5. An account whose data are those of its output keeps them so when its output is transitioned: if the
  slot consumes the output and creates another one for the account, and the commit of the account
  succeeds, then the data of the account afterwards are those of the created output.
\<close>

theorem transition_follows_output:
  assumes "env_ok (lc_env C)" "finite (dom consumed)" "finite (dom created)"
    and "prepareAccountDiffs C m slot consumed created ds = Inr ds'" "slot = latestCommittedSlot m + 1"
    and "accountsTree m i = Some a" "consumed i = Some co" "created i = Some cr" "account_matches (out_kind (uo_output co)) a"
    and "\<And>d. ds i = Some d \<Longrightarrow> only_credits d" "uo_outputID cr \<noteq> 0"
  shows "\<exists>d. ds' i = Some d \<and> (\<forall>b d'. commitAccount (lc_env C) slot i (Some a) d = Inr (b, d') \<longrightarrow>
    ad_outputID b = uo_outputID cr \<and> account_matches (out_kind (uo_output cr)) b)"
proof -
  have acc: "account (math (lc_env C)) m i (slot - 1) = Inr (Some a)" using assms(5,6) account_latest [of "math (lc_env C)" m i] by simp
  have "consumedDiff C m slot consumed created i (ds i) = Inr (ds' i)"
    using prepareAccountDiffs_pointwise [OF assms(1-4,8)] assms(7) by simp
  then have "map_sum id Some (transitionDiff i co cr a (startDiff (ds i))) = Inr (ds' i)"
    using acc assms(7,8) by (simp add: consumedDiff_def startDiff_def Let_def)
  then obtain d where d: "transitionDiff i co cr a (startDiff (ds i)) = Inr d" "ds' i = Some d" unfolding map_sum_Inr_iff by blast
  note o = startDiff_only_credits [of "ds i", OF assms(10)]
  obtain aid bi st where t: "out_kind (uo_output cr) = OutputAccount aid (Some bi) st"
    "PreviousExpirySlot d = ad_expirySlot a" "NewExpirySlot d = ExpirySlot bi" "NewOutputID d = uo_outputID cr"
    "BlockIssuerKeysAdded d = BlockIssuerKeys bi - ad_blockIssuerKeys a" "BlockIssuerKeysRemoved d = ad_blockIssuerKeys a - BlockIssuerKeys bi"
    "ValidatorStakeChange d = (case st of None \<Rightarrow> 0 | Some sf \<Rightarrow> StakedAmount sf) - ad_validatorStake a"
    "StakeEndEpochChange d = (case st of None \<Rightarrow> 0 | Some sf \<Rightarrow> ucast (EndEpoch sf)) - ucast (ad_stakeEndEpoch a)"
    "FixedCostChange d = (case st of None \<Rightarrow> 0 | Some sf \<Rightarrow> sf_FixedCost sf) - ad_fixedCost a"
    using transitionDiff_Inr [OF d(1) assms(9) o] by blast
  have "ad_outputID b = uo_outputID cr \<and> account_matches (out_kind (uo_output cr)) b"
    if b: "commitAccount (lc_env C) slot i (Some a) d = Inr (b, d')" for b d'
  proof -
    have sm: "safemath_ok (math (lc_env C))" using assms(1) by (simp add: env_ok_def)
    note e = commitAccount_effect [OF sm b, simplified option.case]
    have "stakes_match st b" unfolding stakes_match_def e(1-3) t(7-9) by (cases st) simp_all
    moreover have "ad_blockIssuerKeys b = BlockIssuerKeys bi" unfolding e(6) t(5,6) by blast
    ultimately show ?thesis using assms(11) by (simp add: e(4,5) t(1-4) account_matches_def)
  qed
  then show ?thesis using d(2) by blast
qed

theorem transition_follows_output_witness:
  "\<exists>ds d. prepareAccountDiffs demo_ctx demo_manager 5 demo_consumed demo_created Map.empty = Inr ds \<and> ds 7 = Some d \<and>
     (\<forall>b d'. commitAccount demo_env 5 7 (Some (demo_account 7)) d = Inr (b, d') \<longrightarrow> ad_blockIssuerKeys b = {2, 3} \<and> ad_validatorStake b = 60)"
proof -
  obtain ds where ds: "prepareAccountDiffs demo_ctx demo_manager 5 demo_consumed demo_created Map.empty = Inr ds" using demo_prepare by blast
  let ?co = "the (demo_consumed 7)" and ?cr = "the (demo_created 7)"
  have h: "env_ok (lc_env demo_ctx)" "finite (dom demo_consumed)" "finite (dom demo_created)" "accountsTree demo_manager 7 = Some (demo_account 7)"
    "demo_consumed 7 = Some ?co" "demo_created 7 = Some ?cr" "uo_outputID ?cr \<noteq> 0" "(5 :: slot_index) = latestCommittedSlot demo_manager + 1"
    using demo_env_ok by (simp_all add: demo_ledger_defs demo_manager_def)
  have m: "account_matches (out_kind (uo_output ?co)) (demo_account 7)"
    by (simp add: account_matches_def stakes_match_def demo_ledger_defs demo_account_def NewAccountData_def)
  obtain d where d: "ds 7 = Some d" "\<forall>b d'. commitAccount (lc_env demo_ctx) 5 7 (Some (demo_account 7)) d = Inr (b, d') \<longrightarrow>
      ad_outputID b = uo_outputID ?cr \<and> account_matches (out_kind (uo_output ?cr)) b"
    using transition_follows_output [OF h(1-3) ds h(8,4,5,6) m _ h(7)] by auto
  then show ?thesis using ds by (auto simp: account_matches_def stakes_match_def demo_ledger_defs)
qed

text \<open>
  C40. An account that a slot creates gets the data of its output: if the account is not in the tree and
  the slot creates an account output or an implicit account for it, and the commit succeeds, then the
  data of the new account are those of the created output.
\<close>

theorem creation_follows_output:
  assumes "env_ok (lc_env C)" "finite (dom consumed)" "finite (dom created)"
    and "prepareAccountDiffs C m slot consumed created ds = Inr ds'"
    and "consumed i = None" "created i = Some cr" "is_account_output (out_kind (uo_output cr))"
    and "\<And>d. ds i = Some d \<Longrightarrow> only_credits d" "uo_outputID cr \<noteq> 0"
  shows "\<exists>d. ds' i = Some d \<and> (\<forall>b d'. commitAccount (lc_env C) slot i None d = Inr (b, d') \<longrightarrow>
    ad_outputID b = uo_outputID cr \<and> account_matches (out_kind (uo_output cr)) b)"
proof -
  have "createdDiff consumed created i (ds i) = Inr (ds' i)"
    using prepareAccountDiffs_pointwise [OF assms(1-4,6)] assms(5) by simp
  then have "map_sum id Some (creationDiff i cr (startDiff (ds i))) = Inr (ds' i)"
    using assms(5,6) by (simp add: createdDiff_def startDiff_def)
  then obtain d where d: "creationDiff i cr (startDiff (ds i)) = Inr d" "ds' i = Some d" unfolding map_sum_Inr_iff by blast
  note o = startDiff_only_credits [of "ds i", OF assms(8)]
  have "ad_outputID b = uo_outputID cr \<and> account_matches (out_kind (uo_output cr)) b"
    if b: "commitAccount (lc_env C) slot i None d = Inr (b, d')" for b d'
  proof -
    have sm: "safemath_ok (math (lc_env C))" using assms(1) by (simp add: env_ok_def)
    note e = commitAccount_effect [OF sm b, simplified option.case]
    obtain keys expiry st where t: "PreviousExpirySlot d = 0" "NewExpirySlot d = expiry" "NewOutputID d = uo_outputID cr"
      "BlockIssuerKeysAdded d = keys" "BlockIssuerKeysRemoved d = {}"
      "ValidatorStakeChange d = (case st of None \<Rightarrow> 0 | Some sf \<Rightarrow> StakedAmount sf)"
      "StakeEndEpochChange d = (case st of None \<Rightarrow> 0 | Some sf \<Rightarrow> ucast (EndEpoch sf))"
      "FixedCostChange d = (case st of None \<Rightarrow> 0 | Some sf \<Rightarrow> sf_FixedCost sf)"
      "\<And>b. account_matches (out_kind (uo_output cr)) b \<longleftrightarrow> ad_expirySlot b = expiry \<and> ad_blockIssuerKeys b = keys \<and> stakes_match st b"
      using creationDiff_Inr [OF d(1) assms(7) o] by blast
    have "stakes_match st b" unfolding stakes_match_def e(1-3) t(6-8) by (cases st) (simp_all add: NewAccountData_def)
    then show ?thesis using assms(9) unfolding t(9) e(4-6) t(1-5) by (simp add: NewAccountData_def)
  qed
  then show ?thesis using d(2) by blast
qed

theorem creation_follows_output_witness:
  "\<exists>ds d. prepareAccountDiffs demo_ctx demo_manager 5 demo_consumed demo_created Map.empty = Inr ds \<and> ds 8 = Some d \<and>
     (\<forall>b d'. commitAccount demo_env 5 8 None d = Inr (b, d') \<longrightarrow> ad_blockIssuerKeys b = {5} \<and> ad_expirySlot b = MaxSlotIndex)"
proof -
  obtain ds where ds: "prepareAccountDiffs demo_ctx demo_manager 5 demo_consumed demo_created Map.empty = Inr ds" using demo_prepare by blast
  let ?cr = "the (demo_created 8)"
  have h: "env_ok (lc_env demo_ctx)" "finite (dom demo_consumed)" "finite (dom demo_created)"
    "demo_consumed 8 = None" "demo_created 8 = Some ?cr" "uo_outputID ?cr \<noteq> 0" "is_account_output (out_kind (uo_output ?cr))"
    using demo_env_ok by (simp_all add: demo_ledger_defs is_account_output_def)
  obtain d where d: "ds 8 = Some d" "\<forall>b d'. commitAccount (lc_env demo_ctx) 5 8 None d = Inr (b, d') \<longrightarrow>
      ad_outputID b = uo_outputID ?cr \<and> account_matches (out_kind (uo_output ?cr)) b"
    using creation_follows_output [OF h(1-3) ds h(4,5,7) _ h(6)] by auto
  then show ?thesis using ds by (auto simp: account_matches_def stakes_match_def demo_ledger_defs)
qed

end
