(* ===== verification/Seats.thy ===== *)
theory Seats
  imports Prelude
begin

text \<open>
  Committees: \<^verbatim>\<open>core/account/accounts.go\<close>, \<^verbatim>\<open>core/account/seated_accounts.go\<close> and the type of
  \<^verbatim>\<open>core/account/pool.go\<close>.  \<open>accounts\<close> holds the pools of the accounts with the two totals that the
  source maintains incrementally, \<open>seated_accounts\<close> adds the seats.  The order in which the
  shrinking maps are traversed is the parameter \<open>iter\<close>.  The lemmas show that the totals are sums,
  that a committee of fewer than 256 members gets distinct seats with re-elected members keeping
  theirs, and that a committee can be reused.  The byte encodings are not modelled.
\<close>

section \<open>Pools and accounts\<close>

record pool =
  PoolStake :: base_token
  ValidatorStake :: base_token
  PoolFixedCost :: mana

record accounts =
  accountPools :: "account_id \<rightharpoonup> pool"
  totalStake :: base_token
  totalValidatorStake :: base_token

definition NewAccounts :: accounts where
  "NewAccounts = \<lparr>accountPools = Map.empty, totalStake = 0, totalValidatorStake = 0\<rparr>"

datatype seats_error =
    TotalStakeError account_id
  | TotalValidatorStakeError account_id
  | PanicAccountNotFound account_id

definition setWithoutLocking :: "safemath \<Rightarrow> account_id \<Rightarrow> pool \<Rightarrow> accounts \<Rightarrow> seats_error + accounts" where
  "setWithoutLocking sm accountID p a =
     and_then
       (case accountPools a accountID of
          None \<Rightarrow> Inr (a\<lparr>accountPools := (accountPools a)(accountID \<mapsto> p)\<rparr>)
        | Some value \<Rightarrow>
            and_then (or_err (TotalStakeError accountID) (sub_u64 sm (totalStake a) (PoolStake value))) (\<lambda>stake.
            and_then (or_err (TotalValidatorStakeError accountID)
                (sub_u64 sm (totalValidatorStake a) (ValidatorStake value))) (\<lambda>validatorStake.
            Inr (a\<lparr>totalStake := stake, totalValidatorStake := validatorStake,
                   accountPools := (accountPools a)(accountID \<mapsto> p)\<rparr>)))) (\<lambda>a.
       and_then (or_err (TotalStakeError accountID) (add_u64 sm (totalStake a) (PoolStake p))) (\<lambda>stake.
       and_then (or_err (TotalValidatorStakeError accountID)
           (add_u64 sm (totalValidatorStake a) (ValidatorStake p))) (\<lambda>validatorStake.
       Inr (a\<lparr>totalStake := stake, totalValidatorStake := validatorStake\<rparr>))))"

definition IDs :: "(account_id set \<Rightarrow> account_id list) \<Rightarrow> accounts \<Rightarrow> account_id list" where
  "IDs iter a = iter (dom (accountPools a))"

section \<open>Seated accounts\<close>

record seated_accounts =
  sa_accounts :: accounts
  seatsByAccount :: "account_id \<rightharpoonup> u8"
  reused :: bool

definition NewSeatedAccounts :: "accounts \<Rightarrow> account_id list \<Rightarrow> seated_accounts" where
  "NewSeatedAccounts a optMembers =
     \<lparr>sa_accounts = a,
      seatsByAccount = fold (\<lambda>(i, member) seats. seats(member \<mapsto> word_of_nat i))
        (enumerate 0 (sort optMembers)) Map.empty,
      reused = False\<rparr>"

definition SetReused :: "seated_accounts \<Rightarrow> seated_accounts" where
  "SetReused s = s\<lparr>reused := True\<rparr>"

text \<open>The boolean results of \<^verbatim>\<open>Set\<close> are not used by its callers.\<close>

definition SeatedAccounts_Set :: "u8 \<Rightarrow> account_id \<Rightarrow> seated_accounts \<Rightarrow> seated_accounts" where
  "SeatedAccounts_Set seat accountID s =
     (if accountPools (sa_accounts s) accountID = None then s
      else case seatsByAccount s accountID of
             Some oldSeat \<Rightarrow>
               if oldSeat \<noteq> seat then s
               else s\<lparr>seatsByAccount := (seatsByAccount s)(accountID \<mapsto> seat)\<rparr>
           | None \<Rightarrow> s\<lparr>seatsByAccount := (seatsByAccount s)(accountID \<mapsto> seat)\<rparr>)"

definition SeatedAccounts_Delete :: "account_id \<Rightarrow> seated_accounts \<Rightarrow> seated_accounts" where
  "SeatedAccounts_Delete accountID s = s\<lparr>seatsByAccount := (seatsByAccount s)(accountID := None)\<rparr>"

definition GetSeat :: "seated_accounts \<Rightarrow> account_id \<Rightarrow> u8 option" where
  "GetSeat s accountID = seatsByAccount s accountID"

definition HasAccount :: "seated_accounts \<Rightarrow> account_id \<Rightarrow> bool" where
  "HasAccount s accountID \<longleftrightarrow> seatsByAccount s accountID \<noteq> None"

definition SeatCount :: "seated_accounts \<Rightarrow> nat" where
  "SeatCount s = card (dom (seatsByAccount s))"

definition SeatedAccounts_Accounts ::
  "safemath \<Rightarrow> (account_id set \<Rightarrow> account_id list) \<Rightarrow> seated_accounts \<Rightarrow> seats_error + accounts" where
  "SeatedAccounts_Accounts sm iter s =
     range_loop (\<lambda>accountID a.
         and_then (or_err (PanicAccountNotFound accountID) (accountPools (sa_accounts s) accountID))
           (\<lambda>p. setWithoutLocking sm accountID p a))
       (iter (dom (seatsByAccount s))) NewAccounts"

definition Reuse ::
  "safemath \<Rightarrow> (account_id set \<Rightarrow> account_id list) \<Rightarrow> seated_accounts \<Rightarrow> seats_error + seated_accounts" where
  "Reuse sm iter s =
     and_then (SeatedAccounts_Accounts sm iter s) (\<lambda>committeeAccounts.
       Inr (fold (\<lambda>accountID c. SeatedAccounts_Set (the (seatsByAccount s accountID)) accountID c)
         (iter (dom (seatsByAccount s))) (SetReused (NewSeatedAccounts committeeAccounts []))))"

section \<open>Assigning seats\<close>

text \<open>
  The inner loop counts an 8 bit index upwards past the seats of re-elected members; when all 256
  indices are taken it does not end.
\<close>

partial_function (option) skipTaken :: "u8 set \<Rightarrow> u8 \<Rightarrow> u8 option" where
  "skipTaken taken i = (if i \<in> taken then skipTaken taken (i + 1) else Some i)"

text \<open>The members of the previous committee keep their seats.\<close>

definition keepSeats ::
  "(account_id set \<Rightarrow> account_id list) \<Rightarrow> seated_accounts \<Rightarrow> accounts \<Rightarrow> seated_accounts \<times> u8 set" where
  "keepSeats iter prev a =
     fold (\<lambda>accountID (committee, taken).
         case GetSeat prev accountID of
           None \<Rightarrow> (committee, taken)
         | Some seat \<Rightarrow> (SeatedAccounts_Set seat accountID committee, insert seat taken))
       (iter (dom (accountPools a))) (NewSeatedAccounts a [], {})"

fun assignSeats ::
  "seated_accounts \<Rightarrow> u8 set \<Rightarrow> account_id list \<Rightarrow> u8 \<Rightarrow> seated_accounts \<Rightarrow> seated_accounts option" where
  "assignSeats prev taken [] current committee = Some committee"
| "assignSeats prev taken (memberID # ids) current committee =
     Option.bind (skipTaken taken current) (\<lambda>current.
       if GetSeat prev memberID = None
       then assignSeats prev taken ids (current + 1) (SeatedAccounts_Set current memberID committee)
       else assignSeats prev taken ids current committee)"

definition Accounts_SeatedAccounts ::
  "(account_id set \<Rightarrow> account_id list) \<Rightarrow> seated_accounts option \<Rightarrow> accounts \<Rightarrow> seated_accounts option" where
  "Accounts_SeatedAccounts iter optPrevCommittee a =
     (let prev = (case optPrevCommittee of
                    None \<Rightarrow> NewSeatedAccounts NewAccounts [] | Some c \<Rightarrow> c);
          (committee, taken) = keepSeats iter prev a
      in assignSeats prev taken (sort (IDs iter a)) 0 committee)"

section \<open>Totals\<close>

definition accounts_ok :: "accounts \<Rightarrow> bool" where
  "accounts_ok a \<longleftrightarrow> finite (dom (accountPools a)) \<and>
     unat (totalStake a) = (\<Sum>i\<in>dom (accountPools a). unat (PoolStake (the (accountPools a i)))) \<and>
     unat (totalValidatorStake a) = (\<Sum>i\<in>dom (accountPools a). unat (ValidatorStake (the (accountPools a i))))"

definition pool_sum :: "(pool \<Rightarrow> u64) \<Rightarrow> (account_id \<rightharpoonup> pool) \<Rightarrow> nat" where
  "pool_sum f ps = (\<Sum>i\<in>dom ps. unat (f (the (ps i))))"

lemma pool_sum_upd:
  assumes "finite (dom ps)"
  shows "pool_sum f (ps(i \<mapsto> p)) + (case ps i of None \<Rightarrow> 0 | Some q \<Rightarrow> unat (f q)) = pool_sum f ps + unat (f p)"
proof -
  let ?D = "dom ps - {i}"
  have "pool_sum f (ps(i \<mapsto> p)) = unat (f p) + (\<Sum>j\<in>?D. unat (f (the (ps j))))"
    using assms unfolding pool_sum_def by (simp add: sum.insert_remove)
  moreover have "pool_sum f ps = (case ps i of None \<Rightarrow> 0 | Some q \<Rightarrow> unat (f q)) + (\<Sum>j\<in>?D. unat (f (the (ps j))))"
  proof (cases "ps i")
    case None
    then have "?D = dom ps" by blast
    then show ?thesis using None by (simp add: pool_sum_def)
  next
    case (Some q)
    then have "i \<in> dom ps" by blast
    then show ?thesis using Some assms unfolding pool_sum_def by (simp add: sum.remove)
  qed
  ultimately show ?thesis by simp
qed

lemma accounts_ok_pool_sum:
  "accounts_ok a \<longleftrightarrow> finite (dom (accountPools a)) \<and> unat (totalStake a) = pool_sum PoolStake (accountPools a) \<and>
     unat (totalValidatorStake a) = pool_sum ValidatorStake (accountPools a)"
  by (simp add: accounts_ok_def pool_sum_def)

text \<open>The state after the old pool of the account has been taken out of the totals.\<close>

lemma set_removes_old:
  assumes sm: "safemath_ok sm" and ok: "accounts_ok a"
  shows "\<exists>b. setWithoutLocking sm i p a =
      and_then (or_err (TotalStakeError i) (add_u64 sm (totalStake b) (PoolStake p))) (\<lambda>stake.
      and_then (or_err (TotalValidatorStakeError i) (add_u64 sm (totalValidatorStake b) (ValidatorStake p))) (\<lambda>validatorStake.
      Inr (b\<lparr>totalStake := stake, totalValidatorStake := validatorStake\<rparr>))) \<and>
    accountPools b = (accountPools a)(i \<mapsto> p) \<and>
    unat (totalStake b) + unat (PoolStake p) = pool_sum PoolStake ((accountPools a)(i \<mapsto> p)) \<and>
    unat (totalValidatorStake b) + unat (ValidatorStake p) = pool_sum ValidatorStake ((accountPools a)(i \<mapsto> p))"
proof -
  note ok' = ok [unfolded accounts_ok_pool_sum]
  note u = pool_sum_upd [of "accountPools a" PoolStake i p] pool_sum_upd [of "accountPools a" ValidatorStake i p]
  show ?thesis
  proof (cases "accountPools a i")
    case None
    then show ?thesis using u ok'
      by (intro exI [of _ "a\<lparr>accountPools := (accountPools a)(i \<mapsto> p)\<rparr>"]) (simp add: setWithoutLocking_def)
  next
    case (Some q)
    have l: "unat (PoolStake q) \<le> unat (totalStake a)" "unat (ValidatorStake q) \<le> unat (totalValidatorStake a)"
      using ok' Some member_le_sum [of i "dom (accountPools a)" "\<lambda>i. unat (PoolStake (the (accountPools a i)))"]
        member_le_sum [of i "dom (accountPools a)" "\<lambda>i. unat (ValidatorStake (the (accountPools a i)))"]
      by (auto simp: pool_sum_def)
    have s: "sub_u64 sm (totalStake a) (PoolStake q) = Some (totalStake a - PoolStake q)"
      "unat (totalStake a - PoolStake q) = unat (totalStake a) - unat (PoolStake q)"
      "sub_u64 sm (totalValidatorStake a) (ValidatorStake q) = Some (totalValidatorStake a - ValidatorStake q)"
      "unat (totalValidatorStake a - ValidatorStake q) = unat (totalValidatorStake a) - unat (ValidatorStake q)"
      by (fact sub_u64_fits [OF sm l(1)] sub_u64_fits [OF sm l(2)])+
    let ?b = "a\<lparr>totalStake := totalStake a - PoolStake q, totalValidatorStake := totalValidatorStake a - ValidatorStake q,
      accountPools := (accountPools a)(i \<mapsto> p)\<rparr>"
    have "unat (totalStake ?b) + unat (PoolStake p) = pool_sum PoolStake ((accountPools a)(i \<mapsto> p))"
      "unat (totalValidatorStake ?b) + unat (ValidatorStake p) = pool_sum ValidatorStake ((accountPools a)(i \<mapsto> p))"
      using u ok' Some l s(2,4) by simp_all
    then show ?thesis using Some s(1,3) by (intro exI [of _ ?b]) (simp add: setWithoutLocking_def)
  qed
qed

lemma setWithoutLocking_sums:
  assumes "safemath_ok sm" "accounts_ok a"
  shows "case setWithoutLocking sm i p a of
      Inr a' \<Rightarrow> accounts_ok a' \<and> accountPools a' = (accountPools a)(i \<mapsto> p)
    | Inl e \<Rightarrow> 2 ^ 64 \<le> pool_sum PoolStake ((accountPools a)(i \<mapsto> p)) \<or>
        2 ^ 64 \<le> pool_sum ValidatorStake ((accountPools a)(i \<mapsto> p))"
proof -
  obtain b where b: "setWithoutLocking sm i p a =
      and_then (or_err (TotalStakeError i) (add_u64 sm (totalStake b) (PoolStake p))) (\<lambda>stake.
      and_then (or_err (TotalValidatorStakeError i) (add_u64 sm (totalValidatorStake b) (ValidatorStake p))) (\<lambda>validatorStake.
      Inr (b\<lparr>totalStake := stake, totalValidatorStake := validatorStake\<rparr>)))"
    "accountPools b = (accountPools a)(i \<mapsto> p)"
    "unat (totalStake b) + unat (PoolStake p) = pool_sum PoolStake ((accountPools a)(i \<mapsto> p))"
    "unat (totalValidatorStake b) + unat (ValidatorStake p) = pool_sum ValidatorStake ((accountPools a)(i \<mapsto> p))"
    using set_removes_old [OF assms] by blast
  have fin: "finite (dom (accountPools a))" using assms(2) by (simp add: accounts_ok_def)
  note f = add_u64_fits [OF assms(1), of "totalStake b" "PoolStake p"]
    add_u64_fits [OF assms(1), of "totalValidatorStake b" "ValidatorStake p"]
  show ?thesis
    by (cases "add_u64 sm (totalStake b) (PoolStake p)"; cases "add_u64 sm (totalValidatorStake b) (ValidatorStake p)")
      (use f fin in \<open>simp_all add: b accounts_ok_pool_sum\<close>)
qed

text \<open>
  C12. Setting the pool of an account keeps the totals equal to the sums over all pools; it fails
  exactly when one of the new sums does not fit 64 bits, never because of the subtractions.
\<close>

theorem setWithoutLocking_totals:
  assumes "safemath_ok sm" "accounts_ok a"
  shows "case setWithoutLocking sm i p a of
      Inr a' \<Rightarrow> accounts_ok a' \<and> accountPools a' = (accountPools a)(i \<mapsto> p)
    | Inl e \<Rightarrow> 2 ^ 64 \<le> pool_sum PoolStake ((accountPools a)(i \<mapsto> p)) \<or>
        2 ^ 64 \<le> pool_sum ValidatorStake ((accountPools a)(i \<mapsto> p))"
  by (rule setWithoutLocking_sums [OF assms])

theorem setWithoutLocking_totals_witness:
  "\<exists>a'. setWithoutLocking checked_math 7 \<lparr>PoolStake = 10, ValidatorStake = 4, PoolFixedCost = 1\<rparr> NewAccounts = Inr a' \<and>
     accounts_ok a'"
proof -
  have "accounts_ok NewAccounts" by (simp add: accounts_ok_def NewAccounts_def)
  from setWithoutLocking_totals [OF safemath_ok_checked this, of 7 "\<lparr>PoolStake = 10, ValidatorStake = 4, PoolFixedCost = 1\<rparr>"]
  show ?thesis by (auto simp: pool_sum_def NewAccounts_def split: sum.splits)
qed

section \<open>Seats\<close>

lemma skipTaken_least:
  assumes "current \<le> d" "d \<notin> taken" "\<And>i. current \<le> i \<Longrightarrow> i < d \<Longrightarrow> i \<in> taken"
  shows "skipTaken taken current = Some d"
  using assms
proof (induction "unat d - unat current" arbitrary: current rule: less_induct)
  case less
  show ?case
  proof (cases "current = d")
    case True
    then show ?thesis using less.prems(2) by (simp add: skipTaken.simps)
  next
    case False
    then have lt: "current < d" using less.prems(1) by simp
    then have s: "unat (current + 1) = unat current + 1" by (rule unat_Suc_less)
    have "skipTaken taken (current + 1) = Some d"
    proof (rule less.hyps)
      show "unat d - unat (current + 1) < unat d - unat current" using lt s by (simp add: word_less_nat_alt)
      show "current + 1 \<le> d" using lt s by (simp add: word_less_nat_alt word_le_nat_alt)
      show "i \<in> taken" if "current + 1 \<le> i" "i < d" for i
        using less.prems(3) [of i] that s by (simp add: word_less_nat_alt word_le_nat_alt)
    qed (fact less.prems(2))
    then show ?thesis using less.prems(3) [of current] lt by (simp add: skipTaken.simps)
  qed
qed

text \<open>When not all seats are used there is a next one, and everything below it is used.\<close>

lemma skipTaken_free:
  fixes used :: "u8 set"
  assumes "card used < 256" "\<And>i. i < current \<Longrightarrow> i \<in> used" "used = taken \<union> assigned" "\<And>i. i \<in> assigned \<Longrightarrow> i < current"
  shows "\<exists>d. skipTaken taken current = Some d \<and> d \<notin> used \<and> current \<le> d \<and> (\<forall>i<d. i \<in> used)"
proof -
  have "card (UNIV :: u8 set) = 256" by (simp add: card_word)
  then have "used \<noteq> UNIV" using assms(1) by auto
  then obtain e where "e \<notin> used" by blast
  then have e: "unat e \<in> unat ` (- used)" by blast
  define d where "d = (arg_min unat (\<lambda>x. x \<notin> used) :: u8)"
  have d: "d \<notin> used" unfolding d_def by (rule arg_min_natI) fact
  have least: "unat d \<le> unat x" if "x \<notin> used" for x
    unfolding d_def by (rule arg_min_nat_le) fact
  have below: "\<forall>i<d. i \<in> used" using least by (metis leD word_less_nat_alt)
  have cd: "current \<le> d" using assms(2) d by (metis not_le_imp_less)
  have "skipTaken taken current = Some d"
  proof (rule skipTaken_least [OF cd])
    show "d \<notin> taken" using d assms(3) by blast
    show "i \<in> taken" if "current \<le> i" "i < d" for i
      using below that assms(3,4) by fastforce
  qed
  then show ?thesis using d cd below by blast
qed


lemma SeatedAccounts_Set_free:
  assumes "accountPools (sa_accounts s) i \<noteq> None" "seatsByAccount s i = None"
  shows "SeatedAccounts_Set seat i s = s\<lparr>seatsByAccount := (seatsByAccount s)(i \<mapsto> seat)\<rparr>"
  using assms by (cases "accountPools (sa_accounts s) i") (simp_all add: SeatedAccounts_Set_def)

text \<open>
  The committee and the counter between two members: seats are distinct, everything below the
  counter is used and every seat given to a new member is below the counter.
\<close>

definition seats_inv :: "u8 set \<Rightarrow> u8 \<Rightarrow> (account_id \<rightharpoonup> u8) \<Rightarrow> bool" where
  "seats_inv taken current seats \<longleftrightarrow> inj_on seats (dom seats) \<and> finite (dom seats) \<and> taken \<subseteq> ran seats \<and>
     (\<forall>i<current. i \<in> ran seats) \<and> (\<forall>i\<in>ran seats - taken. i < current)"

lemma card_ran_inj: "inj_on seats (dom seats) \<Longrightarrow> card (ran seats) = card (dom seats)"
proof -
  assume i: "inj_on seats (dom seats)"
  have "ran seats = (the \<circ> seats) ` dom seats" by (force simp: ran_def)
  moreover have "inj_on (the \<circ> seats) (dom seats)"
    using i by (auto simp: inj_on_def dom_def)
  ultimately show ?thesis by (metis card_image)
qed

lemma inj_on_upd: "inj_on m (dom m) \<Longrightarrow> m k = None \<Longrightarrow> v \<notin> ran m \<Longrightarrow> inj_on (m(k \<mapsto> v)) (dom (m(k \<mapsto> v)))"
  by (auto simp: inj_on_def ran_def)

lemma ran_upd: "m k = None \<Longrightarrow> ran (m(k \<mapsto> v)) = insert v (ran m)"
  by (rule ran_map_upd)

lemma seats_inv_skip:
  assumes "seats_inv taken current seats" "card (dom seats) < 256"
  shows "\<exists>d. skipTaken taken current = Some d \<and> d \<notin> ran seats \<and> seats_inv taken d seats"
proof -
  note i = assms(1) [unfolded seats_inv_def]
  have "\<exists>d. skipTaken taken current = Some d \<and> d \<notin> ran seats \<and> current \<le> d \<and> (\<forall>i<d. i \<in> ran seats)"
    by (rule skipTaken_free [where assigned = "ran seats - taken"])
      (use i assms(2) in \<open>auto simp: card_ran_inj\<close>)
  then show ?thesis using i unfolding seats_inv_def by (metis less_le_trans)
qed

lemma seats_inv_assign:
  assumes i: "seats_inv taken d seats" and d: "d \<notin> ran seats" and k: "seats k = None" and c: "card (dom seats) < 255"
  shows "seats_inv taken (d + 1) (seats(k \<mapsto> d))"
proof -
  note i' = i [unfolded seats_inv_def]
  have "card (insert d (ran seats)) < 256"
    using c i' card_ran_inj [of seats] by (simp add: card_insert_if)
  moreover have "card (UNIV :: u8 set) = 256" by (simp add: card_word)
  ultimately have "insert d (ran seats) \<noteq> UNIV" by auto
  then obtain e where e: "e \<noteq> d" "e \<notin> ran seats" by blast
  then have "\<not> e < d" using i' by blast
  then have "d < e" using e(1) by simp
  then have s: "unat (d + 1) = unat d + 1" by (rule unat_Suc_less)
  have l: "x < d + 1 \<longleftrightarrow> x < d \<or> x = d" for x
    using s by (simp add: word_less_nat_alt less_Suc_eq unat_eq_iff)
  have "inj_on (seats(k \<mapsto> d)) (dom (seats(k \<mapsto> d)))" using inj_on_upd [OF _ k d] i' by blast
  moreover have "finite (dom (seats(k \<mapsto> d)))" using i' by simp
  moreover have "taken \<subseteq> insert d (ran seats)" "\<forall>i. i < d \<or> i = d \<longrightarrow> i \<in> insert d (ran seats)"
    "\<forall>i\<in>insert d (ran seats) - taken. i < d \<or> i = d" using i' by blast+
  ultimately show ?thesis unfolding seats_inv_def ran_upd [of seats k d, OF k] l by blast
qed

lemma assignSeats_ok:
  assumes "seats_inv taken current (seatsByAccount c)" "distinct ids"
    and "set ids \<subseteq> dom (accountPools (sa_accounts c))"
    and "\<And>i. i \<in> set ids \<Longrightarrow> GetSeat prev i = None \<longleftrightarrow> seatsByAccount c i = None"
    and "card (dom (seatsByAccount c) \<union> set ids) < 256"
  shows "\<exists>c'. assignSeats prev taken ids current c = Some c' \<and> sa_accounts c' = sa_accounts c \<and> reused c' = reused c \<and>
    dom (seatsByAccount c') = dom (seatsByAccount c) \<union> set ids \<and>
    inj_on (seatsByAccount c') (dom (seatsByAccount c')) \<and>
    (\<forall>i\<in>dom (seatsByAccount c). seatsByAccount c' i = seatsByAccount c i)"
  using assms
proof (induction ids arbitrary: current c)
  case Nil
  then show ?case by (simp add: seats_inv_def)
next
  case (Cons k ids)
  have fin: "finite (dom (seatsByAccount c))" using Cons.prems(1) by (simp add: seats_inv_def)
  have sub: "dom (seatsByAccount c) \<subseteq> dom (seatsByAccount c) \<union> set (k # ids)" by blast
  have cc: "card (dom (seatsByAccount c)) < 256"
    using card_mono [OF _ sub] Cons.prems(5) fin by simp
  obtain d where d: "skipTaken taken current = Some d" "d \<notin> ran (seatsByAccount c)" "seats_inv taken d (seatsByAccount c)"
    using seats_inv_skip [OF Cons.prems(1) cc] by blast
  show ?case
  proof (cases "GetSeat prev k = None")
    case True
    then have k: "seatsByAccount c k = None" using Cons.prems(4) by simp
    have eq: "dom (seatsByAccount c) \<union> set (k # ids) = dom ((seatsByAccount c)(k \<mapsto> d)) \<union> set ids" by auto
    have "card (dom ((seatsByAccount c)(k \<mapsto> d))) = Suc (card (dom (seatsByAccount c)))"
      using fin k by (simp add: card_insert_if domIff)
    moreover have "card (dom ((seatsByAccount c)(k \<mapsto> d))) \<le> card (dom ((seatsByAccount c)(k \<mapsto> d)) \<union> set ids)"
      by (rule card_mono) (use fin in auto)
    ultimately have c255: "card (dom (seatsByAccount c)) < 255" using Cons.prems(5) unfolding eq by linarith
    let ?c = "c\<lparr>seatsByAccount := (seatsByAccount c)(k \<mapsto> d)\<rparr>"
    have set_k: "SeatedAccounts_Set d k c = ?c" using SeatedAccounts_Set_free k Cons.prems(3) by auto
    have "\<exists>c'. assignSeats prev taken ids (d + 1) ?c = Some c' \<and> sa_accounts c' = sa_accounts ?c \<and> reused c' = reused ?c \<and>
      dom (seatsByAccount c') = dom (seatsByAccount ?c) \<union> set ids \<and>
      inj_on (seatsByAccount c') (dom (seatsByAccount c')) \<and>
      (\<forall>i\<in>dom (seatsByAccount ?c). seatsByAccount c' i = seatsByAccount ?c i)"
    proof (rule Cons.IH)
      show "seats_inv taken (d + 1) (seatsByAccount ?c)"
        using seats_inv_assign [OF d(3,2) k c255] by simp
      show "card (dom (seatsByAccount ?c) \<union> set ids) < 256" using Cons.prems(5) unfolding eq by simp
    qed (use Cons.prems in auto)
    then show ?thesis using True d(1) set_k eq k by auto
  next
    case False
    then have "k \<in> dom (seatsByAccount c)" using Cons.prems(4) by auto
    then have eq: "dom (seatsByAccount c) \<union> set (k # ids) = dom (seatsByAccount c) \<union> set ids" by auto
    have "assignSeats prev taken (k # ids) current c = assignSeats prev taken ids d c" using False d(1) by auto
    then show ?thesis unfolding eq using Cons.IH [OF d(3)] Cons.prems(2-5) unfolding eq by simp
  qed
qed

lemma keepSeats_fold:
  assumes "distinct ids" "set ids \<subseteq> dom (accountPools (sa_accounts c))" "set ids \<inter> dom (seatsByAccount c) = {}"
  shows "fold (\<lambda>accountID (committee, taken).
         case GetSeat prev accountID of
           None \<Rightarrow> (committee, taken)
         | Some seat \<Rightarrow> (SeatedAccounts_Set seat accountID committee, insert seat taken)) ids (c, taken)
    = (c\<lparr>seatsByAccount := seatsByAccount c ++ (seatsByAccount prev |` set ids)\<rparr>,
       taken \<union> ran (seatsByAccount prev |` set ids))"
  using assms
proof (induction ids arbitrary: c taken)
  case Nil
  then show ?case by simp
next
  case (Cons k ids)
  show ?case
  proof (cases "GetSeat prev k")
    case None
    then have r: "seatsByAccount prev |` insert k (set ids) = seatsByAccount prev |` set ids"
      by (auto simp: fun_eq_iff restrict_map_def GetSeat_def)
    show ?thesis using Cons None by (simp add: r)
  next
    case (Some s)
    have r: "seatsByAccount prev |` insert k (set ids) = (seatsByAccount prev |` set ids)(k \<mapsto> s)"
      using Some by (auto simp: fun_eq_iff restrict_map_def GetSeat_def)
    have k: "k \<notin> set ids" using Cons.prems(1) by simp
    then have n: "(seatsByAccount prev |` set ids) k = None" by simp
    let ?c = "c\<lparr>seatsByAccount := (seatsByAccount c)(k \<mapsto> s)\<rparr>"
    have "SeatedAccounts_Set s k c = ?c"
      by (rule SeatedAccounts_Set_free) (use Cons.prems in auto)
    moreover have "seatsByAccount ?c ++ (seatsByAccount prev |` set ids) =
      seatsByAccount c ++ (seatsByAccount prev |` set (k # ids))"
      using k Some by (auto simp: fun_eq_iff map_add_def restrict_map_def GetSeat_def split: option.splits)
    moreover have "insert s taken \<union> ran (seatsByAccount prev |` set ids) = taken \<union> ran (seatsByAccount prev |` set (k # ids))"
      unfolding list.set(2) r ran_upd [of "seatsByAccount prev |` set ids" k s, OF n] by simp
    moreover have "fold (\<lambda>accountID (committee, taken).
         case GetSeat prev accountID of
           None \<Rightarrow> (committee, taken)
         | Some seat \<Rightarrow> (SeatedAccounts_Set seat accountID committee, insert seat taken)) ids (?c, insert s taken)
      = (?c\<lparr>seatsByAccount := seatsByAccount ?c ++ (seatsByAccount prev |` set ids)\<rparr>,
         insert s taken \<union> ran (seatsByAccount prev |` set ids))"
    proof (rule Cons.IH)
      show "set ids \<inter> dom (seatsByAccount ?c) = {}" using Cons.prems(3) k by simp
    qed (use Cons.prems(1,2) in simp_all)
    ultimately show ?thesis using Some by (simp only: fold_simps prod.case option.case) simp
  qed
qed

text \<open>
  C9. Electing a committee of fewer than 256 members returns, gives every member a seat of its own
  and lets every re-elected member keep the seat it had in the previous committee.
\<close>

theorem SeatedAccounts_seats:
  assumes "enumerates iter" "finite (dom (accountPools a))" "card (dom (accountPools a)) < 256"
    and "inj_on (seatsByAccount prev) (dom (seatsByAccount prev))"
  shows "\<exists>c. Accounts_SeatedAccounts iter (Some prev) a = Some c \<and> sa_accounts c = a \<and>
    dom (seatsByAccount c) = dom (accountPools a) \<and> inj_on (seatsByAccount c) (dom (seatsByAccount c)) \<and>
    (\<forall>i\<in>dom (accountPools a). HasAccount prev i \<longrightarrow> GetSeat c i = GetSeat prev i)"
proof -
  let ?P = "dom (accountPools a)" and ?s = "seatsByAccount prev |` dom (accountPools a)"
  let ?c = "(NewSeatedAccounts a [])\<lparr>seatsByAccount := ?s\<rparr>"
  have it: "set (iter ?P) = ?P" "distinct (iter ?P)" using assms(1,2) unfolding enumerates_def by blast+
  have k: "keepSeats iter prev a = (?c, ran ?s)"
    unfolding keepSeats_def
    by (subst keepSeats_fold) (use it in \<open>auto simp: NewSeatedAccounts_def\<close>)
  have d: "dom ?s \<union> ?P = ?P" by auto
  have "seats_inv (ran ?s) 0 (seatsByAccount ?c)"
  proof -
    have "inj_on ?s (dom ?s)"
    proof (rule inj_onI)
      fix x y assume xy: "x \<in> dom ?s" "y \<in> dom ?s" "?s x = ?s y"
      then have "x \<in> dom (seatsByAccount prev)" "y \<in> dom (seatsByAccount prev)" "seatsByAccount prev x = seatsByAccount prev y"
        by (auto simp: restrict_map_def split: if_splits)
      then show "x = y" using assms(4) by (blast dest: inj_onD)
    qed
    moreover have "finite (dom ?s)" using assms(2) by simp
    ultimately show ?thesis by (simp add: seats_inv_def)
  qed
  then have "\<exists>c'. assignSeats prev (ran ?s) (sort (IDs iter a)) 0 ?c = Some c' \<and> sa_accounts c' = sa_accounts ?c \<and>
    reused c' = reused ?c \<and> dom (seatsByAccount c') = dom (seatsByAccount ?c) \<union> set (sort (IDs iter a)) \<and>
    inj_on (seatsByAccount c') (dom (seatsByAccount c')) \<and>
    (\<forall>i\<in>dom (seatsByAccount ?c). seatsByAccount c' i = seatsByAccount ?c i)"
    by (rule assignSeats_ok) (use it assms(3) d in \<open>simp_all add: IDs_def NewSeatedAccounts_def GetSeat_def\<close>)
  then obtain c' where c': "assignSeats prev (ran ?s) (sort (IDs iter a)) 0 ?c = Some c'" "sa_accounts c' = a"
    "dom (seatsByAccount c') = ?P" "inj_on (seatsByAccount c') (dom (seatsByAccount c'))"
    "\<And>i. i \<in> dom ?s \<Longrightarrow> seatsByAccount c' i = ?s i"
    using d it by (auto simp: IDs_def NewSeatedAccounts_def)
  have "GetSeat c' i = GetSeat prev i" if "i \<in> ?P" "HasAccount prev i" for i
  proof -
    have "i \<in> dom ?s" using that by (simp add: HasAccount_def domIff)
    then show ?thesis using c'(5) that(1) by (simp add: GetSeat_def)
  qed
  moreover have "Accounts_SeatedAccounts iter (Some prev) a = Some c'"
    using c'(1) by (simp add: Accounts_SeatedAccounts_def k)
  ultimately show ?thesis using c'(2-4) by blast
qed


definition demo_accounts :: accounts where
  "demo_accounts = (let p = \<lparr>PoolStake = 10, ValidatorStake = 4, PoolFixedCost = 1\<rparr> in
     \<lparr>accountPools = [5 \<mapsto> p, 7 \<mapsto> p, 9 \<mapsto> p], totalStake = 30, totalValidatorStake = 12\<rparr>)"

definition demo_committee :: seated_accounts where
  "demo_committee = \<lparr>sa_accounts = NewAccounts, seatsByAccount = [7 \<mapsto> 0, 4 \<mapsto> 1], reused = False\<rparr>"

theorem SeatedAccounts_seats_witness:
  "\<exists>c. Accounts_SeatedAccounts sorted_list_of_set (Some demo_committee) demo_accounts = Some c \<and>
     GetSeat c 7 = Some 0 \<and> dom (seatsByAccount c) = {5, 7, 9} \<and> inj_on (seatsByAccount c) (dom (seatsByAccount c))"
proof -
  have d: "dom (accountPools demo_accounts) = {5, 7, 9}" by (auto simp: demo_accounts_def Let_def)
  have "inj_on (seatsByAccount demo_committee) (dom (seatsByAccount demo_committee))"
    by (simp add: demo_committee_def inj_on_def)
  from SeatedAccounts_seats [OF enumerates_sorted_list _ _ this, of demo_accounts]
  show ?thesis by (auto simp: d HasAccount_def GetSeat_def demo_committee_def)
qed

lemma skipTaken_empty [simp]: "skipTaken {} i = Some i"
  by (simp add: skipTaken.simps)

lemma assignSeats_fresh:
  assumes "distinct ids" "set ids \<subseteq> dom (accountPools (sa_accounts c))" "set ids \<inter> dom (seatsByAccount c) = {}"
    and "\<And>i. GetSeat prev i = None"
  shows "assignSeats prev {} ids (word_of_nat n) c =
    Some (c\<lparr>seatsByAccount := fold (\<lambda>(i, member) seats. seats(member \<mapsto> word_of_nat i)) (enumerate n ids) (seatsByAccount c)\<rparr>)"
  using assms(1-3)
proof (induction ids arbitrary: n c)
  case Nil
  then show ?case by simp
next
  case (Cons k ids)
  let ?c = "c\<lparr>seatsByAccount := (seatsByAccount c)(k \<mapsto> word_of_nat n)\<rparr>"
  have "SeatedAccounts_Set (word_of_nat n) k c = ?c"
    by (rule SeatedAccounts_Set_free) (use Cons.prems in auto)
  moreover have "assignSeats prev {} ids (word_of_nat (Suc n)) ?c =
    Some (?c\<lparr>seatsByAccount := fold (\<lambda>(i, member) seats. seats(member \<mapsto> word_of_nat i)) (enumerate (Suc n) ids) (seatsByAccount ?c)\<rparr>)"
  proof (rule Cons.IH)
    show "set ids \<inter> dom (seatsByAccount ?c) = {}" using Cons.prems(1,3) by simp
  qed (use Cons.prems(1,2) in simp_all)
  moreover have "word_of_nat (Suc n) = (word_of_nat n + 1 :: u8)" by (simp add: add.commute)
  ultimately show ?case using assms(4)
    by (simp only: assignSeats.simps skipTaken_empty bind.simps simp_thms if_True enumerate_simps fold_simps prod.case)
      simp
qed

text \<open>
  Electing a committee without a previous one is the same as seating its members in the
  order of their identifiers.
\<close>

theorem SeatedAccounts_fresh:
  assumes "enumerates iter" "finite (dom (accountPools a))"
  shows "Accounts_SeatedAccounts iter None a = Some (NewSeatedAccounts a (IDs iter a))"
proof -
  let ?prev = "NewSeatedAccounts NewAccounts []" and ?P = "dom (accountPools a)"
  have it: "set (iter ?P) = ?P" "distinct (iter ?P)" using assms unfolding enumerates_def by blast+
  have n: "GetSeat ?prev i = None" for i by (simp add: GetSeat_def NewSeatedAccounts_def)
  have "keepSeats iter ?prev a = (NewSeatedAccounts a [], {})"
  proof -
    have "fold (\<lambda>i. id) xs s = s" for xs :: "account_id list" and s :: "seated_accounts \<times> u8 set"
      by (induction xs) simp_all
    then show ?thesis by (simp add: keepSeats_def n)
  qed
  moreover have "assignSeats ?prev {} (sort (IDs iter a)) (word_of_nat 0) (NewSeatedAccounts a []) =
      Some ((NewSeatedAccounts a [])\<lparr>seatsByAccount := fold (\<lambda>(i, member) seats. seats(member \<mapsto> word_of_nat i))
        (enumerate 0 (sort (IDs iter a))) (seatsByAccount (NewSeatedAccounts a []))\<rparr>)"
    by (rule assignSeats_fresh) (use it n in \<open>simp_all add: IDs_def NewSeatedAccounts_def\<close>)
  ultimately show ?thesis by (simp add: Accounts_SeatedAccounts_def NewSeatedAccounts_def)
qed

theorem SeatedAccounts_fresh_witness:
  "Accounts_SeatedAccounts sorted_list_of_set None demo_accounts = Some (NewSeatedAccounts demo_accounts [5, 7, 9])"
proof -
  have d: "dom (accountPools demo_accounts) = {5, 7, 9}" by (auto simp: demo_accounts_def Let_def)
  show ?thesis using SeatedAccounts_fresh [OF enumerates_sorted_list, of demo_accounts] by (simp add: IDs_def d)
qed

section \<open>Reusing a committee\<close>

lemma pool_sum_mono:
  assumes "finite (dom ps)" "qs \<subseteq>\<^sub>m ps"
  shows "pool_sum f qs \<le> pool_sum f ps"
proof -
  have d: "dom qs \<subseteq> dom ps" using assms(2) by (rule map_le_implies_dom_le)
  have "pool_sum f qs = (\<Sum>i\<in>dom qs. unat (f (the (ps i))))"
    unfolding pool_sum_def by (rule sum.cong) (use assms(2) in \<open>auto simp: map_le_def\<close>)
  also have "\<dots> \<le> pool_sum f ps" unfolding pool_sum_def by (rule sum_mono2) (use assms(1) d in auto)
  finally show ?thesis .
qed

lemma SeatedAccounts_Accounts_loop:
  assumes sm: "safemath_ok sm" and ok: "accounts_ok a" and full: "accounts_ok s" "accountPools a \<subseteq>\<^sub>m accountPools s"
    and "set ids \<subseteq> dom (accountPools s)"
  shows "\<exists>a'. range_loop (\<lambda>i a. and_then (or_err (PanicAccountNotFound i) (accountPools s i))
         (\<lambda>p. setWithoutLocking sm i p a)) ids a = Inr a' \<and>
    accounts_ok a' \<and> accountPools a' = accountPools a ++ (accountPools s |` set ids)"
  using ok full(2) assms(5)
proof (induction ids arbitrary: a)
  case Nil
  then show ?case by simp
next
  case (Cons i ids)
  then obtain p where p: "accountPools s i = Some p" by auto
  have le: "(accountPools a)(i \<mapsto> p) \<subseteq>\<^sub>m accountPools s" using Cons.prems(2) p by (auto simp: map_le_def)
  have fin: "finite (dom (accountPools s))" and t: "unat (totalStake s) = pool_sum PoolStake (accountPools s)"
    "unat (totalValidatorStake s) = pool_sum ValidatorStake (accountPools s)"
    using full(1) by (simp_all add: accounts_ok_pool_sum)
  have "pool_sum PoolStake ((accountPools a)(i \<mapsto> p)) \<le> unat (totalStake s)"
    "pool_sum ValidatorStake ((accountPools a)(i \<mapsto> p)) \<le> unat (totalValidatorStake s)"
    using pool_sum_mono [OF fin le] t by simp_all
  moreover have "unat (totalStake s) < 2 ^ 64" "unat (totalValidatorStake s) < 2 ^ 64"
    using unsigned_less [of "totalStake s"] unsigned_less [of "totalValidatorStake s"] by simp_all
  ultimately obtain a1 where a1: "setWithoutLocking sm i p a = Inr a1" "accounts_ok a1"
    "accountPools a1 = (accountPools a)(i \<mapsto> p)"
    using setWithoutLocking_sums [OF sm Cons.prems(1), of i p] by (cases "setWithoutLocking sm i p a") auto
  have "accountPools a ++ (accountPools s |` set (i # ids)) = accountPools a1 ++ (accountPools s |` set ids)"
    using p a1(3) by (auto simp: fun_eq_iff map_add_def restrict_map_def split: option.splits)
  moreover have "accountPools a1 \<subseteq>\<^sub>m accountPools s" unfolding a1(3) by (rule le)
  ultimately show ?case using Cons.IH [OF a1(2)] a1(1) p Cons.prems(3) by simp
qed

lemma Reuse_seats:
  assumes "distinct ids" "set ids \<subseteq> dom (accountPools (sa_accounts c))" "set ids \<subseteq> dom seats"
    "set ids \<inter> dom (seatsByAccount c) = {}"
  shows "fold (\<lambda>i c. SeatedAccounts_Set (the (seats i)) i c) ids c = c\<lparr>seatsByAccount := seatsByAccount c ++ (seats |` set ids)\<rparr>"
  using assms
proof (induction ids arbitrary: c)
  case Nil
  then show ?case by simp
next
  case (Cons k ids)
  then obtain s where s: "seats k = Some s" by auto
  let ?c = "c\<lparr>seatsByAccount := (seatsByAccount c)(k \<mapsto> s)\<rparr>"
  have "SeatedAccounts_Set s k c = ?c"
    by (rule SeatedAccounts_Set_free) (use Cons.prems in auto)
  moreover have "fold (\<lambda>i c. SeatedAccounts_Set (the (seats i)) i c) ids ?c =
      ?c\<lparr>seatsByAccount := seatsByAccount ?c ++ (seats |` set ids)\<rparr>"
  proof (rule Cons.IH)
    show "set ids \<inter> dom (seatsByAccount ?c) = {}" using Cons.prems(1,4) by simp
  qed (use Cons.prems in simp_all)
  moreover have "seatsByAccount ?c ++ (seats |` set ids) = seatsByAccount c ++ (seats |` set (k # ids))"
    using s Cons.prems(1) by (auto simp: fun_eq_iff map_add_def restrict_map_def split: option.splits)
  ultimately show ?case using s by (simp only: fold_simps option.sel) simp
qed

text \<open>
  C34. Reusing a committee succeeds and keeps its seats and the pools of its members, with totals
  that are those of the seated members only.
\<close>

theorem Reuse_keeps_committee:
  assumes "safemath_ok sm" "enumerates iter" "accounts_ok (sa_accounts s)"
    and "dom (seatsByAccount s) \<subseteq> dom (accountPools (sa_accounts s))"
  shows "\<exists>c. Reuse sm iter s = Inr c \<and> seatsByAccount c = seatsByAccount s \<and> reused c \<and>
    accountPools (sa_accounts c) = accountPools (sa_accounts s) |` dom (seatsByAccount s) \<and> accounts_ok (sa_accounts c)"
proof -
  let ?D = "dom (seatsByAccount s)"
  have "finite ?D" using assms(3,4) finite_subset by (auto simp: accounts_ok_def)
  then have it: "set (iter ?D) = ?D" "distinct (iter ?D)" using assms(2) unfolding enumerates_def by blast+
  have "accounts_ok NewAccounts" "accountPools NewAccounts \<subseteq>\<^sub>m accountPools (sa_accounts s)"
    by (simp_all add: accounts_ok_def NewAccounts_def)
  then obtain a where a: "SeatedAccounts_Accounts sm iter s = Inr a" "accounts_ok a"
    "accountPools a = accountPools (sa_accounts s) |` ?D"
    using SeatedAccounts_Accounts_loop [OF assms(1) _ assms(3), of NewAccounts "iter ?D"] it assms(4)
    by (auto simp: SeatedAccounts_Accounts_def NewAccounts_def)
  let ?c = "SetReused (NewSeatedAccounts a [])"
  have c: "sa_accounts ?c = a" "seatsByAccount ?c = Map.empty" "reused ?c"
    by (simp_all add: SetReused_def NewSeatedAccounts_def)
  have "fold (\<lambda>i c. SeatedAccounts_Set (the (seatsByAccount s i)) i c) (iter ?D) ?c =
      ?c\<lparr>seatsByAccount := seatsByAccount ?c ++ (seatsByAccount s |` set (iter ?D))\<rparr>"
    by (rule Reuse_seats) (use it assms(4) a(3) in \<open>auto simp: c(1,2)\<close>)
  moreover have "seatsByAccount s |` ?D = seatsByAccount s" by (rule ext) (simp add: restrict_map_def domIff)
  ultimately show ?thesis using a c it by (simp add: Reuse_def)
qed

theorem Reuse_keeps_committee_witness:
  "\<exists>c. Reuse checked_math sorted_list_of_set (demo_committee\<lparr>sa_accounts := demo_accounts, seatsByAccount := [5 \<mapsto> 1, 7 \<mapsto> 0]\<rparr>) = Inr c \<and>
     seatsByAccount c = [5 \<mapsto> 1, 7 \<mapsto> 0] \<and> reused c"
proof -
  let ?s = "demo_committee\<lparr>sa_accounts := demo_accounts, seatsByAccount := [5 \<mapsto> 1, 7 \<mapsto> 0]\<rparr>"
  have d: "dom (accountPools demo_accounts) = {5, 7, 9}" by (auto simp: demo_accounts_def Let_def)
  have "accounts_ok (sa_accounts ?s)" by (simp add: accounts_ok_def d) (simp add: demo_accounts_def Let_def)
  from Reuse_keeps_committee [OF safemath_ok_checked enumerates_sorted_list this] show ?thesis by (auto simp: d)
qed

end
