(* ===== verification/Floats.thy ===== *)
theory Floats
  imports Prelude
begin

text \<open>
  Floating point: what the code uses of \<^verbatim>\<open>float64\<close>, for numbers that are not negative.
\<close>

text \<open>
  A \<^verbatim>\<open>float64\<close> that is not negative is a number \<open>fl_mant / 2 ^ fl_scale\<close> whose mantissa has at most 53
  significant bits.  The product of two of them is rounded to 53 bits, to nearest and ties to even;
  \<^verbatim>\<open>int(x)\<close> truncates and \<^verbatim>\<open>math.Ceil\<close> rounds up.  Integers below \<open>2 ^ 53\<close> are converted exactly.
\<close>

record float64 =
  fl_mant :: nat
  fl_scale :: nat

fun excess_bits :: "nat \<Rightarrow> nat" where
  "excess_bits p = (if p < 2 ^ 53 then 0 else Suc (excess_bits (p div 2)))"

declare excess_bits.simps [simp del]

definition round53 :: "nat \<Rightarrow> nat" where
  "round53 p =
     (let k = excess_bits p; q = p div 2 ^ k; r = p mod 2 ^ k
      in (if 2 ^ k < 2 * r \<or> 2 ^ k = 2 * r \<and> odd q then q + 1 else q) * 2 ^ k)"

definition float_times :: "nat \<Rightarrow> float64 \<Rightarrow> float64" where
  "float_times n x = x\<lparr>fl_mant := round53 (n * fl_mant x)\<rparr>"

definition float_trunc :: "float64 \<Rightarrow> nat" where
  "float_trunc x = fl_mant x div 2 ^ fl_scale x"

definition float_ceil :: "float64 \<Rightarrow> nat" where
  "float_ceil x = (fl_mant x + 2 ^ fl_scale x - 1) div 2 ^ fl_scale x"

text \<open>
  The quotient of two integers below \<open>2 ^ 64\<close> that are converted to \<^verbatim>\<open>float64\<close> first, as a multiple of
  \<open>2 ^ -118\<close>.  With that many bits the quotient, whose last bit records whether the division leaves a
  remainder, has at least two bits more than the mantissa, so its rounding is that of the exact
  quotient.
\<close>

definition float_quot :: "nat \<Rightarrow> nat \<Rightarrow> nat" where
  "float_quot a b =
     (let n = round53 a * 2 ^ 117; d = round53 b
      in round53 (2 * (n div d) + (if n mod d = 0 then 0 else 1)))"

lemma excess_bits_le: "p < 2 ^ (53 + j) \<Longrightarrow> excess_bits p \<le> j"
proof (induction j arbitrary: p)
  case 0
  then show ?case by (simp add: excess_bits.simps)
next
  case (Suc j)
  then have "p div 2 < 2 ^ (53 + j)" by (simp add: power_add)
  then show ?case using Suc.IH [of "p div 2"] by (subst excess_bits.simps) simp
qed

lemma round53_near:
  "2 * round53 p \<le> 2 * p + 2 ^ excess_bits p" "2 * p \<le> 2 * round53 p + 2 ^ excess_bits p"
proof -
  let ?k = "excess_bits p"
  let ?q = "p div 2 ^ ?k" and ?r = "p mod 2 ^ ?k"
  have p: "p = ?q * 2 ^ ?k + ?r" by (rule div_mult_mod_eq [symmetric])
  have r: "?r < 2 ^ ?k" by simp
  have "round53 p = ?q * 2 ^ ?k + 2 ^ ?k \<and> 2 ^ ?k \<le> 2 * ?r \<or> round53 p = ?q * 2 ^ ?k \<and> 2 * ?r \<le> 2 ^ ?k"
    by (auto simp: round53_def Let_def)
  then show "2 * round53 p \<le> 2 * p + 2 ^ ?k" "2 * p \<le> 2 * round53 p + 2 ^ ?k"
    using p r by linarith+
qed

lemma round53_0: "round53 0 = 0"
  by (simp add: round53_def excess_bits.simps)

lemma round53_pos: "0 < p \<Longrightarrow> 0 < round53 p"
proof -
  assume p: "0 < p"
  have "0 < p div 2 ^ excess_bits p"
    using p by (induction p rule: excess_bits.induct) (subst excess_bits.simps, simp add: div_mult2_eq)
  then show ?thesis by (simp add: round53_def Let_def)
qed

lemma float_quot_0 [simp]: "float_quot 0 b = 0"
  by (simp add: float_quot_def round53_0)

lemma float_quot_pos: "0 < a \<Longrightarrow> 0 < float_quot a b"
proof -
  assume a: "0 < a"
  let ?n = "round53 a * 2 ^ 117" and ?d = "round53 b"
  have "0 < ?n" using round53_pos [OF a] by simp
  have "0 < 2 * (?n div ?d) + (if ?n mod ?d = 0 then 0 else 1)"
  proof (cases "?n mod ?d = 0")
    case True
    then have "?n div ?d \<noteq> 0" using \<open>0 < ?n\<close> by (metis mult_div_mod_eq add_0_right mult_0_right less_irrefl)
    then show ?thesis by simp
  qed simp
  then show "0 < float_quot a b" unfolding float_quot_def Let_def by (rule round53_pos)
qed

end
