(* ===== verification/Votes.thy ===== *)
theory Votes
  imports Seats Floats
begin

text \<open>
  Votes and thresholds: \<^verbatim>\<open>votes/utils.go\<close>, \<^verbatim>\<open>votes/constants.go\<close>,
  \<^verbatim>\<open>core/acceptance/threshold_provider.go\<close>, \<^verbatim>\<open>votes/slottracker/slottracker.go\<close> and the slot gadget
  \<^verbatim>\<open>consensus/slotgadget/totalweightslotgadget/gadget.go\<close>.

  The thresholds are computed in floating point; the lemmas show that for committees of up to 256
  seats (seat indices have 8 bits) they are the exact comparisons.  The locale \<open>quorum\<close> holds what
  the gadgets use of a threshold.  A slot tracker refines the map from voters to their latest vote,
  and the slot gadget finalizes slots without gaps.
\<close>


section \<open>Thresholds\<close>

text \<open>The constant 0.67, the nearest number with 53 bits.\<close>

definition SuperMajority :: float64 where
  "SuperMajority = \<lparr>fl_mant = 6034823500676465, fl_scale = 53\<rparr>"

definition IsThresholdReached :: "nat \<Rightarrow> nat \<Rightarrow> float64 \<Rightarrow> bool" where
  "IsThresholdReached objectWeight totalWeight threshold =
     (if totalWeight = 0 then False
      else objectWeight > float_trunc (float_times totalWeight threshold))"

definition ThresholdProvider :: "nat \<Rightarrow> nat" where
  "ThresholdProvider totalWeight = max (float_ceil (float_times totalWeight SuperMajority)) 1"

subsection \<open>Rounding\<close>

lemma round53_100: "round53 (100 * 6034823500676465) = 67 * 2 ^ 53"
  by (simp add: round53_def excess_bits.simps Let_def)

lemma round53_200: "round53 (200 * 6034823500676465) = 134 * 2 ^ 53"
  by (simp add: round53_def excess_bits.simps Let_def)

text \<open>The product with 0.67 for a number of seats that is no multiple of 100.\<close>

lemma times_067:
  assumes "n \<le> 256" "67 * n mod 100 \<noteq> 0"
  defines "p \<equiv> round53 (n * 6034823500676465)" and "q \<equiv> 67 * n div 100"
  shows "q * 2 ^ 53 < p" "p < (q + 1) * 2 ^ 53"
proof -
  let ?x = "n * 6034823500676465" and ?r = "67 * n mod 100"
  have "?x < 2 ^ (53 + 8)" using assms(1) by simp
  then have "excess_bits ?x \<le> 8" by (rule excess_bits_le)
  then have "2 ^ excess_bits ?x \<le> (2 ^ 8 :: nat)" by (rule power_increasing) simp
  then have near: "p \<le> ?x + 128" "?x \<le> p + 128"
    using round53_near [of ?x] unfolding p_def by simp_all
  have "67 * n = 100 * q + ?r" unfolding q_def by (rule mult_div_mod_eq [symmetric])
  moreover have "1 \<le> ?r" "?r \<le> 99" using assms(2) by (simp_all add: less_Suc_eq_le [symmetric])
  ultimately obtain r where qr: "67 * n = 100 * q + r" "1 \<le> r" "r \<le> 99" by blast
  have x: "100 * ?x = 9007199254740992 * (67 * n) + 36 * n" by simp
  show "q * 2 ^ 53 < p" "p < (q + 1) * 2 ^ 53"
    using x qr near assms(1) by simp_all
qed

lemma seats_mod_100:
  assumes "n \<le> 256" "67 * n mod 100 = 0"
  shows "n = 0 \<or> n = 100 \<or> n = (200::nat)"
proof -
  have "100 dvd 67 * n" using assms(2) by (simp add: mod_eq_0_iff_dvd)
  moreover have "coprime 100 (67::nat)" by (simp add: coprime_iff_gcd_eq_1 gcd_non_0_nat)
  ultimately have "100 dvd n" by (simp add: coprime_dvd_mult_right_iff)
  then obtain k where "n = 100 * k" ..
  with assms(1) show ?thesis by auto
qed

lemma trunc_067:
  assumes "n \<le> 256"
  shows "float_trunc (float_times n SuperMajority) = 67 * n div 100"
proof (cases "67 * n mod 100 = 0")
  case True
  from seats_mod_100 [OF assms True] show ?thesis
    by (elim disjE) (simp_all add: float_trunc_def float_times_def SuperMajority_def round53_0
      round53_100 [simplified] round53_200 [simplified])
next
  case False
  show ?thesis using times_067 [OF assms False]
    by (simp add: float_trunc_def float_times_def SuperMajority_def div_nat_eqI)
qed

lemma ceil_067:
  assumes "n \<le> 256"
  shows "float_ceil (float_times n SuperMajority) = (67 * n + 99) div 100"
proof (cases "67 * n mod 100 = 0")
  case True
  from seats_mod_100 [OF assms True] show ?thesis
    by (elim disjE) (simp_all add: float_ceil_def float_times_def SuperMajority_def round53_0
      round53_100 [simplified] round53_200 [simplified])
next
  case False
  define q r where "q = 67 * n div 100" and "r = 67 * n mod 100"
  have "67 * n = 100 * q + r" unfolding q_def r_def by (rule mult_div_mod_eq [symmetric])
  moreover have "r < 100" "0 < r" using False by (simp_all add: r_def)
  ultimately have "(67 * n + 99) div 100 = q + 1" by (intro div_nat_eqI) simp_all
  then have "(67 * n + 99) div 100 = 67 * n div 100 + 1" by (simp only: q_def)
  then show ?thesis using times_067 [OF assms False]
    by (simp add: float_ceil_def float_times_def SuperMajority_def div_nat_eqI)
qed

lemma IsThresholdReached_seats:
  assumes "n \<le> 256"
  shows "IsThresholdReached w n SuperMajority \<longleftrightarrow> 0 < n \<and> 67 * n < 100 * w"
  unfolding IsThresholdReached_def trunc_067 [OF assms] by auto

text \<open>
  C8. For every committee of up to 256 seats the floating-point comparison with 0.67 is the exact
  one: the threshold is reached exactly by more than 67 percent of the seats.
\<close>

theorem IsThresholdReached_exact:
  assumes "n \<le> 256"
  shows "IsThresholdReached w n SuperMajority \<longleftrightarrow> 0 < n \<and> 67 * n < 100 * w"
  by (rule IsThresholdReached_seats [OF assms])

theorem IsThresholdReached_exact_witness:
  "IsThresholdReached 68 100 SuperMajority \<and> \<not> IsThresholdReached 67 100 SuperMajority"
  using IsThresholdReached_exact [of 100] by simp

text \<open>
  C35. The acceptance threshold of the spend DAG and the threshold of the block gadget agree except
  when exactly 67 percent of the seats have voted: there only the spend DAG accepts.
\<close>

theorem ThresholdProvider_agrees:
  assumes "0 < n" "n \<le> 256"
  shows "ThresholdProvider n \<le> w \<longleftrightarrow> IsThresholdReached w n SuperMajority \<or> 100 * w = 67 * n"
proof -
  have t: "ThresholdProvider n = max ((67 * n + 99) div 100) 1"
    by (simp only: ThresholdProvider_def ceil_067 [OF assms(2)])
  have "(67 * n + 99) div 100 \<le> w \<longleftrightarrow> 67 * n \<le> 100 * w" "0 < (67 * n + 99) div 100"
    using assms(1) by linarith+
  then have "ThresholdProvider n \<le> w \<longleftrightarrow> 67 * n \<le> 100 * w" unfolding t by simp
  then show ?thesis unfolding IsThresholdReached_seats [OF assms(2)] using assms(1) by auto
qed

theorem ThresholdProvider_agrees_witness:
  "ThresholdProvider 100 \<le> 67 \<and> (ThresholdProvider 10 \<le> 7 \<longleftrightarrow> IsThresholdReached 7 10 SuperMajority)"
  using ThresholdProvider_agrees [of 100 67] ThresholdProvider_agrees [of 10 7] by simp

section \<open>Quorums\<close>

text \<open>
  What the gadgets rely on: a set of seats that reaches a threshold is more than two thirds of the
  committee, and adding seats keeps it reached.
\<close>

locale quorum =
  fixes reached :: "nat \<Rightarrow> nat \<Rightarrow> bool"
  assumes two_thirds: "reached w n \<Longrightarrow> 2 * n < 3 * w"
    and reached_mono: "reached w n \<Longrightarrow> w \<le> w' \<Longrightarrow> reached w' n"
begin

lemma intersection:
  assumes "finite V" "A \<subseteq> V" "B \<subseteq> V" "reached (card A) (card V)" "reached (card B) (card V)"
  shows "card V < 3 * card (A \<inter> B)"
proof -
  have fin: "finite A" "finite B" using assms(1-3) finite_subset by auto
  have "card (A \<union> B) \<le> card V" using assms(1-3) by (intro card_mono) auto
  moreover have "card A + card B = card (A \<union> B) + card (A \<inter> B)" using fin by (rule card_Un_Int)
  ultimately show ?thesis using two_thirds [OF assms(4)] two_thirds [OF assms(5)] by linarith
qed

lemma common_outside:
  assumes "finite V" "A \<subseteq> V" "B \<subseteq> V" "reached (card A) (card V)" "reached (card B) (card V)" "3 * card F \<le> card V"
    "finite F"
  shows "\<exists>v\<in>A \<inter> B. v \<notin> F"
proof (rule ccontr)
  assume "\<not> (\<exists>v\<in>A \<inter> B. v \<notin> F)"
  then have "card (A \<inter> B) \<le> card F" using assms(7) by (intro card_mono) auto
  then show False using intersection [OF assms(1-5)] assms(6) by linarith
qed

end

interpretation super: quorum "\<lambda>w n. n \<le> 256 \<and> IsThresholdReached w n SuperMajority"
proof unfold_locales
  fix w n w' assume r: "n \<le> 256 \<and> IsThresholdReached w n SuperMajority"
  then show "2 * n < 3 * w" using IsThresholdReached_seats [of n w] by linarith
  show "n \<le> 256 \<and> IsThresholdReached w' n SuperMajority" if "w \<le> w'"
    using r IsThresholdReached_seats [of n w] IsThresholdReached_seats [of n w'] that by linarith
qed

text \<open>
  C25. Two sets of seats of one committee that both reach the 0.67 threshold share a seat that is
  not faulty, as long as at most a third of the seats is faulty.
\<close>

theorem quorums_share_honest_seat:
  assumes "finite committee" "card committee \<le> 256" "A \<subseteq> committee" "B \<subseteq> committee" "F \<subseteq> committee"
    and "IsThresholdReached (card A) (card committee) SuperMajority"
    and "IsThresholdReached (card B) (card committee) SuperMajority"
    and "3 * card F \<le> card committee"
  shows "\<exists>seat\<in>A \<inter> B. seat \<notin> F"
proof (rule super.common_outside [OF assms(1,3,4)])
  show "finite F" by (rule finite_subset [OF assms(5,1)])
qed (use assms in simp_all)

theorem quorums_share_honest_seat_witness: "\<exists>seat\<in>{0, 1, 2, 3 :: u8} \<inter> {1, 2, 3, 4}. seat \<notin> {2}"
  by (rule quorums_share_honest_seat [of "{0, 1, 2, 3, 4}"]) (simp_all add: IsThresholdReached_seats)

section \<open>The slot tracker\<close>

record slot_tracker =
  votesPerIdentity :: "account_id \<rightharpoonup> slot_index"
  votersPerSlot :: "slot_index \<rightharpoonup> account_id set"

definition NewSlotTracker :: slot_tracker where
  "NewSlotTracker = \<lparr>votesPerIdentity = Map.empty, votersPerSlot = Map.empty\<rparr>"

text \<open>\<^verbatim>\<open>slotVoters\<close> creates the set of a slot when it is missing.\<close>

definition slotVoters :: "slot_index \<Rightarrow> slot_tracker \<Rightarrow> account_id set \<times> slot_tracker" where
  "slotVoters slot s =
     (case votersPerSlot s slot of
        Some voters \<Rightarrow> (voters, s)
      | None \<Rightarrow> ({}, s\<lparr>votersPerSlot := (votersPerSlot s)(slot \<mapsto> {})\<rparr>))"

definition addVoter :: "account_id \<Rightarrow> slot_index \<Rightarrow> slot_tracker \<Rightarrow> slot_tracker" where
  "addVoter voterID slot s =
     (let (voters, s) = slotVoters slot s
      in s\<lparr>votersPerSlot := (votersPerSlot s)(slot \<mapsto> insert voterID voters)\<rparr>)"

text \<open>The result is \<^verbatim>\<open>(prevLatestSlot, latestSlot, updated)\<close>; None is a loop that does not end.\<close>

definition TrackVotes ::
  "slot_index \<Rightarrow> account_id \<Rightarrow> slot_index \<Rightarrow> slot_tracker
     \<Rightarrow> ((slot_index \<times> slot_index \<times> bool) \<times> slot_tracker) option" where
  "TrackVotes slot voterID cutoffIndex s =
     (let (voters, s) = slotVoters slot s
      in if voterID \<in> voters then Some ((0, 0, False), s)
         else
           let previousSlot = (case votesPerIdentity s voterID of None \<Rightarrow> 0 | Some x \<Rightarrow> x)
           in if slot > previousSlot then
                let s = s\<lparr>votesPerIdentity := (votesPerIdentity s)(voterID \<mapsto> slot)\<rparr>
                in map_option (\<lambda>s. ((previousSlot, slot, True), s))
                     (up_loop (addVoter voterID) (max cutoffIndex previousSlot + 1) slot s)
              else
                let s = s\<lparr>votesPerIdentity := (votesPerIdentity s)(voterID \<mapsto> previousSlot)\<rparr>
                in Some ((previousSlot, previousSlot, False), s))"

definition Voters :: "slot_tracker \<Rightarrow> slot_index \<Rightarrow> account_id set" where
  "Voters s slot = (case votersPerSlot s slot of None \<Rightarrow> {} | Some voters \<Rightarrow> voters)"

definition EvictSlot :: "slot_index \<Rightarrow> slot_tracker \<Rightarrow> slot_tracker" where
  "EvictSlot slotToEvict s =
     (case votersPerSlot s slotToEvict of
        None \<Rightarrow> s
      | Some identities \<Rightarrow>
          s\<lparr>votesPerIdentity := (\<lambda>v. if v \<in> identities \<and>
                (case votesPerIdentity s v of None \<Rightarrow> False | Some latest \<Rightarrow> latest \<le> slotToEvict)
              then None else votesPerIdentity s v),
            votersPerSlot := (votersPerSlot s)(slotToEvict := None)\<rparr>)"

section \<open>The slot gadget\<close>

text \<open>
  \<open>latestFinalizedSlotSetting\<close> is the value the gadget stores in the settings.  The number of seats
  per slot comes from the seat manager.
\<close>

record gadget =
  slotTrackers :: "slot_index \<rightharpoonup> slot_tracker"
  lastFinalizedSlot :: slot_index
  latestFinalizedSlotSetting :: slot_index

definition New_gadget :: "slot_index \<Rightarrow> gadget" where
  "New_gadget latestFinalized =
     \<lparr>slotTrackers = Map.empty, lastFinalizedSlot = latestFinalized, latestFinalizedSlotSetting = latestFinalized\<rparr>"

definition Gadget_Reset :: "slot_index \<Rightarrow> gadget \<Rightarrow> gadget" where
  "Gadget_Reset targetSlot g = g\<lparr>slotTrackers := (\<lambda>i. if targetSlot < i then None else slotTrackers g i)\<rparr>"

definition setLastFinalizedSlot :: "slot_index \<Rightarrow> gadget \<Rightarrow> gadget" where
  "setLastFinalizedSlot i g = g\<lparr>lastFinalizedSlot := i, latestFinalizedSlotSetting := i\<rparr>"

partial_function (option) refreshLoop ::
  "(slot_index \<Rightarrow> nat) \<Rightarrow> float64 \<Rightarrow> slot_tracker \<Rightarrow> slot_index \<Rightarrow> slot_index \<Rightarrow> gadget \<times> slot_index list
     \<Rightarrow> (gadget \<times> slot_index list) option" where
  "refreshLoop seatCount threshold tracker i newLatestSlotIndex s =
     (if i \<le> newLatestSlotIndex then
        if \<not> IsThresholdReached (card (Voters tracker i)) (seatCount i) threshold then Some s
        else refreshLoop seatCount threshold tracker (i + 1) newLatestSlotIndex
               (setLastFinalizedSlot i (fst s), snd s @ [i])
      else Some s)"

definition refreshSlotFinalization ::
  "(slot_index \<Rightarrow> nat) \<Rightarrow> float64 \<Rightarrow> slot_tracker \<Rightarrow> slot_index \<Rightarrow> slot_index \<Rightarrow> gadget
     \<Rightarrow> (gadget \<times> slot_index list) option" where
  "refreshSlotFinalization seatCount threshold tracker previousLatestSlotIndex newLatestSlotIndex g =
     refreshLoop seatCount threshold tracker (max (lastFinalizedSlot g) previousLatestSlotIndex + 1)
       newLatestSlotIndex (g, [])"

text \<open>
  \<^verbatim>\<open>trackVotes\<close> of a block: its slot, the slot of its commitment and its issuer.  The result
  lists the slots for which \<^verbatim>\<open>SlotFinalized\<close> is triggered.
\<close>

definition trackVotes ::
  "(slot_index \<Rightarrow> nat) \<Rightarrow> float64 \<Rightarrow> slot_index \<Rightarrow> slot_index \<Rightarrow> account_id \<Rightarrow> gadget
     \<Rightarrow> (gadget \<times> slot_index list) option" where
  "trackVotes seatCount threshold blockSlot commitmentSlot issuerID g =
     (let tracker = (case slotTrackers g blockSlot of None \<Rightarrow> NewSlotTracker | Some t \<Rightarrow> t)
      in Option.bind (TrackVotes commitmentSlot issuerID (lastFinalizedSlot g) tracker)
           (\<lambda>((prevLatestSlot, latestSlot, updated), tracker).
         let g = g\<lparr>slotTrackers := (slotTrackers g)(blockSlot \<mapsto> tracker)\<rparr>
         in Option.bind
              (if \<not> updated then Some (g, [])
               else refreshSlotFinalization seatCount threshold tracker prevLatestSlot latestSlot g)
              (\<lambda>(g, finalizedSlots).
                Some (fold (\<lambda>s g. g\<lparr>slotTrackers := (slotTrackers g)(s := None)\<rparr>) finalizedSlots g, finalizedSlots))))"

section \<open>The slot tracker as a map of latest votes\<close>

definition latestVote :: "slot_tracker \<Rightarrow> account_id \<Rightarrow> slot_index" where
  "latestVote s v = (case votesPerIdentity s v of None \<Rightarrow> 0 | Some x \<Rightarrow> x)"

text \<open>
  Above the cutoff, the voters of a slot are those whose latest vote is for that slot or a later
  one; only finitely many have voted.
\<close>

definition tracker_ok :: "slot_index \<Rightarrow> slot_tracker \<Rightarrow> bool" where
  "tracker_ok cutoff s \<longleftrightarrow> finite (dom (votesPerIdentity s)) \<and> (\<forall>i. Voters s i \<subseteq> {v. i \<le> latestVote s v}) \<and>
     (\<forall>i>cutoff. Voters s i = {v. i \<le> latestVote s v})"

lemma slotVoters_simps [simp]:
  "fst (slotVoters slot s) = Voters s slot"
  "votesPerIdentity (snd (slotVoters slot s)) = votesPerIdentity s"
  "Voters (snd (slotVoters slot s)) i = Voters s i"
  by (auto simp: slotVoters_def Voters_def split: option.splits)

lemma addVoter_simps [simp]:
  "votesPerIdentity (addVoter v slot s) = votesPerIdentity s"
  "Voters (addVoter v slot s) i = (if i = slot then insert v (Voters s i) else Voters s i)"
  using slotVoters_simps [of slot s]
  by (auto simp: addVoter_def split_beta) (auto simp: Voters_def slotVoters_def split: option.splits if_splits)

lemma fold_addVoter:
  "votesPerIdentity (fold (addVoter v) xs s) = votesPerIdentity s"
  "Voters (fold (addVoter v) xs s) i = (if i \<in> set xs then insert v (Voters s i) else Voters s i)"
  by (induction xs arbitrary: s) auto

lemma tracker_ok_New: "tracker_ok cutoff NewSlotTracker"
  by (auto simp: tracker_ok_def NewSlotTracker_def Voters_def latestVote_def)

lemma tracker_ok_mono: "tracker_ok c s \<Longrightarrow> c \<le> c' \<Longrightarrow> tracker_ok c' s"
  by (auto simp: tracker_ok_def)

lemma finite_voters_from: "tracker_ok cutoff s \<Longrightarrow> i \<noteq> 0 \<Longrightarrow> finite {v. i \<le> latestVote s v}"
proof -
  assume ok: "tracker_ok cutoff s" and i: "i \<noteq> 0"
  have "{v. i \<le> latestVote s v} \<subseteq> dom (votesPerIdentity s)"
    using i by (auto simp: latestVote_def split: option.splits)
  then show ?thesis using ok finite_subset by (auto simp: tracker_ok_def)
qed

lemma latestVote_upd:
  "votesPerIdentity s' = (votesPerIdentity s)(v \<mapsto> x) \<Longrightarrow> latestVote s' = (latestVote s)(v := x)"
  by (auto simp: latestVote_def fun_eq_iff)

lemma TrackVotes_new_vote:
  assumes ok: "tracker_ok cutoff s" and m: "slot \<noteq> - 1" "cutoff \<noteq> - 1"
    and new: "v \<notin> Voters s slot" "latestVote s v < slot"
  shows "\<exists>s'. TrackVotes slot v cutoff s = Some ((latestVote s v, slot, True), s') \<and> tracker_ok cutoff s' \<and>
    latestVote s' = (latestVote s)(v := slot)"
proof -
  let ?s = "snd (slotVoters slot s)"
  note ok' = ok [unfolded tracker_ok_def]
  let ?u = "?s\<lparr>votesPerIdentity := (votesPerIdentity s)(v \<mapsto> slot)\<rparr>"
  let ?from = "max cutoff (latestVote s v) + 1"
  let ?t = "fold (addVoter v) (slots_upto ?from slot) ?u"
  have lt: "latestVote ?t = (latestVote s)(v := slot)"
    by (rule latestVote_upd) (simp add: fold_addVoter)
  have "latestVote s v \<noteq> - 1" using new(2) by (metis word_order.extremum_strict)
  then have "max cutoff (latestVote s v) \<noteq> - 1" using m(2) by (simp add: max_def)
  then have start: "?from \<le> i \<longleftrightarrow> cutoff < i \<and> latestVote s v < i" for i by (simp add: succ_le_iff)
  have vu: "Voters ?u i = Voters s i" for i using slotVoters_simps(3) [of slot s i] by (simp add: Voters_def)
  have vt: "Voters ?t i = (if cutoff < i \<and> latestVote s v < i \<and> i \<le> slot then insert v (Voters s i) else Voters s i)" for i
    by (simp only: fold_addVoter set_slots_upto mem_Collect_eq start vu conj_assoc)
  have "Voters ?t i \<subseteq> {w. i \<le> latestVote ?t w}" for i
  proof (rule subsetI, rule CollectI)
    fix w assume w: "w \<in> Voters ?t i"
    have sub: "i \<le> latestVote s x" if "x \<in> Voters s i" for x using ok' that by blast
    show "i \<le> latestVote ?t w"
    proof (cases "w = v")
      case False
      then show ?thesis using w sub unfolding lt vt by (simp split: if_splits)
    next
      case eq: True
      show ?thesis
      proof (cases "v \<in> Voters s i")
        case True
        then have "i \<le> latestVote s v" by (rule sub)
        then show ?thesis using new(2) unfolding lt eq by simp
      next
        case False
        then show ?thesis using w unfolding lt vt eq by (simp split: if_splits)
      qed
    qed
  qed
  moreover have "Voters ?t i = {w. i \<le> latestVote ?t w}" if i: "cutoff < i" for i
  proof -
    have "Voters s i = {w. i \<le> latestVote s w}" using ok' i by blast
    then show ?thesis unfolding lt vt using i new(2) by (auto simp: not_less)
  qed
  moreover have "finite (dom (votesPerIdentity ?t))" using ok' by (simp add: fold_addVoter)
  ultimately have "tracker_ok cutoff ?t" unfolding tracker_ok_def by blast
  moreover have "TrackVotes slot v cutoff s = Some ((latestVote s v, slot, True), ?t)"
    using new by (simp add: TrackVotes_def split_beta Let_def latestVote_def up_loop_fold [OF m(1)])
  ultimately show ?thesis using lt by blast
qed

lemma TrackVotes_spec:
  assumes ok: "tracker_ok cutoff s" and m: "slot \<noteq> - 1" "cutoff \<noteq> - 1"
  shows "\<exists>prev latest s'. TrackVotes slot v cutoff s = Some ((prev, latest, latestVote s v < slot), s') \<and>
    tracker_ok cutoff s' \<and> latestVote s' = (latestVote s)(v := max (latestVote s v) slot) \<and>
    (latestVote s v < slot \<longrightarrow> prev = latestVote s v \<and> latest = slot)"
proof -
  let ?s = "snd (slotVoters slot s)"
  note ok' = ok [unfolded tracker_ok_def]
  have lv: "latestVote ?s = latestVote s" by (simp add: latestVote_def fun_eq_iff)
  have ts: "tracker_ok cutoff ?s" using ok' by (simp add: tracker_ok_def lv)
  show ?thesis
  proof (cases "v \<in> Voters s slot")
    case True
    then have "slot \<le> latestVote s v" using ok' by blast
    then show ?thesis using True ts
      by (intro exI [of _ 0] exI [of _ ?s]) (auto simp: TrackVotes_def split_beta lv max_def)
  next
    case new: False
    show ?thesis
    proof (cases "latestVote s v < slot")
      case False
      let ?t = "?s\<lparr>votesPerIdentity := (votesPerIdentity s)(v \<mapsto> latestVote s v)\<rparr>"
      have lt: "latestVote ?t = latestVote s"
        using latestVote_upd [of ?t s v "latestVote s v"] by simp
      have "Voters ?t i = Voters s i" for i using slotVoters_simps(3) [of slot s i] by (simp add: Voters_def)
      then have "tracker_ok cutoff ?t" using ok' by (simp add: tracker_ok_def lt)
      moreover have "TrackVotes slot v cutoff s = Some ((latestVote s v, latestVote s v, False), ?t)"
        using new False by (simp add: TrackVotes_def split_beta Let_def latestVote_def)
      ultimately show ?thesis using False lt
        by (intro exI [of _ "latestVote s v"] exI [of _ ?t]) (auto simp: max_def)
    next
      case True
      have "max (latestVote s v) slot = slot" using True by simp
      then show ?thesis using TrackVotes_new_vote [OF ok m new True] True by auto
    qed
  qed
qed


text \<open>
  C11. The slot tracker refines the map from voters to their latest vote: tracking a vote returns,
  raises the latest vote of the voter, and above the cutoff the voters of a slot are exactly those
  that have voted for it or for a later slot.
\<close>

theorem TrackVotes_refines:
  assumes "tracker_ok cutoff s" "slot \<noteq> - 1" "cutoff \<noteq> - 1"
  shows "\<exists>prev latest s'. TrackVotes slot v cutoff s = Some ((prev, latest, latestVote s v < slot), s') \<and>
    tracker_ok cutoff s' \<and> latestVote s' = (latestVote s)(v := max (latestVote s v) slot) \<and>
    (\<forall>i>cutoff. Voters s' i = {w. i \<le> latestVote s' w})"
  using TrackVotes_spec [OF assms, of v] unfolding tracker_ok_def by blast

theorem TrackVotes_refines_witness:
  "\<exists>prev latest s'. TrackVotes 5 7 0 NewSlotTracker = Some ((prev, latest, True), s') \<and> Voters s' 3 = {7}"
proof -
  have l: "latestVote NewSlotTracker = (\<lambda>_. 0)" by (simp add: latestVote_def NewSlotTracker_def fun_eq_iff)
  have "\<exists>prev latest s'. TrackVotes 5 7 0 NewSlotTracker = Some ((prev, latest, latestVote NewSlotTracker 7 < 5), s') \<and>
    tracker_ok 0 s' \<and> latestVote s' = (latestVote NewSlotTracker)(7 := max (latestVote NewSlotTracker 7) 5) \<and>
    (\<forall>i>0. Voters s' i = {w. i \<le> latestVote s' w})"
    by (rule TrackVotes_refines [OF tracker_ok_New]) simp_all
  then show ?thesis unfolding l by (auto split: if_splits)
qed

section \<open>Finalization\<close>

lemma IsThresholdReached_mono: "IsThresholdReached w n th \<Longrightarrow> w \<le> w' \<Longrightarrow> IsThresholdReached w' n th"
  by (simp add: IsThresholdReached_def split: if_splits)

lemma refreshLoop_takeWhile:
  assumes "to \<noteq> - 1"
  shows "refreshLoop seatCount th t i to (g, acc) =
    (let fs = takeWhile (\<lambda>i. IsThresholdReached (card (Voters t i)) (seatCount i) th) (slots_upto i to)
     in Some (fold setLastFinalizedSlot fs g, acc @ fs))"
proof (induction "Suc (unat to) - unat i" arbitrary: i g acc rule: less_induct)
  case less
  show ?case
  proof (cases "i \<le> to")
    case True
    note c = slots_upto_Cons [OF True assms]
    have "Suc (unat to) - unat (i + 1) < Suc (unat to) - unat i"
      using True c(2) by (simp add: word_le_nat_alt)
    from less.hyps [OF this] show ?thesis using True c(1) by (simp add: refreshLoop.simps Let_def)
  next
    case False
    then show ?thesis by (simp add: refreshLoop.simps slots_upto_empty)
  qed
qed

lemma fold_setLast:
  "lastFinalizedSlot (fold setLastFinalizedSlot fs g) = (if fs = [] then lastFinalizedSlot g else last fs)"
  "slotTrackers (fold setLastFinalizedSlot fs g) = slotTrackers g"
  by (induction fs arbitrary: g) (auto simp: setLastFinalizedSlot_def)

text \<open>The slots that a loop from \<open>a + 1\<close> accepts are an interval that starts there.\<close>

lemma takeWhile_slots:
  assumes "to \<noteq> - 1" "a \<noteq> - 1"
  shows "\<exists>k. takeWhile P (slots_upto (a + 1) to) = slots_upto (a + 1) k \<and>
    (if takeWhile P (slots_upto (a + 1) to) = [] then a else last (takeWhile P (slots_upto (a + 1) to))) = k \<and>
    a \<le> k \<and> k \<noteq> - 1 \<and> (to \<le> k \<or> \<not> P (k + 1))"
  using assms(2)
proof (induction "Suc (unat to) - unat a" arbitrary: a rule: less_induct)
  case less
  have aa: "a < a + 1" using succ_le_iff [OF less.prems, of "a + 1"] by simp
  show ?case
  proof (cases "a < to \<and> P (a + 1)")
    case False
    have "takeWhile P (slots_upto (a + 1) to) = []"
    proof (cases "a < to")
      case True
      then have "a + 1 \<le> to" using succ_le_iff [OF less.prems] by simp
      then show ?thesis using False True slots_upto_Cons(1) [OF _ assms(1)] by simp
    next
      case False
      then have "to < a + 1" using aa by simp
      then show ?thesis by (simp add: slots_upto_empty)
    qed
    then show ?thesis using False less.prems aa by (auto simp: slots_upto_empty not_less)
  next
    case True
    then have le: "a + 1 \<le> to" using succ_le_iff [OF less.prems] by simp
    then have ne: "a + 1 \<noteq> - 1" using assms(1) by (metis word_order.extremum_unique)
    have s: "unat (a + 1) = Suc (unat a)" using unat_Suc_less [OF aa] by simp
    let ?fs = "takeWhile P (slots_upto (a + 1 + 1) to)"
    have "\<exists>k. ?fs = slots_upto (a + 1 + 1) k \<and> (if ?fs = [] then a + 1 else last ?fs) = k \<and> a + 1 \<le> k \<and> k \<noteq> - 1 \<and>
      (to \<le> k \<or> \<not> P (k + 1))"
      by (rule less.hyps [OF _ ne]) (use s le in \<open>simp add: word_le_nat_alt\<close>)
    then obtain k where k: "?fs = slots_upto (a + 1 + 1) k" "(if ?fs = [] then a + 1 else last ?fs) = k"
      "a + 1 \<le> k" "k \<noteq> - 1" "to \<le> k \<or> \<not> P (k + 1)" by blast
    have "takeWhile P (slots_upto (a + 1) to) = (a + 1) # ?fs"
      using slots_upto_Cons(1) [OF le assms(1)] True by simp
    moreover have "slots_upto (a + 1) k = (a + 1) # slots_upto (a + 1 + 1) k"
      by (rule slots_upto_Cons(1) [OF k(3,4)])
    moreover have "a \<le> k" using aa k(3) by simp
    ultimately show ?thesis using k(1,2,4,5)
      by (intro exI [of _ k]) (metis last_ConsL last_ConsR list.distinct(1))
  qed
qed

text \<open>
  The gadget between two blocks: every tracker is the map of latest votes, and no tracker reaches
  the threshold for a slot that is not finalized yet.
\<close>

definition gadget_ok :: "nat \<Rightarrow> float64 \<Rightarrow> gadget \<Rightarrow> bool" where
  "gadget_ok n th g \<longleftrightarrow> lastFinalizedSlot g \<noteq> - 1 \<and>
     (\<forall>t\<in>ran (slotTrackers g). tracker_ok (lastFinalizedSlot g) t \<and>
        (\<forall>i>lastFinalizedSlot g. \<not> IsThresholdReached (card {v. i \<le> latestVote t v}) n th))"

abbreviation trackerOf :: "gadget \<Rightarrow> slot_index \<Rightarrow> slot_tracker" where
  "trackerOf g slot \<equiv> (case slotTrackers g slot of None \<Rightarrow> NewSlotTracker | Some t \<Rightarrow> t)"

lemma gadget_ok_tracker:
  assumes "gadget_ok n th g"
  shows "tracker_ok (lastFinalizedSlot g) (trackerOf g s)"
    "lastFinalizedSlot g < i \<Longrightarrow> \<not> IsThresholdReached (card {v. i \<le> latestVote (trackerOf g s) v}) n th"
proof -
  show "tracker_ok (lastFinalizedSlot g) (trackerOf g s)"
    using assms by (auto simp: gadget_ok_def tracker_ok_New ran_def split: option.splits)
  assume i: "lastFinalizedSlot g < i"
  then have "i \<noteq> 0" by auto
  then have "{v. i \<le> latestVote NewSlotTracker v} = {}" by (auto simp: latestVote_def NewSlotTracker_def)
  then show "\<not> IsThresholdReached (card {v. i \<le> latestVote (trackerOf g s) v}) n th"
    using assms i by (auto simp: gadget_ok_def ran_def IsThresholdReached_def split: option.splits if_splits)
qed

lemma fold_delete_trackers:
  "slotTrackers (fold (\<lambda>s g. g\<lparr>slotTrackers := (slotTrackers g)(s := None)\<rparr>) fs g) =
     (\<lambda>s. if s \<in> set fs then None else slotTrackers g s)"
  "lastFinalizedSlot (fold (\<lambda>s g. g\<lparr>slotTrackers := (slotTrackers g)(s := None)\<rparr>) fs g) = lastFinalizedSlot g"
  by (induction fs arbitrary: g) (auto simp: fun_eq_iff)

text \<open>The gadget after the tracker of one slot was replaced and slots up to \<open>k\<close> were finalized.\<close>

lemma gadget_ok_step:
  assumes ok: "gadget_ok n th g" and k: "lastFinalizedSlot g \<le> k" "k \<noteq> - 1"
    and t: "tracker_ok (lastFinalizedSlot g) t" "\<And>i. k < i \<Longrightarrow> \<not> IsThresholdReached (card {v. i \<le> latestVote t v}) n th"
    and g': "lastFinalizedSlot g' = k" "ran (slotTrackers g') \<subseteq> insert t (ran (slotTrackers g))"
  shows "gadget_ok n th g'"
  unfolding gadget_ok_def g'(1)
proof (intro conjI ballI)
  fix t' assume "t' \<in> ran (slotTrackers g')"
  then have "t' = t \<or> t' \<in> ran (slotTrackers g)" using g'(2) by blast
  then have t': "tracker_ok (lastFinalizedSlot g) t'" "\<And>i. k < i \<Longrightarrow> \<not> IsThresholdReached (card {v. i \<le> latestVote t' v}) n th"
    using t ok k(1) unfolding gadget_ok_def by (blast, metis le_less_trans)
  show "tracker_ok k t'" by (rule tracker_ok_mono [OF t'(1) k(1)])
  show "\<forall>i>k. \<not> IsThresholdReached (card {v. i \<le> latestVote t' v}) n th" using t'(2) by blast
qed (fact k(2))

text \<open>The latest votes of the blocks of a slot once one more block is tracked.\<close>

definition votesAfter :: "gadget \<Rightarrow> slot_index \<Rightarrow> slot_index \<Rightarrow> account_id \<Rightarrow> account_id \<Rightarrow> slot_index" where
  "votesAfter g blockSlot slot v = (let L = latestVote (trackerOf g blockSlot) in L(v := max (L v) slot))"

lemma vote_step_low:
  fixes L :: "account_id \<Rightarrow> slot_index"
  defines "R \<equiv> \<lambda>L n th i. IsThresholdReached (card {w. i \<le> L w}) n th"
  assumes Lv: "L v < c" and c: "c \<noteq> - 1" and a: "a \<noteq> - 1"
    and unreached: "\<And>i. a < i \<Longrightarrow> \<not> R L n th i"
    and fin: "\<And>i. i \<noteq> 0 \<Longrightarrow> finite {w. i \<le> L w}"
    and low: "L v \<le> a"
  shows "\<exists>k. takeWhile (R (L(v := c)) n th) (slots_upto (max a (L v) + 1) c) = slots_upto (a + 1) k \<and>
    (let fs = takeWhile (R (L(v := c)) n th) (slots_upto (max a (L v) + 1) c) in if fs = [] then a else last fs) = k \<and>
    a \<le> k \<and> k \<noteq> - 1 \<and> (\<forall>i>k. \<not> R (L(v := c)) n th i)"
proof -
  let ?M = "L(v := c)" let ?fs = "takeWhile (R ?M n th) (slots_upto (a + 1) c)"
  have m: "max a (L v) = a" using low by simp
  obtain k where k: "?fs = slots_upto (a + 1) k" "(if ?fs = [] then a else last ?fs) = k" "a \<le> k" "k \<noteq> - 1"
    "c \<le> k \<or> \<not> R ?M n th (k + 1)"
    using takeWhile_slots [OF c a, of "R ?M n th"] by blast
  have "\<not> R ?M n th i" if i: "k < i" for i
  proof (cases "c \<le> k")
    case True
    have "\<not> i \<le> c" using i True by simp
    moreover have "\<not> i \<le> L v" using i low k(3) by simp
    ultimately have "{w. i \<le> ?M w} = {w. i \<le> L w}" by auto
    then show ?thesis using unreached [of i] i k(3) by (simp add: R_def)
  next
    case False
    have ki: "k + 1 \<le> i" using i succ_le_iff [OF k(4)] by simp
    have "k + 1 \<noteq> 0" using k(4) by (metis add_eq_0_iff add.commute)
    then have "finite {w. k + 1 \<le> L w}" by (rule fin)
    then have "finite (insert v {w. k + 1 \<le> L w})" by simp
    then have "finite {w. k + 1 \<le> ?M w}" by (rule rev_finite_subset) auto
    moreover have "{w. i \<le> ?M w} \<subseteq> {w. k + 1 \<le> ?M w}" using ki by auto
    ultimately have "card {w. i \<le> ?M w} \<le> card {w. k + 1 \<le> ?M w}" by (rule card_mono)
    then show ?thesis using k(5) False IsThresholdReached_mono unfolding R_def by blast
  qed
  then show ?thesis using k(1-4) unfolding m Let_def by blast
qed

lemma vote_step_high:
  fixes L :: "account_id \<Rightarrow> slot_index"
  defines "R \<equiv> \<lambda>L n th i. IsThresholdReached (card {w. i \<le> L w}) n th"
  assumes Lv: "L v < c" and c: "c \<noteq> - 1" and a: "a \<noteq> - 1"
    and unreached: "\<And>i. a < i \<Longrightarrow> \<not> R L n th i"
    and fin: "\<And>i. i \<noteq> 0 \<Longrightarrow> finite {w. i \<le> L w}"
    and aL: "a < L v"
  shows "\<exists>k. takeWhile (R (L(v := c)) n th) (slots_upto (max a (L v) + 1) c) = slots_upto (a + 1) k \<and>
    (let fs = takeWhile (R (L(v := c)) n th) (slots_upto (max a (L v) + 1) c) in if fs = [] then a else last fs) = k \<and>
    a \<le> k \<and> k \<noteq> - 1 \<and> (\<forall>i>k. \<not> R (L(v := c)) n th i)"
proof -
  let ?M = "L(v := c)"
  have m: "max a (L v) = L v" using aL by simp
  have Lm: "L v \<noteq> - 1" using Lv by (metis word_order.extremum_strict)
  have "L v \<noteq> 0" using aL by auto
  then have f: "finite {w. L v \<le> L w}" by (rule fin)
  have above: "\<not> R ?M n th i" if i: "L v < i" for i
  proof -
    have "{w. i \<le> ?M w} \<subseteq> {w. L v \<le> L w}" using i by (auto split: if_splits)
    then have "card {w. i \<le> ?M w} \<le> card {w. L v \<le> L w}" by (rule card_mono [OF f])
    then show ?thesis using unreached [OF aL] IsThresholdReached_mono unfolding R_def by blast
  qed
  have "\<not> R ?M n th i" if i: "a < i" for i
  proof (cases "L v < i")
    case False
    then have "{w. i \<le> ?M w} = {w. i \<le> L w}" using Lv by auto
    then show ?thesis using unreached [OF i] by (simp add: R_def)
  qed (rule above)
  moreover have "L v + 1 \<le> c" using Lv succ_le_iff [OF Lm] by simp
  then have "takeWhile (R ?M n th) (slots_upto (L v + 1) c) = []"
    using slots_upto_Cons(1) [OF _ c] above [of "L v + 1"] succ_le_iff [OF Lm, of "L v + 1"] by simp
  moreover have "slots_upto (a + 1) a = []"
    using succ_le_iff [OF a, of "a + 1"] by (intro slots_upto_empty) simp
  ultimately show ?thesis unfolding m Let_def using a by (intro exI [of _ a]) simp
qed

lemma vote_step:
  fixes L :: "account_id \<Rightarrow> slot_index"
  defines "R \<equiv> \<lambda>L n th i. IsThresholdReached (card {w. i \<le> L w}) n th"
  assumes Lv: "L v < c" and c: "c \<noteq> - 1" and a: "a \<noteq> - 1"
    and unreached: "\<And>i. a < i \<Longrightarrow> \<not> R L n th i"
    and fin: "\<And>i. i \<noteq> 0 \<Longrightarrow> finite {w. i \<le> L w}"
  shows "\<exists>k. takeWhile (R (L(v := c)) n th) (slots_upto (max a (L v) + 1) c) = slots_upto (a + 1) k \<and>
    (let fs = takeWhile (R (L(v := c)) n th) (slots_upto (max a (L v) + 1) c) in if fs = [] then a else last fs) = k \<and>
    a \<le> k \<and> k \<noteq> - 1 \<and> (\<forall>i>k. \<not> R (L(v := c)) n th i)"
proof (cases "L v \<le> a")
  case True
  show ?thesis unfolding R_def by (rule vote_step_low [OF Lv c a unreached [unfolded R_def] fin True])
next
  case False
  then have high: "a < L v" by simp
  show ?thesis unfolding R_def by (rule vote_step_high [OF Lv c a unreached [unfolded R_def] fin high])
qed

text \<open>What \<open>trackVotes\<close> computes for a vote that raises the latest vote of a voter: the slots that it finalizes.\<close>

lemma trackVotes_new_vote:
  fixes votes :: "account_id \<Rightarrow> slot_index"
  defines "R \<equiv> \<lambda>n th i. IsThresholdReached (card {w. i \<le> votes w}) n th"
  assumes t': "TrackVotes c v (lastFinalizedSlot g) (trackerOf g s) = Some ((prev, latest, True), t')"
    "tracker_ok (lastFinalizedSlot g) t'" "latestVote t' = votes" "prev = latestVote (trackerOf g s) v" "latest = c"
    and c: "c \<noteq> - 1" and m: "max (lastFinalizedSlot g) (latestVote (trackerOf g s) v) \<noteq> - 1"
  shows "trackVotes (\<lambda>_. n) th s c v g =
    (let fs = takeWhile (R n th) (slots_upto (max (lastFinalizedSlot g) (latestVote (trackerOf g s) v) + 1) c) in
     Some (fold (\<lambda>s g. g\<lparr>slotTrackers := (slotTrackers g)(s := None)\<rparr>) fs
       (fold setLastFinalizedSlot fs (g\<lparr>slotTrackers := (slotTrackers g)(s \<mapsto> t')\<rparr>)), fs))"
proof -
  let ?xs = "slots_upto (max (lastFinalizedSlot g) (latestVote (trackerOf g s) v) + 1) c"
  have "takeWhile (\<lambda>i. IsThresholdReached (card (Voters t' i)) n th) ?xs = takeWhile (R n th) ?xs"
  proof (rule takeWhile_cong [OF refl])
    fix i assume "i \<in> set ?xs"
    then have "lastFinalizedSlot g < i" using succ_le_iff [OF m] by (simp add: set_slots_upto)
    then show "IsThresholdReached (card (Voters t' i)) n th = R n th i"
      using t'(2,3) by (simp add: tracker_ok_def R_def)
  qed
  then show ?thesis
    using t'(1,4,5) by (simp add: trackVotes_def refreshSlotFinalization_def refreshLoop_takeWhile [OF c] Let_def)
qed

lemma trackVotes_old_vote:
  assumes ok: "gadget_ok n th g" and old: "\<not> latestVote (trackerOf g s) v < c"
    and t': "TrackVotes c v (lastFinalizedSlot g) (trackerOf g s) = Some ((prev, latest, False), t')"
      "tracker_ok (lastFinalizedSlot g) t'" "latestVote t' = votesAfter g s c v"
  shows "\<exists>g'. trackVotes (\<lambda>_. n) th s c v g = Some (g', []) \<and> gadget_ok n th g' \<and> lastFinalizedSlot g' = lastFinalizedSlot g"
proof -
  let ?g = "g\<lparr>slotTrackers := (slotTrackers g)(s \<mapsto> t')\<rparr>" and ?last = "lastFinalizedSlot g"
  have last: "?last \<noteq> - 1" using ok by (simp add: gadget_ok_def)
  have "votesAfter g s c v = latestVote (trackerOf g s)"
    using old unfolding votesAfter_def Let_def by (simp add: max_def fun_upd_idem not_less)
  moreover have "ran (slotTrackers ?g) \<subseteq> insert t' (ran (slotTrackers g))" by (auto simp: ran_def)
  ultimately have "gadget_ok n th ?g" using gadget_ok_tracker(2) [OF ok, where s = s] t'(3)
    by (intro gadget_ok_step [OF ok order.refl last t'(2)]) simp_all
  moreover have "trackVotes (\<lambda>_. n) th s c v g = Some (?g, [])" using t'(1) by (simp add: trackVotes_def)
  ultimately show ?thesis by (intro exI [of _ ?g]) simp
qed

text \<open>
  C10. With a committee of constant size the slot gadget finalizes slots in order and without gaps:
  tracking a block returns, the slots it finalizes are exactly those from the last finalized slot
  to the new one, and for each of them the threshold is reached by the voters of one slot's blocks
  that have committed to it or to a later slot.
\<close>

theorem trackVotes_finalizes_in_order:
  assumes ok: "gadget_ok n th g" and c: "commitmentSlot \<noteq> - 1"
  shows "\<exists>g' fs. trackVotes (\<lambda>_. n) th blockSlot commitmentSlot v g = Some (g', fs) \<and> gadget_ok n th g' \<and>
    fs = slots_upto (lastFinalizedSlot g + 1) (lastFinalizedSlot g') \<and> lastFinalizedSlot g \<le> lastFinalizedSlot g' \<and>
    (\<forall>i\<in>set fs. IsThresholdReached (card {w. i \<le> votesAfter g blockSlot commitmentSlot v w}) n th)"
proof -
  let ?last = "lastFinalizedSlot g" and ?t = "trackerOf g blockSlot"
  define votes where "votes = votesAfter g blockSlot commitmentSlot v"
  have last: "?last \<noteq> - 1" using ok by (simp add: gadget_ok_def)
  note t = gadget_ok_tracker(1) [OF ok, of blockSlot] gadget_ok_tracker(2) [OF ok, where s = blockSlot]
  obtain prev latest t' where t': "TrackVotes commitmentSlot v ?last ?t = Some ((prev, latest, latestVote ?t v < commitmentSlot), t')"
    "tracker_ok ?last t'" "latestVote t' = votes" "latestVote ?t v < commitmentSlot \<Longrightarrow> prev = latestVote ?t v \<and> latest = commitmentSlot"
    using TrackVotes_spec [OF t(1) c last, of v] unfolding votes_def votesAfter_def Let_def by blast
  let ?g = "g\<lparr>slotTrackers := (slotTrackers g)(blockSlot \<mapsto> t')\<rparr>"
  have sub: "ran (slotTrackers ?g) \<subseteq> insert t' (ran (slotTrackers g))" by (auto simp: ran_def)
  show ?thesis
  proof (cases "latestVote ?t v < commitmentSlot")
    case False
    then obtain g' where "trackVotes (\<lambda>_. n) th blockSlot commitmentSlot v g = Some (g', [])" "gadget_ok n th g'" "lastFinalizedSlot g' = ?last"
      using trackVotes_old_vote [OF ok False _ t'(2)] t'(1,3) unfolding votes_def by auto
    moreover have "slots_upto (?last + 1) ?last = []"
      using succ_le_iff [OF last, of "?last + 1"] by (intro slots_upto_empty) simp
    ultimately show ?thesis by (intro exI [of _ g'] exI [of _ "[]"]) simp
  next
    case True
    let ?L = "latestVote ?t"
    have v: "votes = ?L(v := commitmentSlot)" using True unfolding votes_def votesAfter_def Let_def by simp
    let ?R = "\<lambda>i. IsThresholdReached (card {w. i \<le> votes w}) n th"
    let ?xs = "slots_upto (max ?last (?L v) + 1) commitmentSlot"
    have "?L v \<noteq> - 1" using True by (metis word_order.extremum_strict)
    then have m: "max ?last (?L v) \<noteq> - 1" using last by (simp add: max_def)
    have r: "trackVotes (\<lambda>_. n) th blockSlot commitmentSlot v g = (let fs = takeWhile ?R ?xs in
        Some (fold (\<lambda>s g. g\<lparr>slotTrackers := (slotTrackers g)(s := None)\<rparr>) fs (fold setLastFinalizedSlot fs ?g), fs))"
      by (rule trackVotes_new_vote [OF _ t'(2,3) _ _ c m, of prev latest]) (use t'(1,4) True in simp_all)
    have "\<exists>k. takeWhile (\<lambda>i. IsThresholdReached (card {w. i \<le> (?L(v := commitmentSlot)) w}) n th) ?xs = slots_upto (?last + 1) k \<and>
      (let fs = takeWhile (\<lambda>i. IsThresholdReached (card {w. i \<le> (?L(v := commitmentSlot)) w}) n th) ?xs in if fs = [] then ?last else last fs) = k \<and>
      ?last \<le> k \<and> k \<noteq> - 1 \<and> (\<forall>i>k. \<not> IsThresholdReached (card {w. i \<le> (?L(v := commitmentSlot)) w}) n th)"
      by (rule vote_step [OF True c last t(2) finite_voters_from [OF t(1)]])
    then obtain k where k: "takeWhile ?R ?xs = slots_upto (?last + 1) k"
      "(let fs = takeWhile ?R ?xs in if fs = [] then ?last else last fs) = k" "?last \<le> k" "k \<noteq> - 1" "\<And>i. k < i \<Longrightarrow> \<not> ?R i"
      unfolding v by blast
    let ?fs = "takeWhile ?R ?xs"
    let ?g' = "fold (\<lambda>s g. g\<lparr>slotTrackers := (slotTrackers g)(s := None)\<rparr>) ?fs (fold setLastFinalizedSlot ?fs ?g)"
    have "lastFinalizedSlot ?g = ?last" by simp
    then have l: "lastFinalizedSlot ?g' = k" using k(2) by (simp only: fold_delete_trackers fold_setLast Let_def)
    have "ran (slotTrackers ?g') \<subseteq> ran (slotTrackers ?g)"
      unfolding fold_delete_trackers fold_setLast by (auto simp: ran_def split: if_splits)
    then have "gadget_ok n th ?g'"
      using sub k(5) t'(3) by (intro gadget_ok_step [OF ok k(3,4) t'(2) _ l]) auto
    moreover have "\<forall>i\<in>set ?fs. ?R i" by (auto dest: set_takeWhileD)
    moreover have "trackVotes (\<lambda>_. n) th blockSlot commitmentSlot v g = Some (?g', ?fs)" using r by (simp only: Let_def)
    moreover have "?fs = slots_upto (?last + 1) (lastFinalizedSlot ?g')" "?last \<le> lastFinalizedSlot ?g'"
      unfolding l by (fact k(1) k(3))+
    ultimately show ?thesis unfolding votes_def by blast
  qed
qed

theorem trackVotes_finalizes_in_order_witness:
  "\<exists>g' fs. trackVotes (\<lambda>_. 3) SuperMajority 9 4 7 (New_gadget 2) = Some (g', fs) \<and> gadget_ok 3 SuperMajority g' \<and>
     fs = slots_upto 3 (lastFinalizedSlot g')"
proof -
  have "gadget_ok 3 SuperMajority (New_gadget 2)" by (simp add: gadget_ok_def New_gadget_def)
  from trackVotes_finalizes_in_order [OF this, of 4 9 7] show ?thesis by (auto simp: New_gadget_def)
qed

end
