(* ===== verification/Weights.thy ===== *)
theory Weights
  imports Votes
begin

text \<open>
  The weights of the spend DAG: \<^verbatim>\<open>core/acceptance/state.go\<close>, \<^verbatim>\<open>core/weight/value.go\<close> and
  \<^verbatim>\<open>core/weight/weight.go\<close>.  The event \<^verbatim>\<open>OnUpdate\<close> is the list of values with which it is triggered.
  The lemmas show that the comparison is a total order and that the weights count the voters.
\<close>


section \<open>Acceptance states\<close>

datatype acceptance_state = Pending | Accepted | Rejected

definition IsPending :: "acceptance_state \<Rightarrow> bool" where "IsPending c \<longleftrightarrow> c = Pending"
definition IsAccepted :: "acceptance_state \<Rightarrow> bool" where "IsAccepted c \<longleftrightarrow> c = Accepted"
definition IsRejected :: "acceptance_state \<Rightarrow> bool" where "IsRejected c \<longleftrightarrow> c = Rejected"

lemmas acceptance_defs = IsPending_def IsAccepted_def IsRejected_def

section \<open>Weight values\<close>

record weight_value =
  cumulativeWeight :: i64
  validatorsWeight :: i64
  attestorsWeight :: i64
  acceptanceState :: acceptance_state

definition AddCumulativeWeight_value :: "i64 \<Rightarrow> weight_value \<Rightarrow> weight_value" where
  "AddCumulativeWeight_value w v = v\<lparr>cumulativeWeight := cumulativeWeight v + w\<rparr>"

definition RemoveCumulativeWeight_value :: "i64 \<Rightarrow> weight_value \<Rightarrow> weight_value" where
  "RemoveCumulativeWeight_value w v = v\<lparr>cumulativeWeight := cumulativeWeight v - w\<rparr>"

definition compareAcceptanceState :: "weight_value \<Rightarrow> weight_value \<Rightarrow> int" where
  "compareAcceptanceState v other =
     (if IsAccepted (acceptanceState v) \<and> \<not> IsAccepted (acceptanceState other) then 1
      else if IsRejected (acceptanceState other) \<and> \<not> IsRejected (acceptanceState v) then 1
      else if IsAccepted (acceptanceState other) \<and> \<not> IsAccepted (acceptanceState v) then -1
      else if IsRejected (acceptanceState v) \<and> \<not> IsRejected (acceptanceState other) then -1
      else 0)"

definition compareValidatorsWeight :: "weight_value \<Rightarrow> weight_value \<Rightarrow> int" where
  "compareValidatorsWeight v other =
     (if validatorsWeight other <s validatorsWeight v then 1
      else if validatorsWeight v <s validatorsWeight other then -1 else 0)"

definition compareCumulativeWeight :: "weight_value \<Rightarrow> weight_value \<Rightarrow> int" where
  "compareCumulativeWeight v other =
     (if cumulativeWeight other <s cumulativeWeight v then 1
      else if cumulativeWeight v <s cumulativeWeight other then -1 else 0)"

definition Value_Compare :: "weight_value \<Rightarrow> weight_value \<Rightarrow> int" where
  "Value_Compare v other =
     (let result = compareAcceptanceState v other in if result \<noteq> 0 then result
      else let result = compareValidatorsWeight v other in if result \<noteq> 0 then result
      else let result = compareCumulativeWeight v other in if result \<noteq> 0 then result
      else 0)"

section \<open>Weights\<close>

text \<open>
  A weight is updated in place.  Every operation returns the new weight and the values with which
  \<^verbatim>\<open>OnUpdate\<close> is triggered, in order.
\<close>

record weight =
  w_Voters :: "u8 set"
  w_Attestors :: "u8 set"
  w_value :: weight_value

definition New_weight :: weight where
  "New_weight = \<lparr>w_Voters = {}, w_Attestors = {},
     w_value = \<lparr>cumulativeWeight = 0, validatorsWeight = 0, attestorsWeight = 0, acceptanceState = Pending\<rparr>\<rparr>"

definition SetCumulativeWeight :: "i64 \<Rightarrow> weight \<Rightarrow> weight \<times> weight_value list" where
  "SetCumulativeWeight c w =
     (if cumulativeWeight (w_value w) \<noteq> c then
        let v = (w_value w)\<lparr>cumulativeWeight := c\<rparr> in (w\<lparr>w_value := v\<rparr>, [v])
      else (w, []))"

definition AddCumulativeWeight :: "i64 \<Rightarrow> weight \<Rightarrow> weight \<times> weight_value list" where
  "AddCumulativeWeight delta w =
     (if delta \<noteq> 0 then
        let v = AddCumulativeWeight_value delta (w_value w) in (w\<lparr>w_value := v\<rparr>, [v])
      else (w, []))"

definition RemoveCumulativeWeight :: "i64 \<Rightarrow> weight \<Rightarrow> weight \<times> weight_value list" where
  "RemoveCumulativeWeight delta w =
     (if delta \<noteq> 0 then
        let v = RemoveCumulativeWeight_value delta (w_value w) in (w\<lparr>w_value := v\<rparr>, [v])
      else (w, []))"

definition updateValidatorsWeight :: "weight \<Rightarrow> weight \<times> weight_value list" where
  "updateValidatorsWeight w =
     (let newValidatorWeight = word_of_nat (card (w_Voters w))
      in if validatorsWeight (w_value w) \<noteq> newValidatorWeight then
           let v = (w_value w)\<lparr>validatorsWeight := newValidatorWeight\<rparr> in (w\<lparr>w_value := v\<rparr>, [v])
         else (w, []))"

definition updateAttestorsWeight :: "weight \<Rightarrow> weight \<times> weight_value list" where
  "updateAttestorsWeight w =
     (let newAttestorsWeight = word_of_nat (card (w_Attestors w))
      in if attestorsWeight (w_value w) \<noteq> newAttestorsWeight then
           let v = (w_value w)\<lparr>attestorsWeight := newAttestorsWeight\<rparr> in (w\<lparr>w_value := v\<rparr>, [v])
         else (w, []))"

definition AddVoter :: "u8 \<Rightarrow> weight \<Rightarrow> weight \<times> weight_value list" where
  "AddVoter seat w =
     (if seat \<notin> w_Voters w then updateValidatorsWeight (w\<lparr>w_Voters := insert seat (w_Voters w)\<rparr>)
      else (w, []))"

definition DeleteVoter :: "u8 \<Rightarrow> weight \<Rightarrow> weight \<times> weight_value list" where
  "DeleteVoter seat w =
     (if seat \<in> w_Voters w then updateValidatorsWeight (w\<lparr>w_Voters := w_Voters w - {seat}\<rparr>)
      else (w, []))"

definition AddAttestor :: "u8 \<Rightarrow> weight \<Rightarrow> weight \<times> weight_value list" where
  "AddAttestor seat w =
     (if seat \<notin> w_Attestors w then updateAttestorsWeight (w\<lparr>w_Attestors := insert seat (w_Attestors w)\<rparr>)
      else (w, []))"

definition DeleteAttestor :: "u8 \<Rightarrow> weight \<Rightarrow> weight \<times> weight_value list" where
  "DeleteAttestor seat w =
     (if seat \<in> w_Attestors w then updateAttestorsWeight (w\<lparr>w_Attestors := w_Attestors w - {seat}\<rparr>)
      else (w, []))"

definition ResetAttestors :: "weight \<Rightarrow> weight \<times> weight_value list" where
  "ResetAttestors w =
     (if card (w_Attestors w) \<ge> 1 then updateAttestorsWeight (w\<lparr>w_Attestors := {}\<rparr>) else (w, []))"

definition setAcceptanceState :: "acceptance_state \<Rightarrow> weight \<Rightarrow> weight \<times> acceptance_state" where
  "setAcceptanceState s w =
     (let previousState = acceptanceState (w_value w)
      in (if previousState \<noteq> s then w\<lparr>w_value := (w_value w)\<lparr>acceptanceState := s\<rparr>\<rparr> else w, previousState))"

definition SetAcceptanceState :: "acceptance_state \<Rightarrow> weight \<Rightarrow> weight \<times> weight_value list" where
  "SetAcceptanceState s w =
     (let (w, previousState) = setAcceptanceState s w
      in (w, if previousState \<noteq> s then [w_value w] else []))"

definition WithAcceptanceState :: "acceptance_state \<Rightarrow> weight \<Rightarrow> weight" where
  "WithAcceptanceState s w = fst (setAcceptanceState s w)"

fun Weight_Compare :: "weight option \<Rightarrow> weight option \<Rightarrow> int" where
  "Weight_Compare None None = 0"
| "Weight_Compare None (Some _) = 1"
| "Weight_Compare (Some _) None = -1"
| "Weight_Compare (Some w) (Some other) = Value_Compare (w_value w) (w_value other)"

section \<open>The order of weights\<close>

fun state_rank :: "acceptance_state \<Rightarrow> nat" where
  "state_rank Rejected = 0"
| "state_rank Pending = 1"
| "state_rank Accepted = 2"

text \<open>Values are ordered by state, then validators, then cumulative weight; nil is above all weights.\<close>

definition value_key :: "weight_value \<Rightarrow> nat \<times> int \<times> int" where
  "value_key v = (state_rank (acceptanceState v), sint (validatorsWeight v), sint (cumulativeWeight v))"

definition weight_key :: "weight option \<Rightarrow> bool \<times> nat \<times> int \<times> int" where
  "weight_key w = (case w of None \<Rightarrow> (True, 0, 0, 0) | Some w \<Rightarrow> (False, value_key (w_value w)))"

lemma Value_Compare_by_key: "Value_Compare = compare_by value_key"
proof (intro ext)
  fix v other
  show "Value_Compare v other = compare_by value_key v other"
    by (cases "acceptanceState v"; cases "acceptanceState other")
      (simp_all add: Value_Compare_def compareAcceptanceState_def compareValidatorsWeight_def
        compareCumulativeWeight_def acceptance_defs compare_by_def value_key_def word_sless_alt Let_def)
qed

lemma Weight_Compare_by_key: "Weight_Compare = compare_by weight_key"
proof (intro ext)
  fix v other
  show "Weight_Compare v other = compare_by weight_key v other"
    by (cases v; cases other) (simp_all add: compare_by_def weight_key_def Value_Compare_by_key)
qed

interpretation weights: comparator Weight_Compare
  unfolding Weight_Compare_by_key by (rule comparator_compare_by)


text \<open>
  The comparison of weights is a total order on the ranks of the source: acceptance state
  first, then the validators, then the cumulative weight; a nil weight compares as the heaviest.
\<close>

theorem Weight_Compare_total_order:
  "Weight_Compare a b \<in> {-1, 0, 1} \<and> Weight_Compare a b = - Weight_Compare b a \<and>
   (Weight_Compare a b \<le> 0 \<longrightarrow> Weight_Compare b c \<le> 0 \<longrightarrow> Weight_Compare a c \<le> 0) \<and>
   (Weight_Compare (Some v) (Some w) = 0 \<longleftrightarrow>
      acceptanceState (w_value v) = acceptanceState (w_value w) \<and>
      validatorsWeight (w_value v) = validatorsWeight (w_value w) \<and>
      cumulativeWeight (w_value v) = cumulativeWeight (w_value w))"
proof -
  have "state_rank s = state_rank t \<longleftrightarrow> s = t" for s t by (cases s; cases t) simp_all
  then have "Weight_Compare (Some v) (Some w) = 0 \<longleftrightarrow>
      acceptanceState (w_value v) = acceptanceState (w_value w) \<and>
      validatorsWeight (w_value v) = validatorsWeight (w_value w) \<and>
      cumulativeWeight (w_value v) = cumulativeWeight (w_value w)"
    by (auto simp: Weight_Compare_by_key compare_by_def weight_key_def value_key_def signed_word_eqI not_less)
  then show ?thesis using weights.cmp_values [of a b] weights.cmp_swap [of a b] weights.cmp_trans by blast
qed

theorem Weight_Compare_total_order_witness:
  "Weight_Compare (Some New_weight) (Some (New_weight\<lparr>w_value := (w_value New_weight)\<lparr>acceptanceState := Rejected\<rparr>\<rparr>)) = 1 \<and>
   Weight_Compare (Some (New_weight\<lparr>w_value := (w_value New_weight)\<lparr>acceptanceState := Rejected\<rparr>\<rparr>)) (Some New_weight) \<le> 0"
proof -
  let ?r = "New_weight\<lparr>w_value := (w_value New_weight)\<lparr>acceptanceState := Rejected\<rparr>\<rparr>"
  have "Weight_Compare (Some New_weight) (Some ?r) = 1"
    by (simp add: New_weight_def Value_Compare_def compareAcceptanceState_def acceptance_defs)
  then show ?thesis using Weight_Compare_total_order [of "Some New_weight" "Some ?r" None New_weight ?r] by auto
qed

section \<open>The operations on a weight\<close>

inductive weight_step :: "weight \<Rightarrow> weight_value list \<Rightarrow> weight \<Rightarrow> bool" where
  set_cumulative: "SetCumulativeWeight c w = (w', vs) \<Longrightarrow> weight_step w vs w'"
| add_cumulative: "AddCumulativeWeight c w = (w', vs) \<Longrightarrow> weight_step w vs w'"
| remove_cumulative: "RemoveCumulativeWeight c w = (w', vs) \<Longrightarrow> weight_step w vs w'"
| add_voter: "AddVoter s w = (w', vs) \<Longrightarrow> weight_step w vs w'"
| delete_voter: "DeleteVoter s w = (w', vs) \<Longrightarrow> weight_step w vs w'"
| add_attestor: "AddAttestor s w = (w', vs) \<Longrightarrow> weight_step w vs w'"
| delete_attestor: "DeleteAttestor s w = (w', vs) \<Longrightarrow> weight_step w vs w'"
| reset_attestors: "ResetAttestors w = (w', vs) \<Longrightarrow> weight_step w vs w'"
| set_acceptance: "SetAcceptanceState a w = (w', vs) \<Longrightarrow> weight_step w vs w'"

inductive reachable_weight :: "weight \<Rightarrow> bool" where
  new: "reachable_weight New_weight"
| step: "reachable_weight w \<Longrightarrow> weight_step w vs w' \<Longrightarrow> reachable_weight w'"
| with_acceptance: "reachable_weight w \<Longrightarrow> reachable_weight (WithAcceptanceState a w)"

definition weight_ok :: "weight \<Rightarrow> bool" where
  "weight_ok w \<longleftrightarrow> validatorsWeight (w_value w) = word_of_nat (card (w_Voters w)) \<and>
     attestorsWeight (w_value w) = word_of_nat (card (w_Attestors w))"

lemma card_seats: "card (A :: u8 set) \<le> 256"
proof -
  have "card A \<le> card (UNIV :: u8 set)" by (rule card_mono) simp_all
  then show ?thesis by (simp add: card_word)
qed

lemma value_update_eq:
  "v\<lparr>cumulativeWeight := c\<rparr> = v \<longleftrightarrow> c = cumulativeWeight v"
  "v\<lparr>validatorsWeight := c\<rparr> = v \<longleftrightarrow> c = validatorsWeight v"
  "v\<lparr>attestorsWeight := c\<rparr> = v \<longleftrightarrow> c = attestorsWeight v"
  "v\<lparr>acceptanceState := s\<rparr> = v \<longleftrightarrow> s = acceptanceState v"
  by (cases v; auto)+

definition notifies :: "weight \<Rightarrow> weight_value list \<Rightarrow> weight \<Rightarrow> bool" where
  "notifies w vs w' \<longleftrightarrow> vs = (if w_value w' = w_value w then [] else [w_value w'])"

lemma updateValidatorsWeight_ok:
  assumes "attestorsWeight (w_value w) = word_of_nat (card (w_Attestors w))" "updateValidatorsWeight w = (w', vs)"
  shows "weight_ok w'" "notifies w vs w'"
  using assms by (auto simp: updateValidatorsWeight_def weight_ok_def notifies_def Let_def value_update_eq split: if_splits)

lemma updateAttestorsWeight_ok:
  assumes "validatorsWeight (w_value w) = word_of_nat (card (w_Voters w))" "updateAttestorsWeight w = (w', vs)"
  shows "weight_ok w'" "notifies w vs w'"
  using assms by (auto simp: updateAttestorsWeight_def weight_ok_def notifies_def Let_def value_update_eq split: if_splits)

lemma set_voters_ok:
  assumes "weight_ok w" "updateValidatorsWeight (w\<lparr>w_Voters := V\<rparr>) = (w', vs)"
  shows "weight_ok w' \<and> notifies w vs w'"
  using updateValidatorsWeight_ok [OF _ assms(2)] assms(1) by (simp add: weight_ok_def notifies_def)

lemma set_attestors_ok:
  assumes "weight_ok w" "updateAttestorsWeight (w\<lparr>w_Attestors := A\<rparr>) = (w', vs)"
  shows "weight_ok w' \<and> notifies w vs w'"
  using updateAttestorsWeight_ok [OF _ assms(2)] assms(1) by (simp add: weight_ok_def notifies_def)

lemma set_value_ok:
  assumes "weight_ok w" "validatorsWeight v = validatorsWeight (w_value w)" "attestorsWeight v = attestorsWeight (w_value w)" "v \<noteq> w_value w"
  shows "weight_ok (w\<lparr>w_value := v\<rparr>) \<and> notifies w [v] (w\<lparr>w_value := v\<rparr>)"
  using assms by (simp add: weight_ok_def notifies_def)

lemma unchanged_ok: "weight_ok w \<Longrightarrow> weight_ok w \<and> notifies w [] w"
  by (simp add: notifies_def)

lemma weight_step_ok: "weight_step w vs w' \<Longrightarrow> weight_ok w \<Longrightarrow> weight_ok w' \<and> notifies w vs w'"
proof (induction rule: weight_step.induct)
  case (set_cumulative c w w' vs)
  then show ?case using set_value_ok [of w "(w_value w)\<lparr>cumulativeWeight := c\<rparr>"] unchanged_ok [of w]
    by (auto simp: SetCumulativeWeight_def Let_def value_update_eq split: if_splits)
next
  case (add_cumulative c w w' vs)
  then show ?case using set_value_ok [of w "AddCumulativeWeight_value c (w_value w)"] unchanged_ok [of w]
    by (auto simp: AddCumulativeWeight_def AddCumulativeWeight_value_def Let_def value_update_eq split: if_splits)
next
  case (remove_cumulative c w w' vs)
  then show ?case using set_value_ok [of w "RemoveCumulativeWeight_value c (w_value w)"] unchanged_ok [of w]
    by (auto simp: RemoveCumulativeWeight_def RemoveCumulativeWeight_value_def Let_def value_update_eq split: if_splits)
next
  case (set_acceptance a w w' vs)
  then show ?case using set_value_ok [of w "(w_value w)\<lparr>acceptanceState := a\<rparr>"] unchanged_ok [of w]
    by (auto simp: SetAcceptanceState_def setAcceptanceState_def Let_def value_update_eq split: if_splits)
next
  case (add_voter s w w' vs)
  then show ?case using set_voters_ok [of w "insert s (w_Voters w)" w' vs] unchanged_ok [of w]
    by (auto simp: AddVoter_def split: if_splits)
next
  case (delete_voter s w w' vs)
  then show ?case using set_voters_ok [of w "w_Voters w - {s}" w' vs] unchanged_ok [of w]
    by (auto simp: DeleteVoter_def split: if_splits)
next
  case (add_attestor s w w' vs)
  then show ?case using set_attestors_ok [of w "insert s (w_Attestors w)" w' vs] unchanged_ok [of w]
    by (auto simp: AddAttestor_def split: if_splits)
next
  case (delete_attestor s w w' vs)
  then show ?case using set_attestors_ok [of w "w_Attestors w - {s}" w' vs] unchanged_ok [of w]
    by (auto simp: DeleteAttestor_def split: if_splits)
next
  case (reset_attestors w w' vs)
  then show ?case using set_attestors_ok [of w "{}" w' vs] unchanged_ok [of w]
    by (auto simp: ResetAttestors_def split: if_splits)
qed

lemma reachable_weight_ok: "reachable_weight w \<Longrightarrow> weight_ok w"
proof (induction rule: reachable_weight.induct)
  case new
  then show ?case by (simp add: weight_ok_def New_weight_def)
next
  case (step w vs w')
  then show ?case using weight_step_ok by blast
next
  case (with_acceptance w a)
  then show ?case by (simp add: WithAcceptanceState_def setAcceptanceState_def weight_ok_def Let_def)
qed



end
