(* ===== verification/IssuerRing.thy ===== *)
theory IssuerRing
  imports Prelude
begin

text \<open>
  The circular lists of Go's \<^verbatim>\<open>container/ring\<close> in an explicit heap, and the two operations of
  \<^verbatim>\<open>scheduler/drr/basicbuffer.go\<close> on them, \<^verbatim>\<open>ringInsert\<close> and \<^verbatim>\<open>ringRemove\<close>.  The lemmas relate them to
  lists that start at the current element.
\<close>


section \<open>Rings\<close>

text \<open>
  A ring element is an address; the heap maps addresses to the fields of Go's \<^verbatim>\<open>ring.Ring\<close>.  The
  next free address is \<open>rg_fresh\<close>.
\<close>

type_synonym addr = nat

record 'v ring_heap =
  rg_next :: "addr \<Rightarrow> addr"
  rg_prev :: "addr \<Rightarrow> addr"
  rg_value :: "addr \<Rightarrow> 'v"
  rg_fresh :: addr

definition ring_New :: "'v \<Rightarrow> 'v ring_heap \<Rightarrow> addr \<times> 'v ring_heap" where
  "ring_New v h =
     (let p = rg_fresh h
      in (p, h\<lparr>rg_next := (rg_next h)(p := p), rg_prev := (rg_prev h)(p := p),
               rg_value := (rg_value h)(p := v), rg_fresh := Suc p\<rparr>))"

definition ring_Link :: "addr \<Rightarrow> addr \<Rightarrow> 'v ring_heap \<Rightarrow> addr \<times> 'v ring_heap" where
  "ring_Link r s h =
     (let n = rg_next h r;
          p = rg_prev h s;
          h = h\<lparr>rg_next := (rg_next h)(r := s)\<rparr>;
          h = h\<lparr>rg_prev := (rg_prev h)(s := r)\<rparr>;
          h = h\<lparr>rg_prev := (rg_prev h)(n := p)\<rparr>;
          h = h\<lparr>rg_next := (rg_next h)(p := n)\<rparr>
      in (n, h))"

text \<open>The buffer's pointer to its current element is None when the ring is empty (nil); removing from an
  empty ring dereferences it.\<close>

definition ringRemove :: "addr \<Rightarrow> addr option \<times> 'v ring_heap \<Rightarrow> (addr option \<times> 'v ring_heap) option" where
  "ringRemove r = (\<lambda>(ring, h).
     case ring of
       None \<Rightarrow> None
     | Some cur \<Rightarrow>
         let n = rg_next h cur
         in if r = cur then
              if n = cur then Some (None, h)
              else Some (Some n, snd (ring_Link (rg_prev h r) n h))
            else Some (ring, snd (ring_Link (rg_prev h r) n h)))"

definition ringInsert :: "'v \<Rightarrow> addr option \<times> 'v ring_heap \<Rightarrow> addr \<times> addr option \<times> 'v ring_heap" where
  "ringInsert v = (\<lambda>(ring, h).
     let (p, h) = ring_New v h
     in case ring of
          None \<Rightarrow> (p, Some p, h)
        | Some cur \<Rightarrow> let (q, h) = ring_Link p cur h in (q, ring, h))"

section \<open>Rings as lists\<close>

text \<open>Links along a list, from an element before it to one after it.\<close>

fun linked :: "'v ring_heap \<Rightarrow> addr \<Rightarrow> addr list \<Rightarrow> addr \<Rightarrow> bool" where
  "linked h a [] b \<longleftrightarrow> rg_next h a = b \<and> rg_prev h b = a"
| "linked h a (x # xs) b \<longleftrightarrow> rg_next h a = x \<and> rg_prev h x = a \<and> linked h x xs b"

definition ring_at :: "'v ring_heap \<Rightarrow> addr list \<Rightarrow> bool" where
  "ring_at h xs \<longleftrightarrow> (case xs of [] \<Rightarrow> False | x # ys \<Rightarrow> distinct xs \<and> linked h x ys x)"

lemma ring_at_Cons: "ring_at h (x # ys) \<longleftrightarrow> distinct (x # ys) \<and> linked h x ys x"
  by (simp add: ring_at_def)

lemma linked_append: "linked h a (xs @ y # ys) b \<longleftrightarrow> linked h a xs y \<and> linked h y ys b"
  by (induction xs arbitrary: a) auto

text \<open>Links are kept when the fields that make them up are.\<close>

lemma linked_cong:
  assumes "linked h a xs b"
    and "\<And>x. x \<in> insert a (set xs) \<Longrightarrow> rg_next h' x = rg_next h x"
    and "\<And>x. x \<in> insert b (set xs) \<Longrightarrow> rg_prev h' x = rg_prev h x"
  shows "linked h' a xs b"
  using assms by (induction xs arbitrary: a) auto

lemma linked_last: "linked h a xs b \<Longrightarrow> rg_prev h b = last (a # xs) \<and> rg_next h (last (a # xs)) = b"
  by (induction xs arbitrary: a) auto

lemma linked_first: "linked h a xs b \<Longrightarrow> rg_next h a = hd (xs @ [b]) \<and> rg_prev h (hd (xs @ [b])) = a"
  by (cases xs) auto

lemma ring_Link_fields:
  fixes r s :: addr and h :: "'v ring_heap"
  defines "h' \<equiv> snd (ring_Link r s h)"
  shows "rg_next h' = (rg_next h)(r := s, rg_prev h s := rg_next h r)"
    "rg_prev h' = (rg_prev h)(s := r, rg_next h r := rg_prev h s)"
    "rg_value h' = rg_value h" "rg_fresh h' = rg_fresh h"
  by (simp_all add: h'_def ring_Link_def Let_def)

text \<open>Removing the current element unlinks it and makes the next one current.\<close>

lemma ringRemove_current:
  assumes "ring_at h (x # y # ys)"
  shows "\<exists>h'. ringRemove x (Some x, h) = Some (Some y, h') \<and> ring_at h' (y # ys) \<and> rg_value h' = rg_value h \<and> rg_fresh h' = rg_fresh h"
proof -
  have d: "distinct (x # y # ys)" and l: "rg_next h x = y" "rg_prev h y = x" "linked h y ys x"
    using assms by (auto simp: ring_at_Cons)
  let ?z = "last (y # ys)"
  have z: "rg_prev h x = ?z" "rg_next h ?z = x" using linked_last [OF l(3)] by auto
  let ?h = "snd (ring_Link ?z y h)"
  have n: "rg_next ?h = (rg_next h)(?z := y, x := x)" "rg_prev ?h = (rg_prev h)(y := ?z, x := x)"
    using z l by (simp_all add: ring_Link_fields)
  have "linked ?h y ys y"
  proof (cases ys rule: rev_cases)
    case Nil
    then show ?thesis using n d by simp
  next
    case (snoc zs w)
    then have "linked h y zs w" using l(3) by (simp add: linked_append)
    then have "linked ?h y zs w"
      by (rule linked_cong) (use n d snoc in auto)
    moreover have "linked ?h w [] y" using n d snoc by simp
    ultimately show ?thesis unfolding snoc by (simp only: linked_append)
  qed
  moreover have "ringRemove x (Some x, h) = Some (Some y, ?h)"
    using d l z by (simp add: ringRemove_def Let_def)
  ultimately show ?thesis using d by (auto simp: ring_at_Cons ring_Link_fields)
qed

text \<open>
  Removing another element \<open>r\<close> keeps it and unlinks the elements between the current one and \<open>r\<close>.
\<close>

lemma ringRemove_other_ring:
  assumes "ring_at h (x # ys @ r # zs)"
  shows "\<exists>h'. ringRemove r (Some x, h) = Some (Some x, h') \<and> ring_at h' (x # r # zs) \<and>
    (ys \<noteq> [] \<longrightarrow> ring_at h' ys) \<and> rg_value h' = rg_value h \<and> rg_fresh h' = rg_fresh h"
proof -
  have d: "distinct (x # ys @ r # zs)" and l: "linked h x ys r" "linked h r zs x"
    using assms by (auto simp: ring_at_Cons linked_append)
  let ?p = "last (x # ys)" and ?n = "hd (ys @ [r])"
  have p: "rg_prev h r = ?p" "rg_next h ?p = r" using linked_last [OF l(1)] by auto
  have n: "rg_next h x = ?n" "rg_prev h ?n = x" using linked_first [OF l(1)] by auto
  let ?h = "snd (ring_Link ?p ?n h)"
  have f: "rg_next ?h = (rg_next h)(?p := ?n, x := r)" "rg_prev ?h = (rg_prev h)(?n := ?p, r := x)"
    using p n by (simp_all add: ring_Link_fields)
  have out: "?p \<notin> insert r (set zs)" "?n \<notin> insert x (set zs)"
    using d by (auto simp: hd_append dest: last_in_set hd_in_set split: if_splits)
  have "linked ?h r zs x"
  proof (rule linked_cong [OF l(2)])
    show "rg_next ?h a = rg_next h a" if "a \<in> insert r (set zs)" for a using that out d f(1) by auto
    show "rg_prev ?h a = rg_prev h a" if "a \<in> insert x (set zs)" for a using that out d f(2) by auto
  qed
  moreover have "rg_next ?h x = r" "rg_prev ?h r = x" using f by auto
  ultimately have "ring_at ?h (x # r # zs)" using d by (simp add: ring_at_Cons)
  moreover have "ring_at ?h ys" if ne: "ys \<noteq> []"
  proof -
    obtain y us where y: "ys = y # us" using ne by (cases ys) auto
    have lu: "linked h y us r" using l(1) y by simp
    have "linked ?h y us y"
    proof (cases us rule: rev_cases)
      case Nil
      then show ?thesis using f d y by simp
    next
      case (snoc vs w)
      then have "linked h y vs w" using lu by (simp add: linked_append)
      then have "linked ?h y vs w"
        by (rule linked_cong) (use f d y snoc in auto)
      moreover have "linked ?h w [] y" using f d y snoc by simp
      ultimately show ?thesis unfolding snoc by (simp only: linked_append)
    qed
    then show ?thesis using d y by (simp add: ring_at_Cons)
  qed
  moreover have "ringRemove r (Some x, h) = Some (Some x, ?h)"
    using d p n by (auto simp: ringRemove_def Let_def)
  ultimately show ?thesis by (auto simp: ring_Link_fields)
qed

text \<open>Inserting puts the new element before the current one, at the end of the round.\<close>

lemma ringInsert_empty:
  "\<exists>h'. ringInsert v (None, h) = (rg_fresh h, Some (rg_fresh h), h') \<and> ring_at h' [rg_fresh h] \<and>
    rg_value h' = (rg_value h)(rg_fresh h := v) \<and> rg_fresh h' = Suc (rg_fresh h)"
  by (simp add: ringInsert_def ring_New_def Let_def ring_at_Cons)

lemma ringInsert_ring:
  assumes "ring_at h (x # xs)" "\<forall>a\<in>set (x # xs). a < rg_fresh h"
  shows "\<exists>h'. ringInsert v (Some x, h) = (rg_fresh h, Some x, h') \<and> ring_at h' (x # xs @ [rg_fresh h]) \<and>
    rg_value h' = (rg_value h)(rg_fresh h := v) \<and> rg_fresh h' = Suc (rg_fresh h)"
proof -
  let ?p = "rg_fresh h"
  let ?g = "snd (ring_New v h)"
  have d: "distinct (x # xs @ [?p])" using assms by (auto simp: ring_at_Cons)
  have l: "linked h x xs x" using assms by (simp add: ring_at_Cons)
  have g: "rg_next ?g = (rg_next h)(?p := ?p)" "rg_prev ?g = (rg_prev h)(?p := ?p)"
    "rg_value ?g = (rg_value h)(?p := v)" "rg_fresh ?g = Suc ?p"
    by (simp_all add: ring_New_def Let_def)
  have lg: "linked ?g x xs x"
    by (rule linked_cong [OF l]) (use g d in auto)
  let ?z = "last (x # xs)"
  have z: "rg_prev ?g x = ?z" "rg_next ?g ?z = x" using linked_last [OF lg] by auto
  have zp: "?z \<noteq> ?p" using d by (auto dest: last_in_set split: if_splits)
  let ?h = "snd (ring_Link ?p x ?g)"
  have f: "rg_next ?h = (rg_next ?g)(?p := x, ?z := ?p)" "rg_prev ?h = (rg_prev ?g)(x := ?p, ?p := ?z)"
    using z g by (simp_all add: ring_Link_fields)
  have "linked ?h x xs ?p"
  proof (cases xs rule: rev_cases)
    case Nil
    then show ?thesis using f d by simp
  next
    case (snoc ys w)
    then have "linked ?g x ys w" using lg by (simp add: linked_append)
    then have "linked ?h x ys w"
      by (rule linked_cong) (use f d snoc in auto)
    moreover have "linked ?h w [] ?p" using f d snoc by simp
    ultimately show ?thesis unfolding snoc by (simp only: linked_append)
  qed
  moreover have "linked ?h ?p [] x" using f d zp by simp
  ultimately have "linked ?h x (xs @ [?p]) x" by (simp only: linked_append)
  then have "ring_at ?h (x # xs @ [?p])" using d by (simp add: ring_at_Cons)
  moreover have "ringInsert v (Some x, h) = (?p, Some x, ?h)"
    by (simp add: ringInsert_def ring_New_def ring_Link_def Let_def)
  ultimately show ?thesis using g by (auto simp: ring_Link_fields)
qed

end
