(* ===== verification/Heaps.thy ===== *)
theory Heaps
  imports Prelude "HOL-Library.Multiset"
begin

text \<open>
  The binary heaps of Go's \<^verbatim>\<open>container/heap\<close> on a slice, as the issuer queues use them.  The locale
  \<open>heap_order\<close> shows for a \<^verbatim>\<open>Less\<close> that compares a key that every operation keeps the heap order and the
  multiset of elements, and that the root has the least key.
\<close>


section \<open>The operations\<close>

definition heap_swap :: "nat \<Rightarrow> nat \<Rightarrow> 'a list \<Rightarrow> 'a list" where
  "heap_swap i j h = h[i := h ! j, j := h ! i]"

function heap_up :: "('a \<Rightarrow> 'a \<Rightarrow> bool) \<Rightarrow> nat \<Rightarrow> 'a list \<Rightarrow> 'a list" where
  "heap_up lt j h =
     (let i = (j - 1) div 2
      in if i = j \<or> \<not> lt (h ! j) (h ! i) then h
         else heap_up lt i (heap_swap i j h))"
  by pat_completeness auto
termination by (relation "measure (\<lambda>(lt, j, h). j)") auto

declare heap_up.simps [simp del]

text \<open>\<open>heap_down\<close> returns the heap and the position at which the element comes to rest.\<close>

definition smallerChild :: "('a \<Rightarrow> 'a \<Rightarrow> bool) \<Rightarrow> nat \<Rightarrow> nat \<Rightarrow> 'a list \<Rightarrow> nat" where
  "smallerChild lt i n h =
     (let j1 = 2 * i + 1; j2 = j1 + 1 in if j2 < n \<and> lt (h ! j2) (h ! j1) then j2 else j1)"

function heap_down :: "('a \<Rightarrow> 'a \<Rightarrow> bool) \<Rightarrow> nat \<Rightarrow> nat \<Rightarrow> 'a list \<Rightarrow> nat \<times> 'a list" where
  "heap_down lt i n h =
     (if n \<le> 2 * i + 1 then (i, h)
      else let j = smallerChild lt i n h
           in if \<not> lt (h ! j) (h ! i) then (i, h)
              else heap_down lt j n (heap_swap i j h))"
  by pat_completeness auto
termination by (relation "measure (\<lambda>(lt, i, n, h). n - i)") (auto simp: smallerChild_def Let_def)

declare heap_down.simps [simp del]

definition heap_Push :: "('a \<Rightarrow> 'a \<Rightarrow> bool) \<Rightarrow> 'a \<Rightarrow> 'a list \<Rightarrow> 'a list" where
  "heap_Push lt x h = heap_up lt (length h) (h @ [x])"

definition heap_Pop :: "('a \<Rightarrow> 'a \<Rightarrow> bool) \<Rightarrow> 'a list \<Rightarrow> 'a \<times> 'a list" where
  "heap_Pop lt h =
     (let n = length h - 1; h = snd (heap_down lt 0 n (heap_swap 0 n h)) in (last h, butlast h))"

definition heap_Remove :: "('a \<Rightarrow> 'a \<Rightarrow> bool) \<Rightarrow> nat \<Rightarrow> 'a list \<Rightarrow> 'a \<times> 'a list" where
  "heap_Remove lt i h =
     (let n = length h - 1;
          h = (if n = i then h
               else let (k, d) = heap_down lt i n (heap_swap i n h)
                    in if i < k then d else heap_up lt i d)
      in (last h, butlast h))"

section \<open>Contents\<close>

lemma parent_less: "0 < k \<Longrightarrow> (k - 1) div 2 < (k :: nat)"
  by (cases k) auto

lemma length_heap_swap [simp]: "length (heap_swap i j h) = length h"
  by (simp add: heap_swap_def)

lemma mset_heap_swap [simp]: "i < length h \<Longrightarrow> j < length h \<Longrightarrow> mset (heap_swap i j h) = mset h"
  by (simp add: heap_swap_def mset_swap)

lemma nth_heap_swap:
  "i < length h \<Longrightarrow> j < length h \<Longrightarrow> k < length h \<Longrightarrow>
     heap_swap i j h ! k = (if k = i then h ! j else if k = j then h ! i else h ! k)"
  by (simp add: heap_swap_def nth_list_update)

lemma mset_heap_up: "j < length h \<Longrightarrow> mset (heap_up lt j h) = mset h"
proof (induction lt j h rule: heap_up.induct)
  case (1 lt j h)
  have "(j - 1) div 2 < length h" using 1(2) by simp
  then show ?case using 1 by (subst heap_up.simps) (simp add: Let_def)
qed

lemma heap_up_above: "j < k \<Longrightarrow> k < length h \<Longrightarrow> heap_up lt j h ! k = h ! k"
proof (induction lt j h rule: heap_up.induct)
  case (1 lt j h)
  then show ?case by (subst heap_up.simps) (simp add: Let_def nth_heap_swap)
qed

lemma heap_down_stays:
  assumes "\<not> lt (h ! smallerChild lt i n h) (h ! i) \<or> n \<le> 2 * i + 1"
  shows "heap_down lt i n h = (i, h)"
  using assms by (subst heap_down.simps) (auto simp: Let_def)

lemma smallerChild_bounds:
  assumes "2 * i + 1 < n"
  shows "i < smallerChild lt i n h" "smallerChild lt i n h < n" "(smallerChild lt i n h - 1) div 2 = i"
  using assms by (auto simp: smallerChild_def Let_def)

lemma heap_down_contents:
  assumes "n \<le> length h" "i < length h"
  shows "mset (snd (heap_down lt i n h)) = mset h \<and>
    (\<forall>k<length h. n \<le> k \<longrightarrow> snd (heap_down lt i n h) ! k = h ! k)"
  using assms
proof (induction lt i n h rule: heap_down.induct)
  case (1 lt i n h)
  let ?j = "smallerChild lt i n h"
  show ?case
  proof (cases "n \<le> 2 * i + 1 \<or> \<not> lt (h ! ?j) (h ! i)")
    case True
    then show ?thesis by (subst (1 2) heap_down.simps) (auto simp: Let_def)
  next
    case False
    then have b: "i < ?j" "?j < n" using smallerChild_bounds [of i n lt h] by auto
    have "heap_down lt i n h = heap_down lt ?j n (heap_swap i ?j h)"
      using False by (subst heap_down.simps) (auto simp: Let_def)
    moreover have "heap_swap i ?j h ! k = h ! k" if "k < length h" "n \<le> k" for k
      using nth_heap_swap [of i h ?j k] b that 1(2,3) by simp
    ultimately show ?thesis using 1(1) [OF _ refl] False b 1(2,3) by simp
  qed
qed

lemma length_heap_up [simp]: "length (heap_up lt j h) = length h"
proof (induction lt j h rule: heap_up.induct)
  case (1 lt j h)
  then show ?case by (subst heap_up.simps) (simp add: Let_def)
qed

lemma length_heap_down [simp]: "length (snd (heap_down lt i n h)) = length h"
proof (induction lt i n h rule: heap_down.induct)
  case (1 lt i n h)
  then show ?case by (subst heap_down.simps) (simp add: Let_def)
qed

section \<open>Order\<close>

locale heap_order =
  fixes lt :: "'a \<Rightarrow> 'a \<Rightarrow> bool" and key :: "'a \<Rightarrow> 'k::linorder"
  assumes less_key: "lt a b \<longleftrightarrow> key a < key b"
begin

definition parent_le :: "'a list \<Rightarrow> nat \<Rightarrow> bool" where
  "parent_le h k \<longleftrightarrow> key (h ! ((k - 1) div 2)) \<le> key (h ! k)"

definition is_heap :: "nat \<Rightarrow> 'a list \<Rightarrow> bool" where
  "is_heap n h \<longleftrightarrow> (\<forall>k<n. 0 < k \<longrightarrow> parent_le h k)"

text \<open>A heap but for the element at \<open>j\<close>, which may be smaller than its ancestors.\<close>

definition up_inv :: "nat \<Rightarrow> nat \<Rightarrow> 'a list \<Rightarrow> bool" where
  "up_inv n j h \<longleftrightarrow> (\<forall>k<n. 0 < k \<longrightarrow> k \<noteq> j \<longrightarrow> parent_le h k) \<and>
     (\<forall>k<n. 0 < k \<longrightarrow> (k - 1) div 2 = j \<longrightarrow> 0 < j \<longrightarrow> key (h ! ((j - 1) div 2)) \<le> key (h ! k))"

text \<open>A heap but for the element at \<open>i\<close>, which may be larger than its descendants.\<close>

definition down_inv :: "nat \<Rightarrow> nat \<Rightarrow> 'a list \<Rightarrow> bool" where
  "down_inv n i h \<longleftrightarrow> (\<forall>k<n. 0 < k \<longrightarrow> (k - 1) div 2 \<noteq> i \<longrightarrow> parent_le h k) \<and>
     (\<forall>k<n. 0 < k \<longrightarrow> (k - 1) div 2 = i \<longrightarrow> 0 < i \<longrightarrow> key (h ! ((i - 1) div 2)) \<le> key (h ! k))"

lemma up_step:
  assumes "up_inv n j h" "n \<le> length h" "j < n" "(j - 1) div 2 \<noteq> j" "key (h ! j) < key (h ! ((j - 1) div 2))"
  shows "up_inv n ((j - 1) div 2) (heap_swap ((j - 1) div 2) j h)"
proof -
  let ?i = "(j - 1) div 2"
  let ?h = "heap_swap ?i j h"
  have j: "0 < j" "?i < j" using assms(4) by (cases j, auto)
  have nth: "?h ! k = (if k = ?i then h ! j else if k = j then h ! ?i else h ! k)" if "k < n" for k
    using nth_heap_swap [of ?i h j k] that assms(2,3) j by simp
  have heap: "key (h ! ((k - 1) div 2)) \<le> key (h ! k)" if "k < n" "0 < k" "k \<noteq> j" for k
    using assms(1) that by (simp add: up_inv_def parent_le_def)
  have skip: "key (h ! ?i) \<le> key (h ! k)" if "k < n" "0 < k" "(k - 1) div 2 = j" for k
    using assms(1) that j by (simp add: up_inv_def)
  have "parent_le ?h k" if k: "k < n" "0 < k" "k \<noteq> ?i" for k
  proof -
    have "(k - 1) div 2 < n" using k by simp
    note at = nth [OF k(1)] nth [OF this]
    show ?thesis
    proof (cases "k = j")
      case True
      then show ?thesis using at assms(5) j by (simp add: parent_le_def)
    next
      case kj: False
      show ?thesis
      proof (cases "(k - 1) div 2 = j")
        case True
        then show ?thesis using at skip [OF k(1,2)] kj k(3) j by (simp add: parent_le_def)
      next
        case False
        then show ?thesis using at heap [OF k(1,2) kj] kj k(3) assms(5) by (auto simp: parent_le_def)
      qed
    qed
  qed
  moreover have "key (?h ! ((?i - 1) div 2)) \<le> key (?h ! k)" if k: "k < n" "0 < k" "(k - 1) div 2 = ?i" "0 < ?i" for k
  proof -
    have p: "(?i - 1) div 2 < ?i" "?i < n" using k j assms(3) parent_less [OF k(4)] by auto
    have "?h ! ((?i - 1) div 2) = h ! ((?i - 1) div 2)" using nth [of "(?i - 1) div 2"] p j by simp
    moreover have "key (h ! ((?i - 1) div 2)) \<le> key (h ! ?i)" using heap [of ?i] p k j by simp
    moreover have "key (h ! ?i) \<le> key (?h ! k)"
    proof (cases "k = j")
      case True
      then show ?thesis using nth [OF k(1)] j by simp
    next
      case False
      have "k \<noteq> ?i" using k parent_less [OF k(2)] by auto
      then show ?thesis using nth [OF k(1)] heap [OF k(1,2) False] False k(3) by simp
    qed
    ultimately show ?thesis by simp
  qed
  ultimately show ?thesis by (simp add: up_inv_def)
qed

lemma heap_up_is_heap:
  assumes "up_inv n j h" "j < n" "n \<le> length h"
  shows "is_heap n (heap_up lt j h)"
  using assms
proof (induction j arbitrary: h rule: less_induct)
  case (less j)
  let ?i = "(j - 1) div 2"
  show ?case
  proof (cases "?i = j \<or> \<not> key (h ! j) < key (h ! ?i)")
    case True
    have "heap_up lt j h = h" using True by (subst heap_up.simps) (simp add: Let_def less_key)
    moreover have "parent_le h j" if "0 < j"
      using True that by (auto simp: parent_le_def)
    ultimately show ?thesis using less(2) unfolding is_heap_def up_inv_def by metis
  next
    case False
    have "heap_up lt j h = heap_up lt ?i (heap_swap ?i j h)"
      using False by (subst heap_up.simps) (simp add: Let_def less_key)
    moreover have "?i < j" using False by (cases j) auto
    ultimately show ?thesis
      using less(1) [of ?i "heap_swap ?i j h"] up_step [OF less(2,4,3)] False less(3,4) by simp
  qed
qed

lemma down_step:
  assumes "down_inv n i h" "n \<le> length h" "2 * i + 1 < n"
    and lt: "key (h ! smallerChild lt i n h) < key (h ! i)"
  shows "down_inv n (smallerChild lt i n h) (heap_swap i (smallerChild lt i n h) h)"
proof -
  let ?j = "smallerChild lt i n h"
  let ?h = "heap_swap i ?j h"
  note b = smallerChild_bounds [OF assms(3), of lt h]
  have nth: "?h ! k = (if k = i then h ! ?j else if k = ?j then h ! i else h ! k)" if "k < n" for k
    using nth_heap_swap [of i h ?j k] that assms(2) b by simp
  have heap: "key (h ! ((k - 1) div 2)) \<le> key (h ! k)" if "k < n" "0 < k" "(k - 1) div 2 \<noteq> i" for k
    using assms(1) that by (simp add: down_inv_def parent_le_def)
  have skip: "key (h ! ((i - 1) div 2)) \<le> key (h ! k)" if "k < n" "0 < k" "(k - 1) div 2 = i" "0 < i" for k
    using assms(1) that by (simp add: down_inv_def)
  have least: "key (h ! ?j) \<le> key (h ! k)" if "k < n" "0 < k" "(k - 1) div 2 = i" for k
  proof -
    have "k = 2 * i + 1 \<or> k = 2 * i + 2" using that by arith
    then show ?thesis using that assms(3) by (auto simp: smallerChild_def Let_def less_key)
  qed
  have "parent_le ?h k" if k: "k < n" "0 < k" "(k - 1) div 2 \<noteq> ?j" for k
  proof -
    have p: "(k - 1) div 2 < n" "(k - 1) div 2 < k" using k parent_less [OF k(2)] by auto
    note at = nth [OF k(1)] nth [OF p(1)]
    consider "k = i" | "k \<noteq> i" "(k - 1) div 2 = i" | "k \<noteq> i" "(k - 1) div 2 \<noteq> i" by blast
    then show ?thesis
    proof cases
      case 1
      then show ?thesis using at p skip [of ?j] b k by (simp add: parent_le_def)
    next
      case 2
      then show ?thesis using at least [OF k(1,2)] lt by (auto simp: parent_le_def)
    next
      case 3
      then show ?thesis using at heap [OF k(1,2)] k(3) b by (auto simp: parent_le_def)
    qed
  qed
  moreover have "key (?h ! ((?j - 1) div 2)) \<le> key (?h ! k)" if k: "k < n" "0 < k" "(k - 1) div 2 = ?j" for k
  proof -
    have "k \<noteq> i" "k \<noteq> ?j" using parent_less [OF k(2)] k b by auto
    then show ?thesis using nth [OF k(1)] nth [of i] heap [OF k(1,2)] k(3) b by simp
  qed
  ultimately show ?thesis by (simp add: down_inv_def)
qed

lemma heap_down_is_heap:
  assumes "down_inv n i h" "n \<le> length h" "i < length h"
  shows "is_heap n (snd (heap_down lt i n h))"
  using assms
proof (induction "n - i" arbitrary: i h rule: less_induct)
  case less
  let ?j = "smallerChild lt i n h"
  consider (stop) "n \<le> 2 * i + 1" | (rest) "2 * i + 1 < n" "\<not> key (h ! ?j) < key (h ! i)"
    | (move) "2 * i + 1 < n" "key (h ! ?j) < key (h ! i)" by linarith
  then show ?case
  proof cases
    case stop
    then have "heap_down lt i n h = (i, h)" by (subst heap_down.simps) simp
    moreover have "(k - 1) div 2 \<noteq> i" if "k < n" "0 < k" for k using that stop by linarith
    ultimately show ?thesis using less(2) by (simp add: is_heap_def down_inv_def)
  next
    case rest
    then have "heap_down lt i n h = (i, h)" by (subst heap_down.simps) (simp add: Let_def less_key)
    moreover have "parent_le h k" if "k < n" "0 < k" "(k - 1) div 2 = i" for k
    proof -
      have "k = 2 * i + 1 \<or> k = 2 * i + 2" using that by arith
      then show ?thesis using that rest by (auto simp: smallerChild_def Let_def less_key parent_le_def split: if_splits)
    qed
    ultimately show ?thesis using less(2) unfolding is_heap_def down_inv_def by (metis snd_conv)
  next
    case move
    have "heap_down lt i n h = heap_down lt ?j n (heap_swap i ?j h)"
      using move by (subst heap_down.simps) (simp add: Let_def less_key)
    then show ?thesis
      using less(1) [of ?j "heap_swap i ?j h"] down_step [OF less(2,3) move] smallerChild_bounds [OF move(1), of lt h]
        move(1) less(3) by simp
  qed
qed

lemma is_heap_root:
  assumes "is_heap n h" "k < n"
  shows "key (h ! 0) \<le> key (h ! k)"
  using assms(2)
proof (induction k rule: less_induct)
  case (less k)
  show ?case
  proof (cases "k = 0")
    case False
    then have "(k - 1) div 2 < k" using parent_less [of k] by simp
    then show ?thesis using less assms(1) False unfolding is_heap_def parent_le_def by (meson bot_nat_0.not_eq_extremum less_trans order_trans)
  qed simp
qed

lemma is_heap_butlast: "is_heap (length h - 1) h \<Longrightarrow> is_heap (length (butlast h)) (butlast h)"
  unfolding is_heap_def parent_le_def using parent_less by (auto simp: nth_butlast)

lemma heap_Push_ok:
  assumes "is_heap (length h) h"
  shows "is_heap (length (heap_Push lt x h)) (heap_Push lt x h)" "mset (heap_Push lt x h) = add_mset x (mset h)"
proof -
  have "up_inv (length (h @ [x])) (length h) (h @ [x])"
    unfolding up_inv_def
  proof (intro conjI allI impI)
    fix k assume k: "k < length (h @ [x])" "0 < k" "k \<noteq> length h"
    then have "k < length h" "(k - 1) div 2 < length h" using parent_less [of k] by auto
    then show "parent_le (h @ [x]) k" using assms k by (simp add: is_heap_def parent_le_def nth_append)
  next
    fix k assume k: "k < length (h @ [x])" "0 < k" "(k - 1) div 2 = length h"
    then show "key ((h @ [x]) ! ((length h - 1) div 2)) \<le> key ((h @ [x]) ! k)" using parent_less [of k] by simp
  qed
  from heap_up_is_heap [OF this] show "is_heap (length (heap_Push lt x h)) (heap_Push lt x h)"
    by (simp add: heap_Push_def)
  show "mset (heap_Push lt x h) = add_mset x (mset h)" by (simp add: heap_Push_def mset_heap_up)
qed

lemma split_last:
  assumes "mset h' = mset h" "h \<noteq> []" "h' ! (length h - 1) = x"
  shows "last h' = x" "mset h = add_mset x (mset (butlast h'))"
proof -
  have n: "length h' = length h" using assms(1) by (metis size_mset)
  then have "h' \<noteq> []" using assms(2) by auto
  then show "last h' = x" using n assms(3) by (simp add: last_conv_nth)
  then show "mset h = add_mset x (mset (butlast h'))"
    using \<open>h' \<noteq> []\<close> assms(1) by (metis append_butlast_last_id mset.simps(2) mset_append mset.simps(1) union_mset_add_mset_right add.right_neutral)
qed

lemma heap_Pop_ok:
  assumes "is_heap (length h) h" "h \<noteq> []" "heap_Pop lt h = (x, h')"
  shows "x = h ! 0" "mset h = add_mset x (mset h')" "is_heap (length h') h'" "\<forall>y\<in>set h. key x \<le> key y"
proof -
  let ?n = "length h - 1"
  let ?s = "heap_swap 0 ?n h"
  let ?d = "snd (heap_down lt 0 ?n ?s)"
  have n: "0 < length h" "?n < length h" using assms(2) by (auto simp: length_greater_0_conv)
  have r: "x = last ?d" "h' = butlast ?d" using assms(3) by (auto simp: heap_Pop_def Let_def)
  have c: "mset ?d = mset h" "?d ! ?n = h ! 0"
    using heap_down_contents [of ?n ?s 0 lt] n nth_heap_swap [of 0 h ?n ?n] by auto
  show x: "x = h ! 0" "mset h = add_mset x (mset h')" using split_last [OF c(1) assms(2) c(2)] r by auto
  have "down_inv ?n 0 ?s"
    unfolding down_inv_def
  proof (intro conjI allI impI)
    fix k assume k: "k < ?n" "0 < k" "(k - 1) div 2 \<noteq> 0"
    then have "(k - 1) div 2 < ?n" using parent_less [of k] by linarith
    then show "parent_le ?s k" using assms(1) k n
      by (simp add: is_heap_def parent_le_def nth_heap_swap)
  qed simp
  from heap_down_is_heap [OF this] n have "is_heap ?n ?d" by simp
  then show "is_heap (length h') h'" using is_heap_butlast [of ?d] r by simp
  show "\<forall>y\<in>set h. key x \<le> key y"
    using is_heap_root [OF assms(1)] x(1) by (auto simp: in_set_conv_nth)
qed

lemma is_heap_up_inv: "is_heap n h \<Longrightarrow> up_inv n j h"
proof -
  assume h: "is_heap n h"
  have "key (h ! ((j - 1) div 2)) \<le> key (h ! k)" if "k < n" "0 < k" "(k - 1) div 2 = j" "0 < j" for k
  proof -
    have "parent_le h k" "parent_le h j" using h that parent_less [of k] by (auto simp: is_heap_def)
    then show ?thesis using that by (auto simp: parent_le_def)
  qed
  then show "up_inv n j h" using h by (simp add: up_inv_def is_heap_def)
qed

text \<open>Moving the last element of a heap to \<open>i\<close> and sifting it down.\<close>

lemma swap_down:
  assumes "is_heap (length h) h" "i < length h - 1"
  defines "n \<equiv> length h - 1"
  shows "is_heap n (snd (heap_down lt i n (heap_swap i n h))) \<or>
    fst (heap_down lt i n (heap_swap i n h)) = i \<and> up_inv n i (snd (heap_down lt i n (heap_swap i n h)))"
proof -
  let ?s = "heap_swap i n h"
  have n: "n < length h" "i < n" using assms(2) by (auto simp: n_def)
  have nth: "?s ! k = (if k = i then h ! n else h ! k)" if "k < n" for k
    using that n by (simp add: nth_heap_swap)
  have heap: "key (h ! ((k - 1) div 2)) \<le> key (h ! k)" if "k < n" "0 < k" for k
    using assms(1) that n by (simp add: is_heap_def parent_le_def)
  have other: "parent_le ?s k" if "k < n" "0 < k" "k \<noteq> i" "(k - 1) div 2 \<noteq> i" for k
  proof -
    have "(k - 1) div 2 < n" using parent_less [OF that(2)] that(1) by linarith
    then show ?thesis using heap [OF that(1,2)] nth that by (simp add: parent_le_def)
  qed
  have child: "key (?s ! ((i - 1) div 2)) \<le> key (?s ! k)" if "k < n" "0 < k" "(k - 1) div 2 = i" "0 < i" for k
  proof -
    have "i < k" "(i - 1) div 2 < i" using parent_less [OF that(2)] parent_less [OF that(4)] that by auto
    then have "?s ! k = h ! k" "?s ! ((i - 1) div 2) = h ! ((i - 1) div 2)" using nth n that(1) by auto
    then show ?thesis using heap [OF that(1,2)] heap [OF n(2) that(4)] that(3) by simp
  qed
  show ?thesis
  proof (cases "0 < i \<longrightarrow> parent_le ?s i")
    case True
    then have "down_inv n i ?s" using other child unfolding down_inv_def by metis
    then show ?thesis using heap_down_is_heap [of n i ?s] n by simp
  next
    case False
    then have v: "0 < i" "key (?s ! i) < key (?s ! ((i - 1) div 2))" by (auto simp: parent_le_def)
    have low: "parent_le ?s k" "key (?s ! i) < key (?s ! k)" if "k < n" "0 < k" "(k - 1) div 2 = i" for k
      using child [OF that v(1)] v(2) that(3) by (auto simp: parent_le_def)
    have "\<not> lt (?s ! smallerChild lt i n ?s) (?s ! i) \<or> n \<le> 2 * i + 1"
    proof (cases "2 * i + 1 < n")
      case True
      note b = smallerChild_bounds [OF True, of lt ?s]
      show ?thesis using low(2) [OF b(2) _ b(3)] b(1) by (auto simp: less_key)
    qed simp
    from heap_down_stays [of lt ?s i n, OF this] have "heap_down lt i n ?s = (i, ?s)" .
    moreover have "up_inv n i ?s" unfolding up_inv_def using other low(1) child by metis
    ultimately show ?thesis by simp
  qed
qed

lemma heap_Remove_ok:
  assumes "is_heap (length h) h" "i < length h" "heap_Remove lt i h = (x, h')"
  shows "x = h ! i" "mset h = add_mset x (mset h')" "is_heap (length h') h'"
proof -
  let ?n = "length h - 1"
  let ?s = "heap_swap i ?n h"
  have ne: "h \<noteq> []" "?n < length h" using assms(2) by auto
  let ?k = "fst (heap_down lt i ?n ?s)" and ?d = "snd (heap_down lt i ?n ?s)"
  define r where "r = (if ?n = i then h else if i < ?k then ?d else heap_up lt i ?d)"
  have r: "x = last r" "h' = butlast r" using assms(3) by (auto simp: heap_Remove_def r_def Let_def case_prod_beta)
  have "mset r = mset h \<and> r ! ?n = h ! i \<and> is_heap ?n r"
  proof (cases "?n = i")
    case True
    then show ?thesis using assms(1) ne by (simp add: r_def is_heap_def)
  next
    case False
    then have i: "i < ?n" using assms(2) by simp
    have c: "mset ?d = mset h" "?d ! ?n = h ! i" "length ?d = length h"
      using heap_down_contents [of ?n ?s i lt] ne i nth_heap_swap [of i h ?n ?n] by auto
    have m: "mset r = mset h" "r ! ?n = h ! i"
      using c i ne False by (auto simp: r_def mset_heap_up heap_up_above)
    have "is_heap ?n ?d \<or> ?k = i \<and> up_inv ?n i ?d" by (rule swap_down) (use assms i in auto)
    then have "is_heap ?n r"
      using heap_up_is_heap [of ?n i ?d] is_heap_up_inv [of ?n ?d i] i c(3) False by (auto simp: r_def)
    then show ?thesis using m by simp
  qed
  then have c: "mset r = mset h" "r ! ?n = h ! i" "is_heap ?n r" by auto
  then have "length r = length h" by (metis size_mset)
  then show "x = h ! i" "mset h = add_mset x (mset h')" "is_heap (length h') h'"
    using split_last [OF c(1) ne(1) c(2)] r is_heap_butlast [of r] c(3) by auto
qed

end

end
