(* ===== verification/IssuerQueues.thy ===== *)
theory IssuerQueues
  imports IssuerRing Heaps AccountData
begin

text \<open>
  The queue of the blocks of one issuer: \<^verbatim>\<open>scheduler/drr/issuerqueue.go\<close>.

  A queue is modelled together with the two counters of the buffer that its callback updates.  The
  invariant \<open>queue_ok\<close> says that its own counters are those of the blocks it holds and that the ready
  blocks form a heap; every operation keeps it, and \<open>counts_follow\<close> is what the buffer relies on.
\<close>


section \<open>State\<close>

text \<open>
  The order of the heap keys comes from \<^verbatim>\<open>generalheap.Heap.Less\<close> and \<^verbatim>\<open>timed.HeapKey.CompareTo\<close>, the
  order in which the map of blocks is visited from \<^verbatim>\<open>shrinkingmap\<close>.
\<close>

record queue_env =
  keyLess :: "int \<Rightarrow> int \<Rightarrow> bool"
  keyCompareTo :: "int \<Rightarrow> int \<Rightarrow> int"
  iterNonReady :: "block_id set \<Rightarrow> block_id list"

definition queue_env_ok :: "queue_env \<Rightarrow> bool" where
  "queue_env_ok E \<longleftrightarrow> (\<forall>a b. keyLess E a b \<longleftrightarrow> a < b) \<and> (\<forall>a b. keyCompareTo E a b > 0 \<longleftrightarrow> b < a) \<and>
     enumerates (iterNonReady E)"

definition blockLess :: "queue_env \<Rightarrow> block \<Rightarrow> block \<Rightarrow> bool" where
  "blockLess E a b = keyLess E (blk_IssuingTime a) (blk_IssuingTime b)"

record issuer_queue =
  iq_issuerID :: account_id
  nonReadyMap :: "block_id \<rightharpoonup> block"
  readyHeap :: "block list"
  iq_size :: i64
  iq_work :: i64

text \<open>The counters of the buffer that its queues update through the callback.\<close>

record block_counts =
  totalBlocksCount :: i64
  readyBlocksCount :: i64

type_synonym queue_state = "issuer_queue \<times> block_counts"

datatype queue_error =
    PanicIssuerMismatch account_id account_id
  | PanicEmptyQueue
  | PanicNoHeapElement

section \<open>Operations\<close>

definition NewIssuerQueue :: "account_id \<Rightarrow> issuer_queue" where
  "NewIssuerQueue issuerID =
     \<lparr>iq_issuerID = issuerID, nonReadyMap = Map.empty, readyHeap = [], iq_size = 0, iq_work = 0\<rparr>"

definition sizeChangedFunc :: "i64 \<Rightarrow> i64 \<Rightarrow> i64 \<Rightarrow> queue_state \<Rightarrow> queue_state" where
  "sizeChangedFunc totalSizeDelta readySizeDelta workDelta = (\<lambda>(q, c).
     let q = (if totalSizeDelta \<noteq> 0 then q\<lparr>iq_size := iq_size q + totalSizeDelta\<rparr> else q);
         q = (if workDelta \<noteq> 0 then q\<lparr>iq_work := iq_work q + workDelta\<rparr> else q);
         c = (if totalSizeDelta \<noteq> 0 then c\<lparr>totalBlocksCount := totalBlocksCount c + totalSizeDelta\<rparr> else c);
         c = (if readySizeDelta \<noteq> 0 then c\<lparr>readyBlocksCount := readyBlocksCount c + readySizeDelta\<rparr> else c)
     in (q, c))"

definition IssuerQueue_Size :: "issuer_queue \<Rightarrow> int" where
  "IssuerQueue_Size q = sint (iq_size q)"

definition IssuerQueue_Work :: "issuer_queue \<Rightarrow> work_score" where
  "IssuerQueue_Work q = ucast (iq_work q)"

definition IssuerQueue_Submit :: "block \<Rightarrow> queue_state \<Rightarrow> queue_error + (queue_state \<times> bool)" where
  "IssuerQueue_Submit element = (\<lambda>(q, c).
     if iq_issuerID q \<noteq> blk_IssuerID element then Inl (PanicIssuerMismatch (iq_issuerID q) (blk_IssuerID element))
     else if nonReadyMap q (blk_ID element) \<noteq> None then Inr ((q, c), False)
     else Inr (sizeChangedFunc 1 0 (ucast (blk_WorkScore element))
                 (q\<lparr>nonReadyMap := (nonReadyMap q)(blk_ID element \<mapsto> element)\<rparr>, c), True))"

definition unsubmit :: "block \<Rightarrow> queue_state \<Rightarrow> queue_state \<times> bool" where
  "unsubmit blk = (\<lambda>(q, c).
     if nonReadyMap q (blk_ID blk) = None then ((q, c), False)
     else (sizeChangedFunc (- 1) 0 (- ucast (blk_WorkScore blk))
             (q\<lparr>nonReadyMap := (nonReadyMap q)(blk_ID blk := None)\<rparr>, c), True))"

definition IssuerQueue_Ready :: "queue_env \<Rightarrow> block \<Rightarrow> queue_state \<Rightarrow> queue_state \<times> bool" where
  "IssuerQueue_Ready E blk = (\<lambda>(q, c).
     if nonReadyMap q (blk_ID blk) = None then ((q, c), False)
     else (sizeChangedFunc 0 1 0
             (q\<lparr>nonReadyMap := (nonReadyMap q)(blk_ID blk := None),
                readyHeap := heap_Push (blockLess E) blk (readyHeap q)\<rparr>, c), True))"

definition IssuerQueue_IDs :: "queue_env \<Rightarrow> issuer_queue \<Rightarrow> block_id list" where
  "IssuerQueue_IDs E q = iterNonReady E (dom (nonReadyMap q)) @ map blk_ID (readyHeap q)"

definition IssuerQueue_Clear :: "queue_state \<Rightarrow> queue_state" where
  "IssuerQueue_Clear = (\<lambda>(q, c).
     let readyBlocks = word_of_nat (length (readyHeap q));
         q = q\<lparr>nonReadyMap := Map.empty, readyHeap := []\<rparr>
     in sizeChangedFunc (- iq_size q) (- readyBlocks) (- ucast (IssuerQueue_Work q)) (q, c))"

definition Front :: "issuer_queue \<Rightarrow> block option" where
  "Front q = (if readyHeap q = [] then None else Some (readyHeap q ! 0))"

definition IssuerQueue_PopFront :: "queue_env \<Rightarrow> queue_state \<Rightarrow> queue_state \<times> block option" where
  "IssuerQueue_PopFront E = (\<lambda>(q, c).
     if readyHeap q = [] then ((q, c), None)
     else let (blk, h) = heap_Pop (blockLess E) (readyHeap q)
          in (sizeChangedFunc (- 1) (- 1) (- ucast (blk_WorkScore blk)) (q\<lparr>readyHeap := h\<rparr>, c), Some blk))"

definition oldestNonReadyBlock :: "queue_env \<Rightarrow> issuer_queue \<Rightarrow> block option" where
  "oldestNonReadyBlock E q =
     fold (\<lambda>i oldest.
             case nonReadyMap q i of
               None \<Rightarrow> oldest
             | Some blk \<Rightarrow>
                 (case oldest of
                    None \<Rightarrow> Some blk
                  | Some old \<Rightarrow> if blk_IssuingTime old > blk_IssuingTime blk then Some blk else oldest))
       (iterNonReady E (dom (nonReadyMap q))) None"

definition heapTail :: "queue_env \<Rightarrow> issuer_queue \<Rightarrow> nat option" where
  "heapTail E q =
     (let h = readyHeap q
      in if length h = 0 then None
         else Some (fold (\<lambda>i tail. if \<not> blockLess E (h ! i) (h ! tail) then i else tail) [0..<length h] 0))"

definition RemoveTail :: "queue_env \<Rightarrow> queue_state \<Rightarrow> queue_error + (queue_state \<times> block)" where
  "RemoveTail E = (\<lambda>(q, c).
     let oldest = oldestNonReadyBlock E q;
         tail = heapTail E q;
         older = (\<lambda>blk. case tail of
                          None \<Rightarrow> True
                        | Some t \<Rightarrow> keyCompareTo E (blk_IssuingTime (readyHeap q ! t)) (blk_IssuingTime blk) > 0);
         dropReady =
           (case tail of
              None \<Rightarrow> Inl PanicNoHeapElement
            | Some t \<Rightarrow>
                let (blk, h) = heap_Remove (blockLess E) t (readyHeap q)
                in Inr (sizeChangedFunc (- 1) (- 1) (- ucast (blk_WorkScore blk)) (q\<lparr>readyHeap := h\<rparr>, c), blk))
     in case oldest of
          Some blk \<Rightarrow>
            if older blk then
              (let (s, done) = unsubmit blk (q, c) in if done then Inr (s, blk) else dropReady)
            else dropReady
        | None \<Rightarrow> if tail = None then Inl PanicEmptyQueue else dropReady)"

section \<open>The invariant\<close>

definition issuedBefore :: "block \<Rightarrow> block \<Rightarrow> bool" where
  "issuedBefore a b \<longleftrightarrow> blk_IssuingTime a < blk_IssuingTime b"

interpretation issuing: heap_order issuedBefore blk_IssuingTime
  by unfold_locales (simp add: issuedBefore_def)

lemma blockLess_eq: "queue_env_ok E \<Longrightarrow> blockLess E = issuedBefore"
  by (intro ext) (simp add: queue_env_ok_def blockLess_def issuedBefore_def)

text \<open>The blocks of a queue, and their work.\<close>

definition queue_blocks :: "issuer_queue \<Rightarrow> block multiset" where
  "queue_blocks q = mset_set (ran (nonReadyMap q)) + mset (readyHeap q)"

definition work_of :: "block multiset \<Rightarrow> i64" where
  "work_of M = (\<Sum>b\<in>#M. ucast (blk_WorkScore b))"

definition queue_ok :: "issuer_queue \<Rightarrow> bool" where
  "queue_ok q \<longleftrightarrow> finite (dom (nonReadyMap q)) \<and>
     (\<forall>i b. nonReadyMap q i = Some b \<longrightarrow> blk_ID b = i) \<and>
     (\<forall>b\<in>#queue_blocks q. blk_IssuerID b = iq_issuerID q) \<and>
     issuing.is_heap (length (readyHeap q)) (readyHeap q) \<and>
     iq_size q = word_of_nat (size (queue_blocks q)) \<and> iq_work q = work_of (queue_blocks q)"

lemma sizeChangedFunc_eq:
  "sizeChangedFunc t r w (q, c) =
     (q\<lparr>iq_size := iq_size q + t, iq_work := iq_work q + w\<rparr>,
      c\<lparr>totalBlocksCount := totalBlocksCount c + t, readyBlocksCount := readyBlocksCount c + r\<rparr>)"
  by (simp add: sizeChangedFunc_def Let_def)

lemma work_of_simps [simp]:
  "work_of {#} = 0" "work_of (add_mset b M) = ucast (blk_WorkScore b) + work_of M" "work_of (M + N) = work_of M + work_of N"
  by (simp_all add: work_of_def)

text \<open>Putting a block into the map of the blocks that are not ready, and taking it out again.\<close>

lemma blocks_insert:
  assumes "finite (dom m)" "\<forall>i b. m i = Some b \<longrightarrow> blk_ID b = i" "m (blk_ID b) = None"
  shows "mset_set (ran (m(blk_ID b \<mapsto> b))) = add_mset b (mset_set (ran m))"
proof -
  have "b \<notin> ran m" using assms(2,3) by (auto simp: ran_def)
  moreover have "ran (m(blk_ID b \<mapsto> b)) = insert b (ran m)" using assms(3) by simp
  ultimately show ?thesis using finite_ran [OF assms(1)] by simp
qed

lemma blocks_delete:
  assumes "finite (dom m)" "\<forall>i b. m i = Some b \<longrightarrow> blk_ID b = i" "m i = Some b"
  shows "mset_set (ran m) = add_mset b (mset_set (ran (m(i := None))))"
proof -
  have i: "blk_ID b = i" using assms by blast
  have "m = (m(i := None))(i \<mapsto> b)" using assms(3) by (intro ext) simp
  then show ?thesis using blocks_insert [of "m(i := None)" b] assms(1,2) i by (metis fun_upd_apply dom_fun_upd finite_Diff option.distinct(1))
qed

text \<open>
  What an operation does to a queue: blocks \<open>A\<close> come in, blocks \<open>R\<close> go out, and the counters of the queue
  and of the buffer follow.
\<close>

definition counts_follow :: "queue_state \<Rightarrow> queue_state \<Rightarrow> bool" where
  "counts_follow s s' \<longleftrightarrow>
     totalBlocksCount (snd s') - totalBlocksCount (snd s) = word_of_nat (size (queue_blocks (fst s'))) - word_of_nat (size (queue_blocks (fst s))) \<and>
     readyBlocksCount (snd s') - readyBlocksCount (snd s) = word_of_nat (length (readyHeap (fst s'))) - word_of_nat (length (readyHeap (fst s))) \<and>
     iq_issuerID (fst s') = iq_issuerID (fst s)"

lemma queue_ok_map:
  assumes "queue_ok q"
  shows "finite (dom (nonReadyMap q))" "\<forall>i b. nonReadyMap q i = Some b \<longrightarrow> blk_ID b = i"
  using assms by (auto simp: queue_ok_def)

lemma NewIssuerQueue_ok [simp]: "queue_ok (NewIssuerQueue i)" "queue_blocks (NewIssuerQueue i) = {#}"
  by (simp_all add: queue_ok_def NewIssuerQueue_def queue_blocks_def issuing.is_heap_def)

text \<open>The counters follow when the deltas are those of the blocks.\<close>

lemma sizeChanged_ok:
  assumes "queue_ok q"
    and same: "iq_issuerID q' = iq_issuerID q" "iq_size q' = iq_size q" "iq_work q' = iq_work q"
    and map: "finite (dom (nonReadyMap q'))" "\<forall>i b. nonReadyMap q' i = Some b \<longrightarrow> blk_ID b = i"
    and heap: "issuing.is_heap (length (readyHeap q')) (readyHeap q')"
    and blocks: "\<forall>b\<in>#queue_blocks q'. blk_IssuerID b = iq_issuerID q"
    and deltas: "word_of_nat (size (queue_blocks q')) = word_of_nat (size (queue_blocks q)) + t"
      "work_of (queue_blocks q') = work_of (queue_blocks q) + w"
      "word_of_nat (length (readyHeap q')) = word_of_nat (length (readyHeap q)) + r"
    and s: "s = sizeChangedFunc t r w (q', c)"
  shows "queue_ok (fst s)" "counts_follow (q, c) s" "queue_blocks (fst s) = queue_blocks q'"
    "nonReadyMap (fst s) = nonReadyMap q'" "readyHeap (fst s) = readyHeap q'"
proof -
  show m: "nonReadyMap (fst s) = nonReadyMap q'" "readyHeap (fst s) = readyHeap q'"
    by (simp_all add: s sizeChangedFunc_eq)
  then show B: "queue_blocks (fst s) = queue_blocks q'" by (simp add: queue_blocks_def)
  have i: "iq_issuerID (fst s) = iq_issuerID q" "iq_size (fst s) = iq_size q + t" "iq_work (fst s) = iq_work q + w"
    "totalBlocksCount (snd s) = totalBlocksCount c + t" "readyBlocksCount (snd s) = readyBlocksCount c + r"
    using same by (simp_all add: s sizeChangedFunc_eq)
  have "iq_size q = word_of_nat (size (queue_blocks q))" "iq_work q = work_of (queue_blocks q)"
    using assms(1) by (simp_all add: queue_ok_def)
  then show "queue_ok (fst s)"
    unfolding queue_ok_def B m i deltas(1,2) using map heap blocks by simp
  show "counts_follow (q, c) s" unfolding counts_follow_def fst_conv snd_conv B m i deltas by simp
qed

lemma Submit_ok:
  assumes "queue_ok q" "IssuerQueue_Submit b (q, c) = Inr (s, True)"
  shows "queue_ok (fst s)" "counts_follow (q, c) s" "queue_blocks (fst s) = add_mset b (queue_blocks q)"
    "nonReadyMap (fst s) = (nonReadyMap q)(blk_ID b \<mapsto> b)" "readyHeap (fst s) = readyHeap q"
proof -
  let ?q = "q\<lparr>nonReadyMap := (nonReadyMap q)(blk_ID b \<mapsto> b)\<rparr>"
  have g: "iq_issuerID q = blk_IssuerID b" "nonReadyMap q (blk_ID b) = None"
    and s: "s = sizeChangedFunc 1 0 (ucast (blk_WorkScore b)) (?q, c)"
    using assms(2) by (auto simp: IssuerQueue_Submit_def split: if_splits)
  have B: "queue_blocks ?q = add_mset b (queue_blocks q)"
    using blocks_insert [OF queue_ok_map [OF assms(1)] g(2)] by (simp add: queue_blocks_def)
  note r = sizeChanged_ok [OF assms(1) _ _ _ _ _ _ _ _ _ _ s]
  have "queue_ok (fst s) \<and> counts_follow (q, c) s \<and> queue_blocks (fst s) = queue_blocks ?q \<and>
    nonReadyMap (fst s) = nonReadyMap ?q \<and> readyHeap (fst s) = readyHeap ?q"
    by (intro conjI r; (unfold B)?) (use assms(1) g in \<open>auto simp: queue_ok_def\<close>)
  then show "queue_ok (fst s)" "counts_follow (q, c) s" "queue_blocks (fst s) = add_mset b (queue_blocks q)"
    "nonReadyMap (fst s) = (nonReadyMap q)(blk_ID b \<mapsto> b)" "readyHeap (fst s) = readyHeap q"
    by (simp_all add: B)
qed

lemma unsubmit_ok:
  assumes "queue_ok q" "nonReadyMap q (blk_ID b) = Some b"
  shows "\<exists>s. unsubmit b (q, c) = (s, True) \<and> queue_ok (fst s) \<and> counts_follow (q, c) s \<and>
    queue_blocks q = add_mset b (queue_blocks (fst s)) \<and> nonReadyMap (fst s) = (nonReadyMap q)(blk_ID b := None) \<and>
    readyHeap (fst s) = readyHeap q"
proof -
  let ?q = "q\<lparr>nonReadyMap := (nonReadyMap q)(blk_ID b := None)\<rparr>"
  define s where "s = sizeChangedFunc (- 1) 0 (- ucast (blk_WorkScore b)) (?q, c)"
  have B: "queue_blocks q = add_mset b (queue_blocks ?q)"
    unfolding queue_blocks_def using blocks_delete [OF queue_ok_map [OF assms(1)] assms(2)] by (simp)
  note r = sizeChanged_ok [OF assms(1) _ _ _ _ _ _ _ _ _ _ s_def]
  have "queue_ok (fst s) \<and> counts_follow (q, c) s \<and> queue_blocks (fst s) = queue_blocks ?q \<and>
    nonReadyMap (fst s) = nonReadyMap ?q \<and> readyHeap (fst s) = readyHeap ?q"
    by (intro conjI r; (unfold B)?) (use assms(1) B in \<open>auto simp: queue_ok_def\<close>)
  moreover have "unsubmit b (q, c) = (s, True)" using assms(2) by (simp add: unsubmit_def s_def)
  ultimately show ?thesis using B by simp
qed

lemma Ready_ok:
  assumes "queue_env_ok E" "queue_ok q" "nonReadyMap q (blk_ID b) = Some b"
  shows "\<exists>s. IssuerQueue_Ready E b (q, c) = (s, True) \<and> queue_ok (fst s) \<and> counts_follow (q, c) s \<and>
    queue_blocks (fst s) = queue_blocks q \<and> nonReadyMap (fst s) = (nonReadyMap q)(blk_ID b := None) \<and>
    mset (readyHeap (fst s)) = add_mset b (mset (readyHeap q))"
proof -
  let ?q = "q\<lparr>nonReadyMap := (nonReadyMap q)(blk_ID b := None), readyHeap := heap_Push issuedBefore b (readyHeap q)\<rparr>"
  define s where "s = sizeChangedFunc 0 1 0 (?q, c)"
  have h: "issuing.is_heap (length (readyHeap q)) (readyHeap q)" using assms(2) by (simp add: queue_ok_def)
  note push = issuing.heap_Push_ok [OF h, of b]
  have B: "queue_blocks ?q = queue_blocks q"
    unfolding queue_blocks_def using blocks_delete [OF queue_ok_map [OF assms(2)] assms(3)] push(2) by simp
  have len: "length (heap_Push issuedBefore b (readyHeap q)) = Suc (length (readyHeap q))" using push(2) by (metis size_mset size_add_mset)
  note r = sizeChanged_ok [OF assms(2) _ _ _ _ _ _ _ _ _ _ s_def]
  have "queue_ok (fst s) \<and> counts_follow (q, c) s \<and> queue_blocks (fst s) = queue_blocks ?q \<and>
    nonReadyMap (fst s) = nonReadyMap ?q \<and> readyHeap (fst s) = readyHeap ?q"
    by (intro conjI r; (unfold B)?) (use assms(2) push len in \<open>auto simp: queue_ok_def\<close>)
  moreover have "IssuerQueue_Ready E b (q, c) = (s, True)"
    using assms(1,3) by (simp add: IssuerQueue_Ready_def s_def blockLess_eq)
  ultimately show ?thesis using B push(2) by simp
qed

lemma take_ready_ok:
  assumes "queue_ok q" "mset (readyHeap q) = add_mset b (mset h)" "issuing.is_heap (length h) h"
    and s_def: "s = sizeChangedFunc (- 1) (- 1) (- ucast (blk_WorkScore b)) (q\<lparr>readyHeap := h\<rparr>, c)"
  shows "queue_ok (fst s)" "counts_follow (q, c) s" "queue_blocks q = add_mset b (queue_blocks (fst s))"
    "nonReadyMap (fst s) = nonReadyMap q" "readyHeap (fst s) = h"
proof -
  let ?q = "q\<lparr>readyHeap := h\<rparr>"
  have B: "queue_blocks q = add_mset b (queue_blocks ?q)" using assms(2) by (simp add: queue_blocks_def)
  have len: "length (readyHeap q) = Suc (length h)" using assms(2) by (metis size_mset size_add_mset)
  note r = sizeChanged_ok [OF assms(1) _ _ _ _ _ _ _ _ _ _ s_def]
  have "queue_ok (fst s) \<and> counts_follow (q, c) s \<and> queue_blocks (fst s) = queue_blocks ?q \<and>
    nonReadyMap (fst s) = nonReadyMap ?q \<and> readyHeap (fst s) = readyHeap ?q"
    by (intro conjI r; (unfold B)?) (use assms(1,3) B len in \<open>auto simp: queue_ok_def\<close>)
  then show "queue_ok (fst s)" "counts_follow (q, c) s" "queue_blocks q = add_mset b (queue_blocks (fst s))"
    "nonReadyMap (fst s) = nonReadyMap q" "readyHeap (fst s) = h"
    using B by simp_all
qed

lemma PopFront_ok:
  assumes "queue_env_ok E" "queue_ok q" "readyHeap q \<noteq> []"
  shows "\<exists>s b. IssuerQueue_PopFront E (q, c) = (s, Some b) \<and> Front q = Some b \<and> queue_ok (fst s) \<and> counts_follow (q, c) s \<and>
    queue_blocks q = add_mset b (queue_blocks (fst s)) \<and> nonReadyMap (fst s) = nonReadyMap q \<and>
    mset (readyHeap q) = add_mset b (mset (readyHeap (fst s))) \<and> (\<forall>x\<in>set (readyHeap q). blk_IssuingTime b \<le> blk_IssuingTime x)"
proof -
  obtain b h where p: "heap_Pop issuedBefore (readyHeap q) = (b, h)" by force
  have "issuing.is_heap (length (readyHeap q)) (readyHeap q)" using assms(2) by (simp add: queue_ok_def)
  note pop = issuing.heap_Pop_ok [OF this assms(3) p]
  note t = take_ready_ok [OF assms(2) pop(2,3) refl, of c]
  show ?thesis
    using t pop(1,2,4) assms(1,3) p by (auto simp: IssuerQueue_PopFront_def blockLess_eq Front_def)
qed

lemma Clear_ok:
  assumes "queue_ok q"
  shows "queue_blocks (fst (IssuerQueue_Clear (q, c))) = {#}" "counts_follow (q, c) (IssuerQueue_Clear (q, c))"
    "iq_size (fst (IssuerQueue_Clear (q, c))) = 0"
  using assms by (simp_all add: IssuerQueue_Clear_def Let_def sizeChangedFunc_eq queue_blocks_def counts_follow_def queue_ok_def)

lemma oldest_fold:
  fixes m :: "'i \<rightharpoonup> block"
  defines "keep \<equiv> \<lambda>i oldest. case m i of None \<Rightarrow> oldest
     | Some blk \<Rightarrow> (case oldest of None \<Rightarrow> Some blk
         | Some old \<Rightarrow> if blk_IssuingTime old > blk_IssuingTime blk then Some blk else oldest)"
  shows "case fold keep ks acc of
      None \<Rightarrow> acc = None \<and> (\<forall>k\<in>set ks. m k = None)
    | Some b \<Rightarrow> (acc = Some b \<or> (\<exists>k\<in>set ks. m k = Some b)) \<and>
        (\<forall>a. acc = Some a \<longrightarrow> blk_IssuingTime b \<le> blk_IssuingTime a) \<and>
        (\<forall>k\<in>set ks. \<forall>a. m k = Some a \<longrightarrow> blk_IssuingTime b \<le> blk_IssuingTime a)"
proof (induction ks arbitrary: acc)
  case Nil
  then show ?case by (cases acc) auto
next
  case (Cons k ks)
  from Cons [of "keep k acc"] show ?case
    by (cases acc; cases "m k") (fastforce simp: keep_def split: option.splits if_splits)+
qed

lemma oldestNonReadyBlock_ok:
  assumes "queue_env_ok E" "queue_ok q"
  shows "case oldestNonReadyBlock E q of
      None \<Rightarrow> ran (nonReadyMap q) = {}
    | Some b \<Rightarrow> nonReadyMap q (blk_ID b) = Some b \<and> (\<forall>x\<in>ran (nonReadyMap q). blk_IssuingTime b \<le> blk_IssuingTime x)"
proof -
  have d: "set (iterNonReady E (dom (nonReadyMap q))) = dom (nonReadyMap q)"
    using assms by (simp add: queue_env_ok_def queue_ok_def)
  show ?thesis
    using oldest_fold [where m = "nonReadyMap q" and ks = "iterNonReady E (dom (nonReadyMap q))" and acc = None] queue_ok_map(2) [OF assms(2)]
    unfolding d oldestNonReadyBlock_def [symmetric]
    by (cases "oldestNonReadyBlock E q") (auto simp: ran_def dom_def)
qed

lemma tail_fold:
  fixes h :: "block list"
  defines "step \<equiv> \<lambda>i tail. if \<not> issuedBefore (h ! i) (h ! tail) then i else tail"
  shows "fold step ks t \<in> insert t (set ks) \<and>
    (\<forall>i\<in>insert t (set ks). blk_IssuingTime (h ! i) \<le> blk_IssuingTime (h ! fold step ks t))"
proof (induction ks arbitrary: t)
  case (Cons i ks)
  from Cons [of "step i t"] show ?case
    by (auto simp: step_def issuedBefore_def split: if_splits)
qed simp

lemma heapTail_ok:
  assumes "queue_env_ok E"
  shows "case heapTail E q of
      None \<Rightarrow> readyHeap q = []
    | Some t \<Rightarrow> t < length (readyHeap q) \<and> (\<forall>x\<in>set (readyHeap q). blk_IssuingTime x \<le> blk_IssuingTime (readyHeap q ! t))"
proof (cases "readyHeap q = []")
  case False
  then have "0 < length (readyHeap q)" by simp
  then show ?thesis
    using tail_fold [where h = "readyHeap q" and ks = "[0..<length (readyHeap q)]" and t = 0] False assms
    by (auto simp: heapTail_def blockLess_eq Let_def in_set_conv_nth)
qed (simp add: heapTail_def)

lemma RemoveTail_ok:
  assumes "queue_env_ok E" "queue_ok q" "queue_blocks q \<noteq> {#}"
  shows "\<exists>s b. RemoveTail E (q, c) = Inr (s, b) \<and> queue_ok (fst s) \<and> counts_follow (q, c) s \<and>
    queue_blocks q = add_mset b (queue_blocks (fst s)) \<and>
    (b \<in> ran (nonReadyMap q) \<and> (\<forall>x\<in>ran (nonReadyMap q). blk_IssuingTime b \<le> blk_IssuingTime x) \<and>
       (readyHeap q \<noteq> [] \<longrightarrow> (\<exists>y\<in>set (readyHeap q). blk_IssuingTime b < blk_IssuingTime y)) \<or>
     b \<in> set (readyHeap q) \<and> (\<forall>y\<in>set (readyHeap q). blk_IssuingTime y \<le> blk_IssuingTime b) \<and>
       (\<forall>x\<in>ran (nonReadyMap q). blk_IssuingTime b \<le> blk_IssuingTime x))"
proof -
  note o = oldestNonReadyBlock_ok [OF assms(1,2)] and t = heapTail_ok [OF assms(1), of q]
  have heap: "issuing.is_heap (length (readyHeap q)) (readyHeap q)" using assms(2) by (simp add: queue_ok_def)
  show ?thesis
  proof (cases "\<exists>b. oldestNonReadyBlock E q = Some b \<and> (\<forall>t. heapTail E q = Some t \<longrightarrow>
      blk_IssuingTime b < blk_IssuingTime (readyHeap q ! t))")
    case True
    then obtain b where b: "oldestNonReadyBlock E q = Some b"
      "\<forall>t. heapTail E q = Some t \<longrightarrow> blk_IssuingTime b < blk_IssuingTime (readyHeap q ! t)" by blast
    have m: "nonReadyMap q (blk_ID b) = Some b" using o b(1) by simp
    obtain s where s: "unsubmit b (q, c) = (s, True)" "queue_ok (fst s)" "counts_follow (q, c) s"
      "queue_blocks q = add_mset b (queue_blocks (fst s))" using unsubmit_ok [OF assms(2) m, of c] by blast
    have "RemoveTail E (q, c) = Inr (s, b)"
      using b s(1) assms(1) by (auto simp: RemoveTail_def queue_env_ok_def Let_def split: option.splits)
    moreover have "\<exists>y\<in>set (readyHeap q). blk_IssuingTime b < blk_IssuingTime y" if "readyHeap q \<noteq> []"
      using t b(2) that by (auto split: option.splits)
    ultimately show ?thesis using s(2-4) o b(1) m by (auto simp: ran_def)
  next
    case False
    then obtain t' where t': "heapTail E q = Some t'"
      using o t assms(3) by (auto simp: queue_blocks_def split: option.splits)
    obtain b h where p: "heap_Remove issuedBefore t' (readyHeap q) = (b, h)" by force
    have l: "t' < length (readyHeap q)" using t t' by simp
    note rem = issuing.heap_Remove_ok [OF heap l p]
    note k = take_ready_ok [OF assms(2) rem(2,3) refl, of c]
    define s where "s = sizeChangedFunc (- 1) (- 1) (- ucast (blk_WorkScore b)) (q\<lparr>readyHeap := h\<rparr>, c)"
    have "RemoveTail E (q, c) = Inr (s, b)"
      using False t' p assms(1)
      by (auto simp: RemoveTail_def s_def queue_env_ok_def blockLess_eq Let_def split: option.splits)
    moreover have "\<forall>x\<in>ran (nonReadyMap q). blk_IssuingTime b \<le> blk_IssuingTime x"
      using False o t' rem(1) by (fastforce split: option.splits)
    ultimately show ?thesis using k t t' rem(1) l s_def by auto
  qed
qed

section \<open>Properties\<close>

text \<open>Popping up to \<open>n\<close> blocks from the front.\<close>

fun popBlocks :: "queue_env \<Rightarrow> nat \<Rightarrow> queue_state \<Rightarrow> queue_state \<times> block list" where
  "popBlocks E 0 s = (s, [])"
| "popBlocks E (Suc n) s =
     (case IssuerQueue_PopFront E s of
        (s, None) \<Rightarrow> (s, [])
      | (s, Some b) \<Rightarrow> let (s, bs) = popBlocks E n s in (s, b # bs))"

lemma diff_chain:
  fixes a b c u v w :: i64
  assumes "b - a = v - u" "c - b = w - v"
  shows "c - a = w - u"
proof -
  have "c - a = (c - b) + (b - a)" by simp
  then show ?thesis unfolding assms by simp
qed

lemma counts_follow_trans: "counts_follow s t \<Longrightarrow> counts_follow t u \<Longrightarrow> counts_follow s u"
  unfolding counts_follow_def by (elim conjE, intro conjI) (erule (1) diff_chain, erule (1) diff_chain, simp only:)

lemma counts_follow_refl: "counts_follow s s"
  by (simp add: counts_follow_def)

text \<open>
  C27. Popping the front of a queue until no block is ready returns all ready blocks, ordered by
  issuing time, and keeps the blocks that are not ready; the counters of the queue and of the buffer
  follow the blocks.
\<close>

theorem PopFront_issuing_order:
  assumes "queue_env_ok E" "queue_ok q" "popBlocks E (length (readyHeap q)) (q, c) = (s, bs)"
  shows "mset bs = mset (readyHeap q) \<and> sorted (map blk_IssuingTime bs) \<and> readyHeap (fst s) = [] \<and>
    nonReadyMap (fst s) = nonReadyMap q \<and> queue_ok (fst s) \<and> counts_follow (q, c) s"
  using assms(2,3)
proof (induction "length (readyHeap q)" arbitrary: q c bs s)
  case 0
  then have "readyHeap q = []" "s = (q, c)" "bs = []" by auto
  then show ?case using 0 counts_follow_refl by simp
next
  case (Suc n)
  then have "readyHeap q \<noteq> []" by auto
  from PopFront_ok [OF assms(1) Suc(3) this, of c]
  obtain q' c' b where p: "IssuerQueue_PopFront E (q, c) = ((q', c'), Some b)" "queue_ok q'" "counts_follow (q, c) (q', c')"
    "nonReadyMap q' = nonReadyMap q" "mset (readyHeap q) = add_mset b (mset (readyHeap q'))"
    "\<forall>x\<in>set (readyHeap q). blk_IssuingTime b \<le> blk_IssuingTime x" by (metis fst_conv surj_pair)
  have n: "n = length (readyHeap q')" using p(5) Suc(2) by (metis size_mset size_add_mset Suc_inject)
  obtain bs' where bs: "popBlocks E n (q', c') = (s, bs')" "bs = b # bs'"
    using Suc(4) p(1) unfolding Suc(2) [symmetric] by (auto split: prod.splits)
  from Suc(1) [OF n p(2) bs(1) [unfolded n]]
  have r: "mset bs' = mset (readyHeap q')" "sorted (map blk_IssuingTime bs')" "readyHeap (fst s) = []"
    "nonReadyMap (fst s) = nonReadyMap q'" "queue_ok (fst s)" "counts_follow (q', c') s" by blast+
  have "set bs' \<subseteq> set (readyHeap q)" using r(1) p(5) by (metis set_mset_mset set_mset_add_mset_insert subset_insertI)
  then show ?case using r p(4-6) bs(2) counts_follow_trans [OF p(3) r(6)] by auto
qed

definition std_queue_env :: queue_env where
  "std_queue_env = \<lparr>keyLess = (<), keyCompareTo = (\<lambda>a b. a - b), iterNonReady = sorted_list_of_set\<rparr>"

lemma std_queue_env_ok [simp]: "queue_env_ok std_queue_env"
  by (simp add: queue_env_ok_def std_queue_env_def enumerates_sorted_list)

definition queue_block :: "nat \<Rightarrow> account_id \<Rightarrow> int \<Rightarrow> work_score \<Rightarrow> block" where
  "queue_block n issuer time work =
     \<lparr>blk_ID = \<lparr>bid_hash = n, bid_slot = 1\<rparr>, blk_IssuerID = issuer, blk_IssuingTime = time,
      blk_WorkScore = work, blk_body = BasicBlock\<rparr>"

text \<open>Three blocks of one issuer, two of them ready.\<close>

definition demo_queue :: issuer_queue where
  "demo_queue =
     \<lparr>iq_issuerID = 7, nonReadyMap = [\<lparr>bid_hash = 3, bid_slot = 1\<rparr> \<mapsto> queue_block 3 7 30 5],
      readyHeap = [queue_block 1 7 10 1, queue_block 2 7 20 2], iq_size = 3, iq_work = 8\<rparr>"

lemma demo_queue_blocks: "queue_blocks demo_queue = {#queue_block 3 7 30 5, queue_block 1 7 10 1, queue_block 2 7 20 2#}"
  by (simp add: queue_blocks_def demo_queue_def)

lemma demo_queue_ok [simp]: "queue_ok demo_queue"
proof -
  have "issuing.is_heap 2 [queue_block 1 7 10 1, queue_block 2 7 20 2]"
    unfolding issuing.is_heap_def
  proof (intro allI impI)
    fix k :: nat assume "k < 2" "0 < k"
    then have "k = 1" by simp
    then show "issuing.parent_le [queue_block 1 7 10 1, queue_block 2 7 20 2] k"
      by (simp add: issuing.parent_le_def queue_block_def)
  qed
  then have "issuing.is_heap (length (readyHeap demo_queue)) (readyHeap demo_queue)"
    by (simp add: demo_queue_def numeral_2_eq_2)
  moreover have "work_of (queue_blocks demo_queue) = iq_work demo_queue"
    unfolding demo_queue_blocks by (simp add: demo_queue_def queue_block_def)
  moreover have "\<forall>b\<in>#queue_blocks demo_queue. blk_IssuerID b = iq_issuerID demo_queue"
    "iq_size demo_queue = word_of_nat (size (queue_blocks demo_queue))"
    unfolding demo_queue_blocks by (simp_all add: demo_queue_def queue_block_def)
  moreover have "finite (dom (nonReadyMap demo_queue))" "\<forall>i b. nonReadyMap demo_queue i = Some b \<longrightarrow> blk_ID b = i"
    by (simp_all add: demo_queue_def queue_block_def)
  ultimately show ?thesis unfolding queue_ok_def by simp
qed

theorem PopFront_issuing_order_witness:
  "\<exists>s bs. popBlocks std_queue_env 2 (demo_queue, \<lparr>totalBlocksCount = 3, readyBlocksCount = 2\<rparr>) = (s, bs) \<and>
     mset bs = {#queue_block 1 7 10 1, queue_block 2 7 20 2#} \<and> sorted (map blk_IssuingTime bs)"
proof -
  obtain s bs where r: "popBlocks std_queue_env 2 (demo_queue, \<lparr>totalBlocksCount = 3, readyBlocksCount = 2\<rparr>) = (s, bs)" by (metis surj_pair)
  have h: "readyHeap demo_queue = [queue_block 1 7 10 1, queue_block 2 7 20 2]" by (simp add: demo_queue_def)
  from PopFront_issuing_order [OF std_queue_env_ok demo_queue_ok, of "\<lparr>totalBlocksCount = 3, readyBlocksCount = 2\<rparr>" s bs]
  have "mset bs = mset (readyHeap demo_queue) \<and> sorted (map blk_IssuingTime bs)" using r by (simp add: h numeral_2_eq_2)
  then show ?thesis using r h by simp
qed

text \<open>
  C36. Removing the tail of a queue that holds a block succeeds and removes one block: the oldest
  block that is not ready, if some ready block is newer than it or none is ready; otherwise the
  newest of the ready blocks.
\<close>

theorem RemoveTail_removes_newest_ready:
  assumes "queue_env_ok E" "queue_ok q" "queue_blocks q \<noteq> {#}"
  shows "\<exists>s b. RemoveTail E (q, c) = Inr (s, b) \<and> queue_ok (fst s) \<and> counts_follow (q, c) s \<and>
    queue_blocks q = add_mset b (queue_blocks (fst s)) \<and>
    (b \<in> ran (nonReadyMap q) \<and> (\<forall>x\<in>ran (nonReadyMap q). blk_IssuingTime b \<le> blk_IssuingTime x) \<and>
       (readyHeap q \<noteq> [] \<longrightarrow> (\<exists>y\<in>set (readyHeap q). blk_IssuingTime b < blk_IssuingTime y)) \<or>
     b \<in> set (readyHeap q) \<and> (\<forall>y\<in>set (readyHeap q). blk_IssuingTime y \<le> blk_IssuingTime b) \<and>
       (\<forall>x\<in>ran (nonReadyMap q). blk_IssuingTime b \<le> blk_IssuingTime x))"
  using assms by (rule RemoveTail_ok)

text \<open>In the queue above the second ready block is dropped, although the first one is older.\<close>

theorem RemoveTail_removes_newest_ready_witness:
  "\<exists>s. RemoveTail std_queue_env (demo_queue, \<lparr>totalBlocksCount = 3, readyBlocksCount = 2\<rparr>) = Inr (s, queue_block 2 7 20 2)"
proof -
  have ne: "queue_blocks demo_queue \<noteq> {#}" by (simp add: demo_queue_def queue_blocks_def)
  have d: "set (readyHeap demo_queue) = {queue_block 1 7 10 1, queue_block 2 7 20 2}"
    "ran (nonReadyMap demo_queue) = {queue_block 3 7 30 5}" by (simp_all add: demo_queue_def)
  show ?thesis
    using RemoveTail_removes_newest_ready [OF std_queue_env_ok demo_queue_ok ne, of "\<lparr>totalBlocksCount = 3, readyBlocksCount = 2\<rparr>"]
    unfolding d by (auto simp: queue_block_def demo_queue_def)
qed

end
