(* ===== verification/BasicBuffer.thy ===== *)
theory BasicBuffer
  imports IssuerQueues Floats
begin

text \<open>
  The buffer of the basic blocks: \<^verbatim>\<open>scheduler/drr/basicbuffer.go\<close>, a ring of issuer queues.

  The elements of the ring are addresses, so that the ring and the map of active issuers can differ,
  as they do after some removals.  \<open>buffer_ok\<close> says that the counters are the sums over the active
  queues; \<open>ring_ok\<close> says that the ring holds exactly the active queues.
\<close>


section \<open>State\<close>

record basic_buffer =
  activeIssuers :: "account_id \<rightharpoonup> addr"
  bb_ring :: "addr option"
  bb_heap :: "issuer_queue ring_heap"
  bb_counts :: block_counts
  blockChan :: "block option"

datatype buffer_error =
    PanicIssuerQueueExists account_id
  | PanicNilRing
  | PanicNoLongestQueue
  | PanicLongestQueueMissing account_id
  | QueuePanic queue_error

definition NewBasicBuffer :: basic_buffer where
  "NewBasicBuffer =
     \<lparr>activeIssuers = Map.empty, bb_ring = None,
      bb_heap = \<lparr>rg_next = id, rg_prev = id, rg_value = (\<lambda>_. NewIssuerQueue 0), rg_fresh = 0\<rparr>,
      bb_counts = \<lparr>totalBlocksCount = 0, readyBlocksCount = 0\<rparr>, blockChan = None\<rparr>"

abbreviation queueAt :: "basic_buffer \<Rightarrow> addr \<Rightarrow> issuer_queue" where
  "queueAt b a \<equiv> rg_value (bb_heap b) a"

text \<open>The queue of a ring element after an operation, and the counters it has updated.\<close>

definition setQueue :: "addr \<Rightarrow> queue_state \<Rightarrow> basic_buffer \<Rightarrow> basic_buffer" where
  "setQueue a s b =
     b\<lparr>bb_heap := (bb_heap b)\<lparr>rg_value := (rg_value (bb_heap b))(a := fst s)\<rparr>, bb_counts := snd s\<rparr>"

section \<open>Operations\<close>

definition NumActiveIssuers :: "basic_buffer \<Rightarrow> nat" where
  "NumActiveIssuers b = card (dom (activeIssuers b))"

definition TotalBlocksCount :: "basic_buffer \<Rightarrow> int" where
  "TotalBlocksCount b = sint (totalBlocksCount (bb_counts b))"

definition ReadyBlocksCount :: "basic_buffer \<Rightarrow> int" where
  "ReadyBlocksCount b = sint (readyBlocksCount (bb_counts b))"

definition Buffer_IssuerQueue :: "basic_buffer \<Rightarrow> account_id \<Rightarrow> addr option" where
  "Buffer_IssuerQueue b issuerID = activeIssuers b issuerID"

definition IssuerQueueWork :: "basic_buffer \<Rightarrow> account_id \<Rightarrow> work_score" where
  "IssuerQueueWork b issuerID =
     (case Buffer_IssuerQueue b issuerID of None \<Rightarrow> 0 | Some a \<Rightarrow> IssuerQueue_Work (queueAt b a))"

definition IssuerQueueBlockCount :: "basic_buffer \<Rightarrow> account_id \<Rightarrow> int" where
  "IssuerQueueBlockCount b issuerID =
     (case Buffer_IssuerQueue b issuerID of None \<Rightarrow> 0 | Some a \<Rightarrow> IssuerQueue_Size (queueAt b a))"

definition CreateIssuerQueue :: "account_id \<Rightarrow> basic_buffer \<Rightarrow> buffer_error + (basic_buffer \<times> addr)" where
  "CreateIssuerQueue issuerID b =
     (if activeIssuers b issuerID \<noteq> None then Inl (PanicIssuerQueueExists issuerID)
      else let (p, ring, h) = ringInsert (NewIssuerQueue issuerID) (bb_ring b, bb_heap b)
           in Inr (b\<lparr>bb_ring := ring, bb_heap := h, activeIssuers := (activeIssuers b)(issuerID \<mapsto> p)\<rparr>, p))"

definition GetOrCreateIssuerQueue :: "account_id \<Rightarrow> basic_buffer \<Rightarrow> buffer_error + (basic_buffer \<times> addr)" where
  "GetOrCreateIssuerQueue issuerID b =
     (case activeIssuers b issuerID of None \<Rightarrow> CreateIssuerQueue issuerID b | Some a \<Rightarrow> Inr (b, a))"

definition removeElement :: "account_id \<Rightarrow> addr \<Rightarrow> basic_buffer \<Rightarrow> buffer_error + basic_buffer" where
  "removeElement issuerID element b =
     and_then (or_err PanicNilRing (ringRemove element (bb_ring b, bb_heap b))) (\<lambda>(ring, h).
       Inr (b\<lparr>bb_ring := ring, bb_heap := h, activeIssuers := (activeIssuers b)(issuerID := None)\<rparr>))"

definition RemoveIssuerQueue :: "account_id \<Rightarrow> basic_buffer \<Rightarrow> buffer_error + basic_buffer" where
  "RemoveIssuerQueue issuerID b =
     (case activeIssuers b issuerID of
        None \<Rightarrow> Inr b
      | Some element \<Rightarrow>
          removeElement issuerID element
            (setQueue element (IssuerQueue_Clear (queueAt b element, bb_counts b)) b))"

definition RemoveIssuerQueueIfEmpty :: "account_id \<Rightarrow> basic_buffer \<Rightarrow> buffer_error + basic_buffer" where
  "RemoveIssuerQueueIfEmpty issuerID b =
     (case activeIssuers b issuerID of
        None \<Rightarrow> Inr b
      | Some element \<Rightarrow>
          if IssuerQueue_Size (queueAt b element) = 0 then removeElement issuerID element b else Inr b)"

definition Buffer_Clear :: "(account_id set \<Rightarrow> account_id list) \<Rightarrow> basic_buffer \<Rightarrow> buffer_error + basic_buffer" where
  "Buffer_Clear iter b =
     range_loop RemoveIssuerQueue (iter (dom (activeIssuers b))) (b\<lparr>blockChan := None\<rparr>)"

definition Buffer_Ready :: "queue_env \<Rightarrow> block \<Rightarrow> basic_buffer \<Rightarrow> basic_buffer \<times> bool" where
  "Buffer_Ready E blk b =
     (case Buffer_IssuerQueue b (blk_IssuerID blk) of
        None \<Rightarrow> (b, False)
      | Some a \<Rightarrow> let (s, r) = IssuerQueue_Ready E blk (queueAt b a, bb_counts b) in (setQueue a s b, r))"

definition Buffer_Next :: "basic_buffer \<Rightarrow> basic_buffer \<times> addr option" where
  "Buffer_Next b =
     (case bb_ring b of
        None \<Rightarrow> (b, None)
      | Some r \<Rightarrow> let n = rg_next (bb_heap b) r in (b\<lparr>bb_ring := Some n\<rparr>, Some n))"

definition Current :: "basic_buffer \<Rightarrow> addr option" where
  "Current b = bb_ring b"

text \<open>One round along the ring; the pointer of the buffer is back at its start afterwards.\<close>

partial_function (option) ringRound :: "'v ring_heap \<Rightarrow> addr \<Rightarrow> addr \<Rightarrow> addr list option" where
  "ringRound h start r =
     (let n = rg_next h r
      in if n = start then Some [r] else Option.bind (ringRound h start n) (\<lambda>rs. Some (r # rs)))"

definition Buffer_ForEach :: "basic_buffer \<Rightarrow> addr list option" where
  "Buffer_ForEach b = (case bb_ring b of None \<Rightarrow> Some [] | Some start \<Rightarrow> ringRound (bb_heap b) start start)"

definition IssuerIDs :: "basic_buffer \<Rightarrow> account_id list option" where
  "IssuerIDs b =
     (case Current b of
        None \<Rightarrow> Some []
      | Some start \<Rightarrow> Option.bind (ringRound (bb_heap b) start start) (\<lambda>rs. Some (map (iq_issuerID \<circ> queueAt b) rs)))"

definition Buffer_PopFront :: "queue_env \<Rightarrow> basic_buffer \<Rightarrow> basic_buffer \<times> block option" where
  "Buffer_PopFront E b =
     (case Current b of
        None \<Rightarrow> (b, None)
      | Some a \<Rightarrow> let (s, r) = IssuerQueue_PopFront E (queueAt b a, bb_counts b) in (setQueue a s b, r))"

text \<open>
  The quantum of an issuer is an \<^verbatim>\<open>int64\<close>.  \<open>maxScale\<close> is None for minus infinity; scales are floating-point
  quotients on the common scale of \<open>float_quot\<close>.
\<close>

partial_function (option) longestLoop ::
  "issuer_queue ring_heap \<Rightarrow> (account_id \<Rightarrow> i64) \<Rightarrow> addr \<Rightarrow> addr \<Rightarrow> nat option \<Rightarrow> account_id \<Rightarrow> account_id option" where
  "longestLoop h quantumFunc start r maxScale maxIssuerID =
     (let q = rg_value h r;
          quantum = quantumFunc (iq_issuerID q);
          n = rg_next h r
      in if 0 < sint quantum then
           let scale = float_quot (unat (IssuerQueue_Work q)) (unat quantum);
               larger = (case maxScale of None \<Rightarrow> True | Some m \<Rightarrow> m < scale);
               maxScale = (if larger then Some scale else maxScale);
               maxIssuerID = (if larger then iq_issuerID q else maxIssuerID)
           in if n = start then Some maxIssuerID else longestLoop h quantumFunc start n maxScale maxIssuerID
         else if 0 < IssuerQueue_Size q then Some (iq_issuerID q)
         else if n = start then Some maxIssuerID
         else longestLoop h quantumFunc start n maxScale maxIssuerID)"

definition EmptyAccountID :: account_id where
  "EmptyAccountID = 0"

definition mustLongestQueueIssuerID ::
  "(account_id \<Rightarrow> i64) \<Rightarrow> basic_buffer \<Rightarrow> (buffer_error + account_id) option" where
  "mustLongestQueueIssuerID quantumFunc b =
     (case Current b of
        None \<Rightarrow> Some (Inl PanicNilRing)
      | Some start \<Rightarrow>
          Option.bind (longestLoop (bb_heap b) quantumFunc start start None EmptyAccountID) (\<lambda>maxIssuerID.
            Some (if maxIssuerID = EmptyAccountID then Inl PanicNoLongestQueue else Inr maxIssuerID)))"

text \<open>Dropping the tail of the longest queue, the body of the loop of \<^verbatim>\<open>dropTail\<close>.\<close>

definition dropLongest :: "queue_env \<Rightarrow> account_id \<Rightarrow> basic_buffer \<Rightarrow> buffer_error + (basic_buffer \<times> block)" where
  "dropLongest E maxIssuerID b =
     (case Buffer_IssuerQueue b maxIssuerID of
        None \<Rightarrow> Inl (PanicLongestQueueMissing maxIssuerID)
      | Some a \<Rightarrow>
          (case RemoveTail E (queueAt b a, bb_counts b) of
             Inl e \<Rightarrow> Inl (QueuePanic e)
           | Inr (s, tail) \<Rightarrow> Inr (setQueue a s b, tail)))"

partial_function (option) dropTail ::
  "queue_env \<Rightarrow> (account_id \<Rightarrow> i64) \<Rightarrow> int \<Rightarrow> basic_buffer \<Rightarrow> block list \<Rightarrow>
     (buffer_error + (basic_buffer \<times> block list)) option" where
  "dropTail E quantumFunc maxBuffer b droppedBlocks =
     (if TotalBlocksCount b > maxBuffer then
        Option.bind (mustLongestQueueIssuerID quantumFunc b) (\<lambda>r.
          case and_then r (\<lambda>maxIssuerID. dropLongest E maxIssuerID b) of
            Inl e \<Rightarrow> Some (Inl e)
          | Inr (b, tail) \<Rightarrow> dropTail E quantumFunc maxBuffer b (droppedBlocks @ [tail]))
      else Some (Inr (b, droppedBlocks)))"

definition Buffer_Submit ::
  "queue_env \<Rightarrow> block \<Rightarrow> addr \<Rightarrow> (account_id \<Rightarrow> i64) \<Rightarrow> int \<Rightarrow> basic_buffer \<Rightarrow>
     (buffer_error + (basic_buffer \<times> block list \<times> bool)) option" where
  "Buffer_Submit E blk a quantumFunc maxBuffer b =
     (case IssuerQueue_Submit blk (queueAt b a, bb_counts b) of
        Inl e \<Rightarrow> Some (Inl (QueuePanic e))
      | Inr (s, False) \<Rightarrow> Some (Inr (b, [], False))
      | Inr (s, True) \<Rightarrow>
          let b = setQueue a s b
          in if TotalBlocksCount b > maxBuffer then
               Option.bind (dropTail E quantumFunc maxBuffer b []) (\<lambda>r.
                 Some (and_then r (\<lambda>(b, dropped). Inr (b, dropped, True))))
             else Some (Inr (b, [], True)))"

section \<open>The counters of the buffer\<close>

abbreviation activeQueue :: "basic_buffer \<Rightarrow> account_id \<Rightarrow> issuer_queue" where
  "activeQueue b i \<equiv> queueAt b (the (activeIssuers b i))"

definition buffer_ok :: "basic_buffer \<Rightarrow> bool" where
  "buffer_ok b \<longleftrightarrow> finite (dom (activeIssuers b)) \<and> inj_on (activeIssuers b) (dom (activeIssuers b)) \<and>
     (\<forall>i a. activeIssuers b i = Some a \<longrightarrow> a < rg_fresh (bb_heap b) \<and> queue_ok (queueAt b a) \<and> iq_issuerID (queueAt b a) = i) \<and>
     (\<forall>a. a \<notin> ran (activeIssuers b) \<longrightarrow> readyHeap (queueAt b a) = []) \<and>
     totalBlocksCount (bb_counts b) = (\<Sum>i\<in>dom (activeIssuers b). word_of_nat (size (queue_blocks (activeQueue b i)))) \<and>
     readyBlocksCount (bb_counts b) = (\<Sum>i\<in>dom (activeIssuers b). word_of_nat (length (readyHeap (activeQueue b i))))"

lemma setQueue_fields [simp]:
  "activeIssuers (setQueue a s b) = activeIssuers b" "bb_ring (setQueue a s b) = bb_ring b"
  "bb_counts (setQueue a s b) = snd s" "rg_next (bb_heap (setQueue a s b)) = rg_next (bb_heap b)"
  "rg_prev (bb_heap (setQueue a s b)) = rg_prev (bb_heap b)" "rg_fresh (bb_heap (setQueue a s b)) = rg_fresh (bb_heap b)"
  "rg_value (bb_heap (setQueue a s b)) = (rg_value (bb_heap b))(a := fst s)" "blockChan (setQueue a s b) = blockChan b"
  by (simp_all add: setQueue_def)

text \<open>Replacing one value under a sum changes the sum by the difference.\<close>

lemma sum_change:
  fixes f g :: "'i \<Rightarrow> i64"
  assumes "finite A" "i \<in> A" "\<And>j. j \<in> A \<Longrightarrow> j \<noteq> i \<Longrightarrow> g j = f j" "d - c = g i - f i" "c = sum f A"
  shows "d = sum g A"
proof -
  have "sum g A = g i + sum g (A - {i})" "sum f A = f i + sum f (A - {i})" using assms(1,2) by (simp_all add: sum.remove)
  moreover have "sum g (A - {i}) = sum f (A - {i})" using assms(3) by (intro sum.cong) auto
  moreover have "d = c + (g i - f i)" using assms(4) by (metis add.commute diff_add_cancel)
  ultimately show ?thesis using assms(5) by simp
qed

lemma setQueue_counts:
  assumes "buffer_ok b" "activeIssuers b i = Some a" "counts_follow (queueAt b a, bb_counts b) s"
  shows "totalBlocksCount (snd s) = (\<Sum>j\<in>dom (activeIssuers b). word_of_nat (size (queue_blocks (activeQueue (setQueue a s b) j))))"
    "readyBlocksCount (snd s) = (\<Sum>j\<in>dom (activeIssuers b). word_of_nat (length (readyHeap (activeQueue (setQueue a s b) j))))"
proof -
  have fin: "finite (dom (activeIssuers b))" "i \<in> dom (activeIssuers b)" using assms by (auto simp: buffer_ok_def)
  have other: "the (activeIssuers b j) \<noteq> a" if "j \<in> dom (activeIssuers b)" "j \<noteq> i" for j
    using assms(1,2) that fin(2) unfolding buffer_ok_def inj_on_def by (metis domD option.sel)
  have c: "totalBlocksCount (snd s) - totalBlocksCount (bb_counts b) = word_of_nat (size (queue_blocks (fst s))) - word_of_nat (size (queue_blocks (queueAt b a)))"
    "readyBlocksCount (snd s) - readyBlocksCount (bb_counts b) = word_of_nat (length (readyHeap (fst s))) - word_of_nat (length (readyHeap (queueAt b a)))"
    using assms(3) by (simp_all add: counts_follow_def)
  show "totalBlocksCount (snd s) = (\<Sum>j\<in>dom (activeIssuers b). word_of_nat (size (queue_blocks (activeQueue (setQueue a s b) j))))"
    by (rule sum_change [OF fin, where f = "\<lambda>j. word_of_nat (size (queue_blocks (activeQueue b j)))" and c = "totalBlocksCount (bb_counts b)"])
      (use other assms(1,2) c in \<open>auto simp: buffer_ok_def\<close>)
  show "readyBlocksCount (snd s) = (\<Sum>j\<in>dom (activeIssuers b). word_of_nat (length (readyHeap (activeQueue (setQueue a s b) j))))"
    by (rule sum_change [OF fin, where f = "\<lambda>j. word_of_nat (length (readyHeap (activeQueue b j)))" and c = "readyBlocksCount (bb_counts b)"])
      (use other assms(1,2) c in \<open>auto simp: buffer_ok_def\<close>)
qed

lemma buffer_ok_queue:
  assumes "buffer_ok b" "activeIssuers b i = Some a"
  shows "queue_ok (queueAt b a)" "iq_issuerID (queueAt b a) = i" "a < rg_fresh (bb_heap b)"
  using assms unfolding buffer_ok_def by blast+

lemma buffer_ok_parts:
  assumes "buffer_ok b"
  shows "finite (dom (activeIssuers b))" "inj_on (activeIssuers b) (dom (activeIssuers b))"
    "\<forall>a. a \<notin> ran (activeIssuers b) \<longrightarrow> readyHeap (queueAt b a) = []"
    "totalBlocksCount (bb_counts b) = (\<Sum>i\<in>dom (activeIssuers b). word_of_nat (size (queue_blocks (activeQueue b i))))"
    "readyBlocksCount (bb_counts b) = (\<Sum>i\<in>dom (activeIssuers b). word_of_nat (length (readyHeap (activeQueue b i))))"
  using assms unfolding buffer_ok_def by blast+

lemma setQueue_ok:
  assumes "buffer_ok b" "activeIssuers b i = Some a" "queue_ok (fst s)" "counts_follow (queueAt b a, bb_counts b) s"
  shows "buffer_ok (setQueue a s b)"
proof -
  have id: "iq_issuerID (fst s) = i" using assms(4) buffer_ok_queue(2) [OF assms(1,2)] by (simp add: counts_follow_def)
  have "\<forall>j k. activeIssuers b j = Some k \<longrightarrow> k < rg_fresh (bb_heap b) \<and>
      queue_ok (queueAt (setQueue a s b) k) \<and> iq_issuerID (queueAt (setQueue a s b) k) = j"
  proof (intro allI impI)
    fix j k assume jk: "activeIssuers b j = Some k"
    have o: "k < rg_fresh (bb_heap b)" "queue_ok (queueAt b k)" "iq_issuerID (queueAt b k) = j" "iq_issuerID (queueAt b a) = i"
      using assms(1,2) jk unfolding buffer_ok_def by blast+
    then show "k < rg_fresh (bb_heap b) \<and> queue_ok (queueAt (setQueue a s b) k) \<and> iq_issuerID (queueAt (setQueue a s b) k) = j"
      using assms(3) id by (cases "k = a") simp_all
  qed
  moreover have "\<forall>k. k \<notin> ran (activeIssuers b) \<longrightarrow> readyHeap (queueAt (setQueue a s b) k) = []"
    using assms(2) buffer_ok_parts(3) [OF assms(1)] by (auto simp: ran_def)
  ultimately show ?thesis
    using buffer_ok_parts(1,2) [OF assms(1)] setQueue_counts [OF assms(1,2,4)] unfolding buffer_ok_def by simp
qed

lemma NewBasicBuffer_ok: "buffer_ok NewBasicBuffer"
  by (simp add: buffer_ok_def NewBasicBuffer_def NewIssuerQueue_def)

lemma ringInsert_fields:
  assumes "ringInsert v (ring, h) = (p, ring', h')"
  shows "p = rg_fresh h" "rg_value h' = (rg_value h)(p := v)" "rg_fresh h' = Suc p"
  using assms
  by (auto simp: ringInsert_def ring_New_def ring_Link_def Let_def split: option.splits prod.splits)

lemma ringRemove_fields:
  assumes "ringRemove r (ring, h) = Some (ring', h')"
  shows "rg_value h' = rg_value h" "rg_fresh h' = rg_fresh h"
  using assms
  by (auto simp: ringRemove_def ring_Link_fields Let_def split: option.splits if_splits)

lemma CreateIssuerQueue_ok:
  assumes "buffer_ok b" "CreateIssuerQueue i b = Inr (b', p)"
  shows "buffer_ok b'" "activeIssuers b' i = Some p"
proof -
  obtain ring h where r: "ringInsert (NewIssuerQueue i) (bb_ring b, bb_heap b) = (p, ring, h)"
    and n: "activeIssuers b i = None"
    and b': "b' = b\<lparr>bb_ring := ring, bb_heap := h, activeIssuers := (activeIssuers b)(i \<mapsto> p)\<rparr>"
    using assms(2) by (auto simp: CreateIssuerQueue_def split: if_splits prod.splits)
  note f = ringInsert_fields [OF r]
  have old: "a < p" "a \<noteq> p" if "activeIssuers b j = Some a" for j a
    using buffer_ok_queue(3) [OF assms(1) that] f(1) by auto
  have act: "activeIssuers b' = (activeIssuers b)(i \<mapsto> p)" by (simp add: b')
  have val: "queueAt b' a = (if a = p then NewIssuerQueue i else queueAt b a)" for a by (simp add: b' f)
  have same: "activeQueue b' j = activeQueue b j" if j: "j \<in> dom (activeIssuers b)" for j
  proof -
    obtain a where a: "activeIssuers b j = Some a" using j by blast
    then have "j \<noteq> i" using n by auto
    then show ?thesis using old(2) [OF a] a by (simp add: val act)
  qed
  have new: "size (queue_blocks (activeQueue b' i)) = 0" "length (readyHeap (activeQueue b' i)) = 0"
    by (simp_all add: act val) (simp add: NewIssuerQueue_def)
  have fin: "finite (dom (activeIssuers b))" using assms(1) by (simp add: buffer_ok_def)
  have dom: "dom (activeIssuers b') = insert i (dom (activeIssuers b))" "i \<notin> dom (activeIssuers b)" using n by (auto simp: act)
  have "inj_on (activeIssuers b') (dom (activeIssuers b'))"
    using assms(1) old n unfolding dom buffer_ok_def act inj_on_def by (auto simp: fun_upd_apply) blast+
  moreover have "\<forall>j a. activeIssuers b' j = Some a \<longrightarrow> a < rg_fresh (bb_heap b') \<and> queue_ok (queueAt b' a) \<and> iq_issuerID (queueAt b' a) = j"
  proof (intro allI impI)
    fix j a assume "activeIssuers b' j = Some a"
    then show "a < rg_fresh (bb_heap b') \<and> queue_ok (queueAt b' a) \<and> iq_issuerID (queueAt b' a) = j"
    proof (cases "j = i")
      case True
      then have "a = p" using \<open>activeIssuers b' j = Some a\<close> by (simp add: act)
      then show ?thesis using True f(3) by (simp add: val) (simp add: b' NewIssuerQueue_def)
    next
      case False
      then have j: "activeIssuers b j = Some a" using \<open>activeIssuers b' j = Some a\<close> by (simp add: act)
      show ?thesis using buffer_ok_queue [OF assms(1) j] old [OF j] f(1,3) by (simp add: val) (simp add: b')
    qed
  qed
  moreover have "(\<Sum>j\<in>dom (activeIssuers b'). word_of_nat (size (queue_blocks (activeQueue b' j)))) =
      (\<Sum>j\<in>dom (activeIssuers b). (word_of_nat (size (queue_blocks (activeQueue b j))) :: i64))"
    "(\<Sum>j\<in>dom (activeIssuers b'). word_of_nat (length (readyHeap (activeQueue b' j)))) =
      (\<Sum>j\<in>dom (activeIssuers b). (word_of_nat (length (readyHeap (activeQueue b j))) :: i64))"
    unfolding dom(1) sum.insert [OF fin dom(2)] using same new by (simp_all cong: sum.cong_simp)
  moreover have "bb_counts b' = bb_counts b" by (simp add: b')
  moreover have "\<forall>a. a \<notin> ran (activeIssuers b') \<longrightarrow> readyHeap (queueAt b' a) = []"
    using buffer_ok_parts(3) [OF assms(1)] n by (auto simp: act val)
  ultimately show "buffer_ok b'"
    using fin buffer_ok_parts(4,5) [OF assms(1)] unfolding buffer_ok_def by (simp add: dom(1))
  show "activeIssuers b' i = Some p" by (simp add: act)
qed

text \<open>A queue without blocks can be removed; the counters stay those of the remaining queues.\<close>

lemma removeElement_ok:
  assumes "finite (dom (activeIssuers b))" "inj_on (activeIssuers b) (dom (activeIssuers b))"
    and "\<forall>j a. j \<noteq> i \<longrightarrow> activeIssuers b j = Some a \<longrightarrow> a < rg_fresh (bb_heap b) \<and> queue_ok (queueAt b a) \<and> iq_issuerID (queueAt b a) = j"
    and "totalBlocksCount (bb_counts b) = (\<Sum>j\<in>dom (activeIssuers b). word_of_nat (size (queue_blocks (activeQueue b j))))"
    and "readyBlocksCount (bb_counts b) = (\<Sum>j\<in>dom (activeIssuers b). word_of_nat (length (readyHeap (activeQueue b j))))"
    and "activeIssuers b i = Some a" "queue_blocks (queueAt b a) = {#}" "removeElement i a b = Inr b'"
    and idle: "\<forall>a. a \<notin> ran (activeIssuers b) \<longrightarrow> readyHeap (queueAt b a) = []"
  shows "buffer_ok b'" "activeIssuers b' = (activeIssuers b)(i := None)" "rg_value (bb_heap b') = rg_value (bb_heap b)"
    "bb_counts b' = bb_counts b"
proof -
  obtain ring h where r: "ringRemove a (bb_ring b, bb_heap b) = Some (ring, h)"
    and b': "b' = b\<lparr>bb_ring := ring, bb_heap := h, activeIssuers := (activeIssuers b)(i := None)\<rparr>"
    using assms(8) by (auto simp: removeElement_def go_result)
  note f = ringRemove_fields [OF r]
  show act: "activeIssuers b' = (activeIssuers b)(i := None)" and val: "rg_value (bb_heap b') = rg_value (bb_heap b)"
    and c: "bb_counts b' = bb_counts b" using f by (simp_all add: b')
  have i: "i \<in> dom (activeIssuers b)" using assms(6) by blast
  have dom: "dom (activeIssuers b') = dom (activeIssuers b) - {i}" by (auto simp: act)
  have z: "readyHeap (queueAt b a) = []" using assms(7) by (simp add: queue_blocks_def)
  have same: "activeQueue b' j = activeQueue b j" if "j \<in> dom (activeIssuers b) - {i}" for j
    using that by (auto simp: act val)
  have "(\<Sum>j\<in>dom (activeIssuers b'). word_of_nat (size (queue_blocks (activeQueue b' j)))) =
      (\<Sum>j\<in>dom (activeIssuers b). (word_of_nat (size (queue_blocks (activeQueue b j))) :: i64))"
    "(\<Sum>j\<in>dom (activeIssuers b'). word_of_nat (length (readyHeap (activeQueue b' j)))) =
      (\<Sum>j\<in>dom (activeIssuers b). (word_of_nat (length (readyHeap (activeQueue b j))) :: i64))"
    unfolding dom sum.remove [OF assms(1) i] using same assms(6,7) z by (auto intro!: sum.cong)
  moreover have "inj_on (activeIssuers b') (dom (activeIssuers b'))"
    using assms(2) unfolding dom act inj_on_def by (auto simp: fun_upd_apply)
  moreover have "\<forall>j k. activeIssuers b' j = Some k \<longrightarrow> k < rg_fresh (bb_heap b') \<and> queue_ok (queueAt b' k) \<and> iq_issuerID (queueAt b' k) = j"
    using assms(3) f(2) val by (auto simp: act b' split: if_splits)
  moreover have "\<forall>k. k \<notin> ran (activeIssuers b') \<longrightarrow> readyHeap (queueAt b' k) = []"
  proof (intro allI impI)
    fix k assume k: "k \<notin> ran (activeIssuers b')"
    show "readyHeap (queueAt b' k) = []"
    proof (cases "k = a")
      case False
      have "k \<notin> ran (activeIssuers b)"
      proof
        assume "k \<in> ran (activeIssuers b)"
        then obtain j where "activeIssuers b j = Some k" by (auto simp: ran_def)
        moreover from this have "j \<noteq> i" using False assms(6) by auto
        ultimately have "activeIssuers b' j = Some k" by (simp add: act)
        then show False using k by (auto simp: ran_def)
      qed
      then show ?thesis using idle val by simp
    qed (simp add: val z)
  qed
  ultimately show "buffer_ok b'" using assms(1,4,5) unfolding buffer_ok_def dom c by simp
qed

lemma RemoveIssuerQueue_ok:
  assumes "buffer_ok b" "RemoveIssuerQueue i b = Inr b'"
  shows "buffer_ok b'" "activeIssuers b' = (activeIssuers b)(i := None)"
proof -
  have "buffer_ok b' \<and> activeIssuers b' = (activeIssuers b)(i := None)"
  proof (cases "activeIssuers b i")
    case None
    then have "(activeIssuers b)(i := None) = activeIssuers b" by (intro ext) simp
    then show ?thesis using assms None by (simp add: RemoveIssuerQueue_def)
  next
    case (Some a)
    let ?s = "IssuerQueue_Clear (queueAt b a, bb_counts b)"
    let ?b = "setQueue a ?s b"
    note c = Clear_ok [OF buffer_ok_queue(1) [OF assms(1) Some], of "bb_counts b"]
    have r: "removeElement i a ?b = Inr b'" using assms(2) Some by (simp add: RemoveIssuerQueue_def)
    have "\<forall>j k. j \<noteq> i \<longrightarrow> activeIssuers ?b j = Some k \<longrightarrow> k < rg_fresh (bb_heap ?b) \<and> queue_ok (queueAt ?b k) \<and> iq_issuerID (queueAt ?b k) = j"
    proof (intro allI impI)
      fix j k assume jk: "j \<noteq> i" "activeIssuers ?b j = Some k"
      then have "activeIssuers b j = Some k" by simp
      then have "k \<noteq> a" using buffer_ok_queue(2) [OF assms(1)] Some jk(1) by metis
      then show "k < rg_fresh (bb_heap ?b) \<and> queue_ok (queueAt ?b k) \<and> iq_issuerID (queueAt ?b k) = j"
        using buffer_ok_queue [OF assms(1), of j k] jk by simp
    qed
    moreover have "\<forall>k. k \<notin> ran (activeIssuers ?b) \<longrightarrow> readyHeap (queueAt ?b k) = []"
      using Some buffer_ok_parts(3) [OF assms(1)] by (auto simp: ran_def)
    ultimately show ?thesis
      using removeElement_ok [of ?b i a b'] buffer_ok_parts(1,2) [OF assms(1)] setQueue_counts [OF assms(1) Some c(2)] c(1) r Some
      by simp
  qed
  then show "buffer_ok b'" "activeIssuers b' = (activeIssuers b)(i := None)" by blast+
qed

lemma RemoveIssuerQueueIfEmpty_ok:
  assumes "buffer_ok b" "RemoveIssuerQueueIfEmpty i b = Inr b'"
    and "\<forall>i\<in>dom (activeIssuers b). size (queue_blocks (activeQueue b i)) < 2 ^ 64"
  shows "buffer_ok b'"
proof (cases "activeIssuers b i")
  case None
  then show ?thesis using assms by (simp add: RemoveIssuerQueueIfEmpty_def)
next
  case (Some a)
  show ?thesis
  proof (cases "IssuerQueue_Size (queueAt b a) = 0")
    case True
    have "iq_size (queueAt b a) = word_of_nat (size (queue_blocks (queueAt b a)))"
      using buffer_ok_queue(1) [OF assms(1) Some] by (simp add: queue_ok_def)
    moreover have "iq_size (queueAt b a) = 0" using True sint_eq_0 by (simp add: IssuerQueue_Size_def)
    moreover have "size (queue_blocks (queueAt b a)) < 2 ^ 64" using assms(3) Some by force
    ultimately have "size (queue_blocks (queueAt b a)) = 0" by (metis word_of_nat_small_0)
    then have e: "queue_blocks (queueAt b a) = {#}" by simp
    have r: "removeElement i a b = Inr b'" using assms(2) Some True by (simp add: RemoveIssuerQueueIfEmpty_def)
    show ?thesis
      by (rule removeElement_ok(1) [OF buffer_ok_parts(1,2) [OF assms(1)] _ buffer_ok_parts(4,5) [OF assms(1)] Some e r buffer_ok_parts(3) [OF assms(1)]])
        (use buffer_ok_queue [OF assms(1)] in blast)
  next
    case False
    then show ?thesis using assms Some by (simp add: RemoveIssuerQueueIfEmpty_def)
  qed
qed

lemma dropLongest_ok:
  assumes "queue_env_ok E" "buffer_ok b" "dropLongest E i b = Inr (b', t)"
  shows "buffer_ok b'" "activeIssuers b' = activeIssuers b" "bb_ring b' = bb_ring b"
    "rg_next (bb_heap b') = rg_next (bb_heap b)" "rg_prev (bb_heap b') = rg_prev (bb_heap b)"
proof -
  obtain a s where a: "activeIssuers b i = Some a" and s: "RemoveTail E (queueAt b a, bb_counts b) = Inr (s, t)" "b' = setQueue a s b"
    using assms(3) by (auto simp: dropLongest_def Buffer_IssuerQueue_def split: option.splits sum.splits)
  have q: "queue_ok (queueAt b a)" by (rule buffer_ok_queue(1) [OF assms(2) a])
  have "queue_blocks (queueAt b a) \<noteq> {#}"
  proof
    assume "queue_blocks (queueAt b a) = {#}"
    then have e: "ran (nonReadyMap (queueAt b a)) = {}" "readyHeap (queueAt b a) = []"
      using finite_ran [OF queue_ok_map(1) [OF q]] by (auto simp: queue_blocks_def mset_set_empty_iff)
    then have "oldestNonReadyBlock E (queueAt b a) = None" "heapTail E (queueAt b a) = None"
      using oldestNonReadyBlock_ok [OF assms(1) q] by (auto simp: heapTail_def ran_def split: option.splits)
    then show False using s(1) by (simp add: RemoveTail_def Let_def)
  qed
  from RemoveTail_ok [OF assms(1) q this, of "bb_counts b"] have "queue_ok (fst s)" "counts_follow (queueAt b a, bb_counts b) s"
    using s(1) by auto
  then show "buffer_ok b'" using setQueue_ok [OF assms(2) a] s(2) by simp
  show "activeIssuers b' = activeIssuers b" "bb_ring b' = bb_ring b"
    "rg_next (bb_heap b') = rg_next (bb_heap b)" "rg_prev (bb_heap b') = rg_prev (bb_heap b)" by (simp_all add: s(2))
qed

lemma dropTail_ok:
  assumes "dropTail E quantumFunc maxBuffer b dropped = Some r" "queue_env_ok E" "buffer_ok b" "r = Inr (b', dropped')"
  shows "buffer_ok b' \<and> activeIssuers b' = activeIssuers b \<and> TotalBlocksCount b' \<le> maxBuffer"
  using assms
proof (induction arbitrary: b' dropped' rule: dropTail.raw_induct [rotated, consumes 1, case_names step])
  case (step dropTail E quantumFunc maxBuffer b dropped r)
  show ?case
  proof (cases "TotalBlocksCount b > maxBuffer")
    case False
    then show ?thesis using step by simp
  next
    case True
    then obtain m where m: "(case and_then m (\<lambda>maxIssuerID. dropLongest E maxIssuerID b) of Inl e \<Rightarrow> Some (Inl e)
        | Inr (b, tail) \<Rightarrow> dropTail E quantumFunc maxBuffer b (dropped @ [tail])) = Some r"
      using step(2) by (auto simp: bind_eq_Some_conv)
    moreover have "\<not> (\<exists>e. and_then m (\<lambda>maxIssuerID. dropLongest E maxIssuerID b) = Inl e)" using m step(5) by auto
    ultimately obtain b1 t where "and_then m (\<lambda>maxIssuerID. dropLongest E maxIssuerID b) = Inr (b1, t)"
      and r: "dropTail E quantumFunc maxBuffer b1 (dropped @ [t]) = Some r"
      by (cases "and_then m (\<lambda>maxIssuerID. dropLongest E maxIssuerID b)") auto
    then obtain i where i: "dropLongest E i b = Inr (b1, t)" by (auto simp: go_result)
    note d = dropLongest_ok [OF step(3,4) i]
    show ?thesis using step(1) [OF r step(3) d(1) step(5)] d(2) by simp
  qed
qed

text \<open>The operations of the buffer as steps on its state.\<close>

inductive buffer_step :: "queue_env \<Rightarrow> basic_buffer \<Rightarrow> basic_buffer \<Rightarrow> bool" for E where
  step_create: "CreateIssuerQueue i b = Inr (b', p) \<Longrightarrow> buffer_step E b b'"
| step_getOrCreate: "GetOrCreateIssuerQueue i b = Inr (b', p) \<Longrightarrow> buffer_step E b b'"
| step_remove: "RemoveIssuerQueue i b = Inr b' \<Longrightarrow> buffer_step E b b'"
| step_removeIfEmpty: "RemoveIssuerQueueIfEmpty i b = Inr b' \<Longrightarrow> buffer_step E b b'"
| step_clear: "Buffer_Clear iter b = Inr b' \<Longrightarrow> buffer_step E b b'"
| step_submit: "activeIssuers b i = Some a \<Longrightarrow> Buffer_Submit E blk a quantumFunc maxBuffer b = Some (Inr (b', r)) \<Longrightarrow> buffer_step E b b'"
| step_ready: "(\<And>a x. activeIssuers b (blk_IssuerID blk) = Some a \<Longrightarrow> nonReadyMap (queueAt b a) (blk_ID blk) = Some x \<Longrightarrow> x = blk) \<Longrightarrow>
    Buffer_Ready E blk b = (b', r) \<Longrightarrow> buffer_step E b b'"
| step_next: "Buffer_Next b = (b', r) \<Longrightarrow> buffer_step E b b'"
| step_popFront: "Buffer_PopFront E b = (b', r) \<Longrightarrow> buffer_step E b b'"
| step_chan: "buffer_step E b (b\<lparr>blockChan := c\<rparr>)"

lemma buffer_ok_ring: "buffer_ok (b\<lparr>bb_ring := r\<rparr>) = buffer_ok b" "buffer_ok (b\<lparr>blockChan := c\<rparr>) = buffer_ok b"
  by (simp_all add: buffer_ok_def)

lemma Buffer_Clear_ok:
  assumes "buffer_ok b" "Buffer_Clear iter b = Inr b'"
  shows "buffer_ok b'"
  using assms(2) unfolding Buffer_Clear_def
  by (rule range_loop_invariant) (use assms(1) buffer_ok_ring RemoveIssuerQueue_ok in auto)

lemma Buffer_Submit_ok:
  assumes "queue_env_ok E" "buffer_ok b" "activeIssuers b i = Some a" "Buffer_Submit E blk a quantumFunc maxBuffer b = Some (Inr (b', r))"
  shows "buffer_ok b'"
proof -
  consider (known) "b' = b" | (submitted) s where "IssuerQueue_Submit blk (queueAt b a, bb_counts b) = Inr (s, True)"
      "b' = setQueue a s b \<or> (\<exists>d. dropTail E quantumFunc maxBuffer (setQueue a s b) [] = Some (Inr (b', d)))"
    using assms(4) unfolding Buffer_Submit_def
    by (auto simp: Let_def bind_eq_Some_conv go_result split: sum.splits bool.splits if_splits)
  then show ?thesis
  proof cases
    case known
    then show ?thesis using assms(2) by simp
  next
    case submitted
    note q = Submit_ok [OF buffer_ok_queue(1) [OF assms(2,3)] submitted(1)]
    have ok: "buffer_ok (setQueue a s b)" by (rule setQueue_ok [OF assms(2,3) q(1,2)])
    show ?thesis using submitted(2)
    proof
      assume "\<exists>d. dropTail E quantumFunc maxBuffer (setQueue a s b) [] = Some (Inr (b', d))"
      then show ?thesis using dropTail_ok [OF _ assms(1) ok refl] by blast
    qed (simp add: ok)
  qed
qed

lemma Buffer_Ready_ok:
  assumes "queue_env_ok E" "buffer_ok b" "Buffer_Ready E blk b = (b', r)"
    and "\<And>a x. activeIssuers b (blk_IssuerID blk) = Some a \<Longrightarrow> nonReadyMap (queueAt b a) (blk_ID blk) = Some x \<Longrightarrow> x = blk"
  shows "buffer_ok b'"
proof (cases "activeIssuers b (blk_IssuerID blk)")
  case None
  then show ?thesis using assms by (simp add: Buffer_Ready_def Buffer_IssuerQueue_def)
next
  case (Some a)
  note q = buffer_ok_queue(1) [OF assms(2) Some]
  show ?thesis
  proof (cases "nonReadyMap (queueAt b a) (blk_ID blk)")
    case None
    then have "IssuerQueue_Ready E blk (queueAt b a, bb_counts b) = ((queueAt b a, bb_counts b), False)"
      by (simp add: IssuerQueue_Ready_def)
    then have "b' = setQueue a (queueAt b a, bb_counts b) b" using assms(3) Some by (simp add: Buffer_Ready_def Buffer_IssuerQueue_def)
    then show ?thesis using setQueue_ok [OF assms(2) Some, of "(queueAt b a, bb_counts b)"] q counts_follow_refl by simp
  next
    case (Some x)
    then have "nonReadyMap (queueAt b a) (blk_ID blk) = Some blk" using assms(4) \<open>activeIssuers b (blk_IssuerID blk) = Some a\<close> by blast
    from Ready_ok [OF assms(1) q this, of "bb_counts b"] obtain s where
      s: "IssuerQueue_Ready E blk (queueAt b a, bb_counts b) = (s, True)" "queue_ok (fst s)" "counts_follow (queueAt b a, bb_counts b) s" by blast
    then have "b' = setQueue a s b" using assms(3) \<open>activeIssuers b (blk_IssuerID blk) = Some a\<close> by (simp add: Buffer_Ready_def Buffer_IssuerQueue_def)
    then show ?thesis using setQueue_ok [OF assms(2) \<open>activeIssuers b (blk_IssuerID blk) = Some a\<close> s(2,3)] by simp
  qed
qed

lemma Buffer_PopFront_ok:
  assumes "queue_env_ok E" "buffer_ok b" "Buffer_PopFront E b = (b', r)"
  shows "buffer_ok b'"
proof (cases "bb_ring b")
  case None
  then show ?thesis using assms by (simp add: Buffer_PopFront_def Current_def)
next
  case (Some a)
  show ?thesis
  proof (cases "readyHeap (queueAt b a) = []")
    case True
    then have "b' = setQueue a (queueAt b a, bb_counts b) b"
      using assms(3) Some by (simp add: Buffer_PopFront_def Current_def IssuerQueue_PopFront_def)
    then have "b' = b" by (simp add: setQueue_def)
    then show ?thesis using assms(2) by simp
  next
    case False
    then obtain i where i: "activeIssuers b i = Some a" using buffer_ok_parts(3) [OF assms(2)] by (auto simp: ran_def)
    from PopFront_ok [OF assms(1) buffer_ok_queue(1) [OF assms(2) i] False, of "bb_counts b"] obtain s x where
      s: "IssuerQueue_PopFront E (queueAt b a, bb_counts b) = (s, Some x)" "queue_ok (fst s)" "counts_follow (queueAt b a, bb_counts b) s" by blast
    then have "b' = setQueue a s b" using assms(3) Some by (simp add: Buffer_PopFront_def Current_def)
    then show ?thesis using setQueue_ok [OF assms(2) i s(2,3)] by simp
  qed
qed

text \<open>
  C26. Whatever operation is applied to the buffer, also when it drops blocks or when the ring and the map
  of active issuers differ, the total and the ready counter stay the sums over the queues of the
  active issuers, each queue stays consistent and keeps its own element.
\<close>

theorem buffer_ok_preserved:
  assumes "queue_env_ok E" "buffer_ok b" "buffer_step E b b'"
    and "\<forall>i\<in>dom (activeIssuers b). size (queue_blocks (activeQueue b i)) < 2 ^ 64"
  shows "buffer_ok b'"
  using assms(3)
proof cases
  case (step_create i p)
  then show ?thesis using CreateIssuerQueue_ok [OF assms(2)] by blast
next
  case (step_getOrCreate i p)
  then show ?thesis using CreateIssuerQueue_ok [OF assms(2)] assms(2)
    by (auto simp: GetOrCreateIssuerQueue_def split: option.splits)
next
  case (step_remove i)
  then show ?thesis using RemoveIssuerQueue_ok [OF assms(2)] by blast
next
  case (step_removeIfEmpty i)
  then show ?thesis using RemoveIssuerQueueIfEmpty_ok [OF assms(2) _ assms(4)] by blast
next
  case (step_clear iter)
  then show ?thesis using Buffer_Clear_ok [OF assms(2)] by blast
next
  case (step_submit i a blk quantumFunc maxBuffer r)
  then show ?thesis using Buffer_Submit_ok [OF assms(1,2)] by blast
next
  case (step_ready blk r)
  then show ?thesis using Buffer_Ready_ok [OF assms(1,2)] by blast
next
  case (step_next r)
  then show ?thesis using assms(2) buffer_ok_ring(1) by (auto simp: Buffer_Next_def Let_def split: option.splits)
next
  case (step_popFront r)
  then show ?thesis using Buffer_PopFront_ok [OF assms(1,2)] by blast
next
  case (step_chan c)
  then show ?thesis using assms(2) by (simp add: buffer_ok_ring)
qed

definition withIssuer :: "account_id \<Rightarrow> basic_buffer \<Rightarrow> basic_buffer" where
  "withIssuer i b = (case CreateIssuerQueue i b of Inl _ \<Rightarrow> b | Inr (b', _) \<Rightarrow> b')"

theorem buffer_ok_preserved_witness:
  "buffer_step std_queue_env NewBasicBuffer (withIssuer 7 NewBasicBuffer) \<and> buffer_ok (withIssuer 7 NewBasicBuffer)"
proof -
  have "activeIssuers NewBasicBuffer 7 = None" by (simp add: NewBasicBuffer_def)
  then obtain b p where c: "CreateIssuerQueue 7 NewBasicBuffer = Inr (b, p)"
    by (cases "ringInsert (NewIssuerQueue 7) (bb_ring NewBasicBuffer, bb_heap NewBasicBuffer)") (simp add: CreateIssuerQueue_def)
  then have s: "buffer_step std_queue_env NewBasicBuffer (withIssuer 7 NewBasicBuffer)"
    using step_create by (simp add: withIssuer_def)
  have "\<forall>i\<in>dom (activeIssuers NewBasicBuffer). size (queue_blocks (activeQueue NewBasicBuffer i)) < 2 ^ 64"
    by (simp add: NewBasicBuffer_def)
  from buffer_ok_preserved [OF std_queue_env_ok NewBasicBuffer_ok s this] s show ?thesis by simp
qed

section \<open>The ring and the active issuers\<close>

definition ring_ok :: "basic_buffer \<Rightarrow> addr list \<Rightarrow> bool" where
  "ring_ok b xs \<longleftrightarrow> (case xs of [] \<Rightarrow> bb_ring b = None | x # _ \<Rightarrow> bb_ring b = Some x \<and> ring_at (bb_heap b) xs) \<and>
     set xs = ran (activeIssuers b)"

lemma ringRound_linked:
  assumes "linked h a ys start" "start \<notin> set ys"
  shows "ringRound h start a = Some (a # ys)"
  using assms by (induction ys arbitrary: a) (subst ringRound.simps, simp add: Let_def)+

text \<open>The ring and the map of active issuers describe the same queues, in round-robin order.\<close>

lemma Buffer_ForEach_ring: "ring_ok b xs \<Longrightarrow> Buffer_ForEach b = Some xs"
  by (cases xs) (auto simp: ring_ok_def Buffer_ForEach_def ring_at_Cons ringRound_linked)

lemma ring_ok_new: "ring_ok NewBasicBuffer []"
  by (simp add: ring_ok_def NewBasicBuffer_def)

lemma ring_at_cong:
  assumes "ring_at h xs" "rg_next h' = rg_next h" "rg_prev h' = rg_prev h"
  shows "ring_at h' xs"
  using assms by (cases xs) (auto simp: ring_at_Cons ring_at_def [of _ "[]"] elim: linked_cong)

lemma ring_at_setQueue [simp]: "ring_at (bb_heap (setQueue a s b)) xs \<longleftrightarrow> ring_at (bb_heap b) xs"
  using ring_at_cong [of "bb_heap b" xs "bb_heap (setQueue a s b)"] ring_at_cong [of "bb_heap (setQueue a s b)" xs "bb_heap b"] by auto

lemma ring_ok_setQueue [simp]: "ring_ok (setQueue a s b) xs \<longleftrightarrow> ring_ok b xs"
  by (cases xs) (simp_all add: ring_ok_def)

lemma CreateIssuerQueue_ring:
  assumes "buffer_ok b" "ring_ok b xs" "CreateIssuerQueue i b = Inr (b', p)"
  shows "ring_ok b' (xs @ [p])"
proof -
  obtain ring h where r: "ringInsert (NewIssuerQueue i) (bb_ring b, bb_heap b) = (p, ring, h)"
    and n: "activeIssuers b i = None"
    and b': "b' = b\<lparr>bb_ring := ring, bb_heap := h, activeIssuers := (activeIssuers b)(i \<mapsto> p)\<rparr>"
    using assms(3) by (auto simp: CreateIssuerQueue_def split: if_splits prod.splits)
  have set: "set (xs @ [p]) = ran (activeIssuers b')" using assms(2) n by (simp add: ring_ok_def b')
  show ?thesis
  proof (cases xs)
    case Nil
    then have "ringInsert (NewIssuerQueue i) (None, bb_heap b) = (p, ring, h)" using assms(2) r by (simp add: ring_ok_def)
    then show ?thesis using ringInsert_empty [of "NewIssuerQueue i" "bb_heap b"] set Nil by (auto simp: ring_ok_def b')
  next
    case (Cons x ys)
    then have x: "bb_ring b = Some x" "ring_at (bb_heap b) (x # ys)" using assms(2) by (simp_all add: ring_ok_def)
    have "\<forall>a\<in>set (x # ys). a < rg_fresh (bb_heap b)"
      using buffer_ok_queue(3) [OF assms(1)] assms(2) Cons by (auto simp: ring_ok_def ran_def)
    from ringInsert_ring [OF x(2) this, of "NewIssuerQueue i"] show ?thesis
      using r x(1) set Cons by (auto simp: ring_ok_def b')
  qed
qed

text \<open>Removing the queue of the current issuer keeps the ring and the map together.\<close>

lemma ran_remove:
  assumes "inj_on m (dom m)" "m i = Some a"
  shows "ran (m(i := None)) = ran m - {a}"
proof -
  have "m j \<noteq> Some a" if "j \<noteq> i" for j using assms that by (auto simp: inj_on_def dom_def)
  moreover have "x \<in> ran (m(i := None))" if x: "x \<in> ran m" "x \<noteq> a" for x
  proof -
    obtain j where "m j = Some x" using x(1) by (auto simp: ran_def)
    moreover from this have "j \<noteq> i" using x(2) assms(2) by auto
    ultimately have "(m(i := None)) j = Some x" by simp
    then show ?thesis by (rule ranI)
  qed
  moreover have "x \<in> ran m \<and> x \<noteq> a" if x: "x \<in> ran (m(i := None))" for x
  proof -
    obtain j where "j \<noteq> i" "m j = Some x" using x by (auto simp: ran_def split: if_splits)
    then show ?thesis using \<open>\<And>j. j \<noteq> i \<Longrightarrow> m j \<noteq> Some a\<close> by (auto simp: ran_def)
  qed
  ultimately show ?thesis by blast
qed

lemma RemoveIssuerQueue_current:
  assumes "buffer_ok b" "ring_ok b (x # xs)" "activeIssuers b i = Some x"
  shows "\<exists>b'. RemoveIssuerQueue i b = Inr b' \<and> ring_ok b' xs"
proof -
  let ?b = "setQueue x (IssuerQueue_Clear (queueAt b x, bb_counts b)) b"
  have r: "bb_ring ?b = Some x" "ring_at (bb_heap ?b) (x # xs)" using assms(2) by (simp_all add: ring_ok_def)
  have d: "x \<notin> set xs" using r(2) by (simp add: ring_at_Cons)
  have set: "set xs = ran ((activeIssuers b)(i := None))"
    using ran_remove [OF buffer_ok_parts(2) [OF assms(1)] assms(3)] assms(2) d by (auto simp: ring_ok_def)
  show ?thesis
  proof (cases xs)
    case Nil
    then have "ringRemove x (Some x, bb_heap ?b) = Some (None, bb_heap ?b)" using r(2) by (simp add: ringRemove_def ring_at_Cons)
    then show ?thesis using assms(3) r(1) set Nil by (simp add: RemoveIssuerQueue_def removeElement_def ring_ok_def)
  next
    case (Cons y ys)
    from ringRemove_current [of "bb_heap ?b" x y ys] r(2) Cons obtain h where
      "ringRemove x (Some x, bb_heap ?b) = Some (Some y, h)" "ring_at h (y # ys)" by auto
    then show ?thesis using assms(3) r(1) set Cons by (simp add: RemoveIssuerQueue_def removeElement_def ring_ok_def)
  qed
qed

text \<open>
  C37. Removing the queue of an issuer that is not the current one of the ring leaves its element in
  the ring and unlinks the elements between the current one and it, although their issuers stay
  active.
\<close>

theorem RemoveIssuerQueue_unlinks_active:
  assumes "buffer_ok b" "ring_ok b (x # ys @ r # zs)" "activeIssuers b i = Some r"
  shows "\<exists>b'. RemoveIssuerQueue i b = Inr b' \<and> Buffer_ForEach b' = Some (x # r # zs) \<and>
    ran (activeIssuers b') = set (x # ys @ zs)"
proof -
  let ?b = "setQueue r (IssuerQueue_Clear (queueAt b r, bb_counts b)) b"
  have p: "bb_ring ?b = Some x" "ring_at (bb_heap ?b) (x # ys @ r # zs)" using assms(2) by (simp_all add: ring_ok_def)
  from ringRemove_other_ring [OF p(2)] obtain h where
    h: "ringRemove r (Some x, bb_heap ?b) = Some (Some x, h)" "ring_at h (x # r # zs)" by blast
  let ?b' = "?b\<lparr>bb_ring := Some x, bb_heap := h, activeIssuers := (activeIssuers b)(i := None)\<rparr>"
  have "RemoveIssuerQueue i b = Inr ?b'"
    using assms(3) p(1) h(1) by (simp add: RemoveIssuerQueue_def removeElement_def)
  moreover have "Buffer_ForEach ?b' = Some (x # r # zs)"
    using h(2) by (simp add: Buffer_ForEach_def ring_at_Cons ringRound_linked)
  moreover have "ran (activeIssuers ?b') = set (x # ys @ zs)"
    using ran_remove [OF buffer_ok_parts(2) [OF assms(1)] assms(3)] assms(2) p(2) by (auto simp: ring_ok_def ring_at_Cons)
  ultimately show ?thesis by blast
qed

lemma withIssuer_ok:
  assumes "buffer_ok b" "ring_ok b xs" "activeIssuers b i = None"
  shows "buffer_ok (withIssuer i b)" "ring_ok (withIssuer i b) (xs @ [rg_fresh (bb_heap b)])"
    "activeIssuers (withIssuer i b) = (activeIssuers b)(i \<mapsto> rg_fresh (bb_heap b))"
    "rg_fresh (bb_heap (withIssuer i b)) = Suc (rg_fresh (bb_heap b))"
proof -
  obtain p ring h where r: "ringInsert (NewIssuerQueue i) (bb_ring b, bb_heap b) = (p, ring, h)" by (metis surj_pair)
  note f = ringInsert_fields [OF r]
  have c: "CreateIssuerQueue i b = Inr (b\<lparr>bb_ring := ring, bb_heap := h, activeIssuers := (activeIssuers b)(i \<mapsto> p)\<rparr>, p)"
    using assms(3) r by (simp add: CreateIssuerQueue_def)
  then have w: "withIssuer i b = b\<lparr>bb_ring := ring, bb_heap := h, activeIssuers := (activeIssuers b)(i \<mapsto> p)\<rparr>"
    by (simp add: withIssuer_def)
  show "buffer_ok (withIssuer i b)" using CreateIssuerQueue_ok(1) [OF assms(1) c] by (simp add: w)
  show "ring_ok (withIssuer i b) (xs @ [rg_fresh (bb_heap b)])" using CreateIssuerQueue_ring [OF assms(1,2) c] f(1) by (simp add: w)
  show "activeIssuers (withIssuer i b) = (activeIssuers b)(i \<mapsto> rg_fresh (bb_heap b))"
    "rg_fresh (bb_heap (withIssuer i b)) = Suc (rg_fresh (bb_heap b))" using f by (simp_all add: w)
qed

definition demo_buffer :: basic_buffer where
  "demo_buffer = withIssuer 9 (withIssuer 8 (withIssuer 7 NewBasicBuffer))"

lemma demo_buffer_ok:
  "buffer_ok demo_buffer" "ring_ok demo_buffer [0, 1, 2]" "activeIssuers demo_buffer = [7 \<mapsto> 0, 8 \<mapsto> 1, 9 \<mapsto> 2]"
proof -
  have n: "activeIssuers NewBasicBuffer = Map.empty" "rg_fresh (bb_heap NewBasicBuffer) = 0" by (simp_all add: NewBasicBuffer_def)
  note a = withIssuer_ok [OF NewBasicBuffer_ok ring_ok_new, of 7, unfolded n, OF refl]
  note b = withIssuer_ok [OF a(1,2), of 8, unfolded a(3,4)]
  note c = withIssuer_ok [OF b(1,2), of 9, unfolded b(3,4)]
  show "buffer_ok demo_buffer" "ring_ok demo_buffer [0, 1, 2]" "activeIssuers demo_buffer = [7 \<mapsto> 0, 8 \<mapsto> 1, 9 \<mapsto> 2]"
    using a b c by (simp_all add: demo_buffer_def numeral_2_eq_2)
qed

text \<open>
  In a buffer with the issuers 7, 8 and 9, of which 7 is current, removing issuer 9 leaves a ring with the
  elements of 7 and 9; the queue of issuer 8 is active but no longer in the ring.
\<close>

theorem RemoveIssuerQueue_unlinks_active_witness:
  "\<exists>b'. RemoveIssuerQueue 9 demo_buffer = Inr b' \<and> Buffer_ForEach b' = Some [0, 2] \<and> ran (activeIssuers b') = {0, 1}"
  using RemoveIssuerQueue_unlinks_active [of demo_buffer 0 "[1]" 2 "[]" 9] demo_buffer_ok by simp

section \<open>Dropping blocks\<close>

text \<open>
  What keeps the loop that drops blocks from panicking: the work of every block is positive, and the
  work of a queue fits 32 bits, so that a queue has work exactly when it has blocks.
\<close>

definition queue_small :: "issuer_queue \<Rightarrow> bool" where
  "queue_small q \<longleftrightarrow> (\<forall>b\<in>#queue_blocks q. blk_WorkScore b \<noteq> 0) \<and> (\<Sum>b\<in>#queue_blocks q. unat (blk_WorkScore b)) < 2 ^ 32"

definition allBlocks :: "basic_buffer \<Rightarrow> block multiset" where
  "allBlocks b = (\<Sum>i\<in>dom (activeIssuers b). queue_blocks (activeQueue b i))"

lemma work_of_nat: "work_of M = word_of_nat (\<Sum>b\<in>#M. unat (blk_WorkScore b))"
  by (induction M) (simp_all add: unsigned_ucast_eq)

lemma size_le_work:
  "\<forall>b\<in>#M. blk_WorkScore b \<noteq> 0 \<Longrightarrow> size M \<le> (\<Sum>b\<in>#M. unat (blk_WorkScore b))"
proof (induction M)
  case (add b M)
  then have "1 \<le> unat (blk_WorkScore b)" by (simp add: unat_gt_0 Suc_leI)
  then show ?case using add by simp
qed simp

lemma queue_small_work:
  assumes "queue_ok q" "queue_small q"
  shows "IssuerQueue_Work q = 0 \<longleftrightarrow> queue_blocks q = {#}" "0 < IssuerQueue_Size q \<longleftrightarrow> queue_blocks q \<noteq> {#}"
proof -
  obtain n where n: "n = (\<Sum>b\<in>#queue_blocks q. unat (blk_WorkScore b))" by blast
  have w: "iq_work q = word_of_nat n" using assms(1) work_of_nat n unfolding queue_ok_def by metis
  have b: "size (queue_blocks q) \<le> n" "n < 2 ^ 32" using assms(2) size_le_work n by (auto simp: queue_small_def)
  have "take_bit 64 n = n" using b(2) by (simp add: take_bit_nat_eq_self)
  then have "IssuerQueue_Work q = word_of_nat n" by (simp add: IssuerQueue_Work_def w unsigned_of_nat)
  then have "unat (IssuerQueue_Work q) = n" using b(2) by (simp add: unat_of_nat)
  moreover have "n = 0 \<longleftrightarrow> queue_blocks q = {#}"
  proof
    assume "n = 0"
    then show "queue_blocks q = {#}" using b(1) by simp
  qed (simp add: n)
  ultimately show "IssuerQueue_Work q = 0 \<longleftrightarrow> queue_blocks q = {#}" by (metis unat_eq_0)
  have "iq_size q = word_of_int (int (size (queue_blocks q)))" using assms(1) by (simp add: queue_ok_def)
  moreover have "in_i64 (int (size (queue_blocks q)))" using b in_i64_nat [of "size (queue_blocks q)"] by simp
  ultimately have "IssuerQueue_Size q = int (size (queue_blocks q))" unfolding IssuerQueue_Size_def by (metis sint_word_of_int_64)
  then show "0 < IssuerQueue_Size q \<longleftrightarrow> queue_blocks q \<noteq> {#}" by (simp add: nonempty_has_size)
qed

text \<open>The longest queue holds a block when some queue of the ring does.\<close>

definition longestNext :: "issuer_queue ring_heap \<Rightarrow> (account_id \<Rightarrow> i64) \<Rightarrow> addr \<Rightarrow> addr \<Rightarrow> nat option \<Rightarrow> account_id \<Rightarrow> account_id option" where
  "longestNext h quantumFunc start n maxScale maxIssuerID =
     (if n = start then Some maxIssuerID else longestLoop h quantumFunc start n maxScale maxIssuerID)"

lemma longestLoop_step:
  assumes "queue_ok (rg_value h r)" "queue_small (rg_value h r)"
  obtains scale where "0 < scale \<longleftrightarrow> queue_blocks (rg_value h r) \<noteq> {#}"
    "longestLoop h quantumFunc start r maxScale maxIssuerID =
      (if 0 < sint (quantumFunc (iq_issuerID (rg_value h r))) then
         if maxScale = None \<or> the maxScale < scale then longestNext h quantumFunc start (rg_next h r) (Some scale) (iq_issuerID (rg_value h r))
         else longestNext h quantumFunc start (rg_next h r) maxScale maxIssuerID
       else if queue_blocks (rg_value h r) \<noteq> {#} then Some (iq_issuerID (rg_value h r))
       else longestNext h quantumFunc start (rg_next h r) maxScale maxIssuerID)"
proof
  let ?scale = "float_quot (unat (IssuerQueue_Work (rg_value h r))) (unat (quantumFunc (iq_issuerID (rg_value h r))))"
  note q = queue_small_work [OF assms]
  show "0 < ?scale \<longleftrightarrow> queue_blocks (rg_value h r) \<noteq> {#}"
    using q(1) float_quot_pos [of "unat (IssuerQueue_Work (rg_value h r))"] by (cases "IssuerQueue_Work (rg_value h r) = 0") (auto simp: unat_gt_0)
  show "longestLoop h quantumFunc start r maxScale maxIssuerID =
      (if 0 < sint (quantumFunc (iq_issuerID (rg_value h r))) then
         if maxScale = None \<or> the maxScale < ?scale then longestNext h quantumFunc start (rg_next h r) (Some ?scale) (iq_issuerID (rg_value h r))
         else longestNext h quantumFunc start (rg_next h r) maxScale maxIssuerID
       else if queue_blocks (rg_value h r) \<noteq> {#} then Some (iq_issuerID (rg_value h r))
       else longestNext h quantumFunc start (rg_next h r) maxScale maxIssuerID)"
    by (subst longestLoop.simps) (simp add: Let_def q(2) longestNext_def split: option.split)
qed

lemma longestLoop_nonempty:
  assumes "linked h r ys start" "start \<notin> set ys" "\<forall>a\<in>set (r # ys). queue_ok (rg_value h a) \<and> queue_small (rg_value h a)"
    and "(\<exists>m>0. maxScale = Some m) \<and> (\<exists>a\<in>S. iq_issuerID (rg_value h a) = maxIssuerID \<and> queue_blocks (rg_value h a) \<noteq> {#}) \<or>
      maxScale \<in> {None, Some 0} \<and> (\<exists>a\<in>set (r # ys). queue_blocks (rg_value h a) \<noteq> {#})"
    and "set (r # ys) \<subseteq> S"
  shows "\<exists>a\<in>S. queue_blocks (rg_value h a) \<noteq> {#} \<and>
    longestLoop h quantumFunc start r maxScale maxIssuerID = Some (iq_issuerID (rg_value h a))"
  using assms
proof (induction ys arbitrary: r maxScale maxIssuerID)
  case Nil
  have n: "rg_next h r = start" using Nil(1) by simp
  obtain scale where s: "0 < scale \<longleftrightarrow> queue_blocks (rg_value h r) \<noteq> {#}" "longestLoop h quantumFunc start r maxScale maxIssuerID =
      (if 0 < sint (quantumFunc (iq_issuerID (rg_value h r))) then
         if maxScale = None \<or> the maxScale < scale then Some (iq_issuerID (rg_value h r)) else Some maxIssuerID
       else if queue_blocks (rg_value h r) \<noteq> {#} then Some (iq_issuerID (rg_value h r)) else Some maxIssuerID)"
    by (rule longestLoop_step [of h r quantumFunc start maxScale maxIssuerID]) (use Nil(3) in \<open>simp_all add: n longestNext_def\<close>)
  show ?case using Nil(4,5) s by (auto split: if_splits)
next
  case (Cons y ys)
  have y: "rg_next h r = y" "y \<noteq> start" "linked h y ys start" "start \<notin> set ys" using Cons(2,3) by auto
  obtain scale where s: "0 < scale \<longleftrightarrow> queue_blocks (rg_value h r) \<noteq> {#}" "longestLoop h quantumFunc start r maxScale maxIssuerID =
      (if 0 < sint (quantumFunc (iq_issuerID (rg_value h r))) then
         if maxScale = None \<or> the maxScale < scale then longestLoop h quantumFunc start y (Some scale) (iq_issuerID (rg_value h r))
         else longestLoop h quantumFunc start y maxScale maxIssuerID
       else if queue_blocks (rg_value h r) \<noteq> {#} then Some (iq_issuerID (rg_value h r))
       else longestLoop h quantumFunc start y maxScale maxIssuerID)"
    by (rule longestLoop_step [of h r quantumFunc start maxScale maxIssuerID]) (use Cons(4) y(1,2) in \<open>simp_all add: longestNext_def\<close>)
  have r: "r \<in> S" and sub: "set (y # ys) \<subseteq> S" using Cons(6) by auto
  note IH = Cons(1) [OF y(3,4) _ _ sub]
  have ok: "\<forall>a\<in>set (y # ys). queue_ok (rg_value h a) \<and> queue_small (rg_value h a)" using Cons(4) by simp
  consider (brk) "\<not> 0 < sint (quantumFunc (iq_issuerID (rg_value h r)))" "queue_blocks (rg_value h r) \<noteq> {#}"
    | (larger) "0 < sint (quantumFunc (iq_issuerID (rg_value h r)))" "maxScale = None \<or> the maxScale < scale"
    | (same) "longestLoop h quantumFunc start r maxScale maxIssuerID = longestLoop h quantumFunc start y maxScale maxIssuerID"
      "queue_blocks (rg_value h r) = {#} \<or> maxScale \<noteq> None \<and> scale \<le> the maxScale"
    using s(2)
    by (cases "0 < sint (quantumFunc (iq_issuerID (rg_value h r)))"; cases "queue_blocks (rg_value h r) = {#}";
        cases "maxScale = None \<or> the maxScale < scale") (auto simp: not_less)
  then show ?case
  proof cases
    case brk
    then show ?thesis using s(2) r by auto
  next
    case larger
    have "(\<exists>m>0. Some scale = Some m) \<and> (\<exists>a\<in>S. iq_issuerID (rg_value h a) = iq_issuerID (rg_value h r) \<and> queue_blocks (rg_value h a) \<noteq> {#}) \<or>
      Some scale \<in> {None, Some 0} \<and> (\<exists>a\<in>set (y # ys). queue_blocks (rg_value h a) \<noteq> {#})"
      using Cons(5) s(1) larger(2) r by (cases "scale = 0") auto
    from IH [OF ok this] show ?thesis using s(2) larger by simp
  next
    case same
    have "(\<exists>m>0. maxScale = Some m) \<and> (\<exists>a\<in>S. iq_issuerID (rg_value h a) = maxIssuerID \<and> queue_blocks (rg_value h a) \<noteq> {#}) \<or>
      maxScale \<in> {None, Some 0} \<and> (\<exists>a\<in>set (y # ys). queue_blocks (rg_value h a) \<noteq> {#})"
      using Cons(5) s(1) same(2) by auto
    from IH [OF ok this] show ?thesis using same(1) by simp
  qed
qed

text \<open>All blocks of the active queues.\<close>

lemma allBlocks_setQueue:
  assumes "buffer_ok b" "activeIssuers b i = Some a"
  shows "allBlocks (setQueue a s b) + queue_blocks (queueAt b a) = allBlocks b + queue_blocks (fst s)"
proof -
  have fin: "finite (dom (activeIssuers b))" "i \<in> dom (activeIssuers b)" using assms buffer_ok_parts(1) by auto
  have other: "activeQueue (setQueue a s b) j = activeQueue b j" if j: "j \<in> dom (activeIssuers b) - {i}" for j
  proof -
    obtain k where k: "activeIssuers b j = Some k" "j \<noteq> i" using j by auto
    then have "k \<noteq> a" using buffer_ok_queue(2) [OF assms(1)] assms(2) by metis
    then show ?thesis using k by simp
  qed
  have "(\<Sum>j\<in>dom (activeIssuers b) - {i}. queue_blocks (activeQueue (setQueue a s b) j)) =
      (\<Sum>j\<in>dom (activeIssuers b) - {i}. queue_blocks (activeQueue b j))" using other by (intro sum.cong) auto
  then show ?thesis using fin assms(2) by (simp add: allBlocks_def sum.remove)
qed

lemma size_sum:
  fixes f :: "'i \<Rightarrow> block multiset"
  shows "finite A \<Longrightarrow> (\<Sum>i\<in>A. word_of_nat (size (f i)) :: i64) = word_of_nat (size (\<Sum>i\<in>A. f i))"
  by (induction A rule: finite_induct) simp_all

lemma totalBlocksCount_size: "buffer_ok b \<Longrightarrow> totalBlocksCount (bb_counts b) = word_of_nat (size (allBlocks b))"
  using buffer_ok_parts(1,4) [of b] size_sum by (simp add: allBlocks_def)

lemma TotalBlocksCount_empty: "buffer_ok b \<Longrightarrow> allBlocks b = {#} \<Longrightarrow> TotalBlocksCount b = 0"
  by (simp add: TotalBlocksCount_def totalBlocksCount_size)

lemma queue_small_subset: "queue_small q \<Longrightarrow> queue_blocks q = add_mset t (queue_blocks q') \<Longrightarrow> queue_small q'"
  by (auto simp: queue_small_def)

lemma ring_active:
  assumes "buffer_ok b" "ring_ok b xs" "a \<in> set xs"
  shows "activeIssuers b (iq_issuerID (queueAt b a)) = Some a"
proof -
  obtain i where "activeIssuers b i = Some a" using assms(2,3) by (auto simp: ring_ok_def ran_def)
  then show ?thesis using buffer_ok_queue(2) [OF assms(1)] by metis
qed

text \<open>One round of the loop finds a queue with a block and drops one of its blocks.\<close>

lemma drop_one:
  assumes "queue_env_ok E" "buffer_ok b" "ring_ok b xs" "\<forall>a\<in>set xs. queue_small (queueAt b a)"
    and "\<forall>i\<in>dom (activeIssuers b). i \<noteq> EmptyAccountID" "allBlocks b \<noteq> {#}"
  shows "\<exists>i b1 t. mustLongestQueueIssuerID quantumFunc b = Some (Inr i) \<and> dropLongest E i b = Inr (b1, t) \<and>
    allBlocks b = add_mset t (allBlocks b1) \<and> ring_ok b1 xs \<and> (\<forall>a\<in>set xs. queue_small (queueAt b1 a))"
proof -
  obtain j where j: "j \<in> dom (activeIssuers b)" "queue_blocks (activeQueue b j) \<noteq> {#}"
    using assms(6) buffer_ok_parts(1) [OF assms(2)] by (auto simp: allBlocks_def sum_eq_empty_iff)
  then obtain k where k: "activeIssuers b j = Some k" "queue_blocks (queueAt b k) \<noteq> {#}" by force
  have kx: "k \<in> set xs" using ranI [of "activeIssuers b", OF k(1)] assms(3) by (simp add: ring_ok_def)
  then obtain x ys where x: "xs = x # ys" by (cases xs) auto
  then have r: "bb_ring b = Some x" "linked (bb_heap b) x ys x" "x \<notin> set ys" using assms(3) by (auto simp: ring_ok_def ring_at_Cons)
  have q: "queue_ok (queueAt b a)" if "a \<in> set xs" for a using ring_active [OF assms(2,3) that] buffer_ok_queue(1) [OF assms(2)] by blast
  from longestLoop_nonempty [OF r(2,3), of None "set xs" EmptyAccountID quantumFunc] obtain c where
    c: "c \<in> set xs" "queue_blocks (queueAt b c) \<noteq> {#}"
      "longestLoop (bb_heap b) quantumFunc x x None EmptyAccountID = Some (iq_issuerID (queueAt b c))"
    using q assms(4) k(2) kx x by auto
  let ?i = "iq_issuerID (queueAt b c)"
  have act: "activeIssuers b ?i = Some c" by (rule ring_active [OF assms(2,3) c(1)])
  then have "?i \<noteq> EmptyAccountID" using assms(5) by blast
  then have m: "mustLongestQueueIssuerID quantumFunc b = Some (Inr ?i)" using c(3) r(1) by (simp add: mustLongestQueueIssuerID_def Current_def)
  from RemoveTail_ok [OF assms(1) q [OF c(1)] c(2), of "bb_counts b"] obtain s t where
    t: "RemoveTail E (queueAt b c, bb_counts b) = Inr (s, t)" "queue_blocks (queueAt b c) = add_mset t (queue_blocks (fst s))" by blast
  have d: "dropLongest E ?i b = Inr (setQueue c s b, t)" using t(1) act by (simp add: dropLongest_def Buffer_IssuerQueue_def)
  have "allBlocks b = add_mset t (allBlocks (setQueue c s b))" using allBlocks_setQueue [OF assms(2) act, of s] t(2) by simp
  moreover have "\<forall>a\<in>set xs. queue_small (queueAt (setQueue c s b) a)" using assms(4) queue_small_subset [OF _ t(2)] c(1) by simp
  ultimately show ?thesis using m d assms(3) by auto
qed

lemma dropTail_total:
  assumes "queue_env_ok E" "buffer_ok b" "ring_ok b xs" "\<forall>a\<in>set xs. queue_small (queueAt b a)"
    and "\<forall>i\<in>dom (activeIssuers b). i \<noteq> EmptyAccountID" "0 \<le> maxBuffer"
  shows "\<exists>b' d. dropTail E quantumFunc maxBuffer b dropped = Some (Inr (b', dropped @ d)) \<and>
    allBlocks b = allBlocks b' + mset d \<and> ring_ok b' xs \<and> TotalBlocksCount b' \<le> maxBuffer"
  using assms(2-5)
proof (induction "size (allBlocks b)" arbitrary: b dropped rule: less_induct)
  case less
  show ?case
  proof (cases "TotalBlocksCount b > maxBuffer")
    case False
    then show ?thesis using less(3) by (subst dropTail.simps) (auto intro!: exI [of _ "[]"])
  next
    case True
    then have "allBlocks b \<noteq> {#}" using TotalBlocksCount_empty [OF less(2)] assms(6) by auto
    from drop_one [OF assms(1) less(2-5) this, of quantumFunc] obtain i b1 t where
      i: "mustLongestQueueIssuerID quantumFunc b = Some (Inr i)" "dropLongest E i b = Inr (b1, t)"
        "allBlocks b = add_mset t (allBlocks b1)" "ring_ok b1 xs" "\<forall>a\<in>set xs. queue_small (queueAt b1 a)" by blast
    note ok = dropLongest_ok [OF assms(1) less(2) i(2)]
    have "size (allBlocks b1) < size (allBlocks b)" using i(3) by simp
    from less(1) [OF this ok(1) i(4,5), of "dropped @ [t]"] less(5) ok(2) obtain b' d where
      r: "dropTail E quantumFunc maxBuffer b1 (dropped @ [t]) = Some (Inr (b', (dropped @ [t]) @ d))"
        "allBlocks b1 = allBlocks b' + mset d" "ring_ok b' xs" "TotalBlocksCount b' \<le> maxBuffer" by auto
    have "dropTail E quantumFunc maxBuffer b dropped = Some (Inr (b', dropped @ (t # d)))"
      using True i(1,2) r(1) by (subst dropTail.simps) simp
    moreover have "allBlocks b = allBlocks b' + mset (t # d)" using i(3) r(2) by simp
    ultimately show ?thesis using r(3,4) by blast
  qed
qed

lemma Submit_total:
  assumes "queue_env_ok E" "buffer_ok b" "ring_ok b xs" "\<forall>i\<in>dom (activeIssuers b). i \<noteq> EmptyAccountID" "0 \<le> maxBuffer"
    and "activeIssuers b (blk_IssuerID blk) = Some a" "nonReadyMap (queueAt b a) (blk_ID blk) = None"
    and "\<forall>x\<in>set xs. queue_small (queueAt b x)" "blk_WorkScore blk \<noteq> 0"
    and "(\<Sum>x\<in>#queue_blocks (queueAt b a). unat (blk_WorkScore x)) + unat (blk_WorkScore blk) < 2 ^ 32"
  shows "\<exists>b' d. Buffer_Submit E blk a quantumFunc maxBuffer b = Some (Inr (b', d, True)) \<and>
    TotalBlocksCount b' \<le> maxBuffer \<and> add_mset blk (allBlocks b) = allBlocks b' + mset d \<and> buffer_ok b' \<and> ring_ok b' xs"
proof -
  note q = buffer_ok_queue [OF assms(2,6)]
  obtain s where s: "IssuerQueue_Submit blk (queueAt b a, bb_counts b) = Inr (s, True)"
    using assms(7) q(2) by (simp add: IssuerQueue_Submit_def)
  note ok = Submit_ok [OF q(1) s]
  let ?b = "setQueue a s b"
  have b: "buffer_ok ?b" by (rule setQueue_ok [OF assms(2,6) ok(1,2)])
  have all: "allBlocks ?b = add_mset blk (allBlocks b)" using allBlocks_setQueue [OF assms(2,6), of s] ok(3) by simp
  have ax: "a \<in> set xs" using assms(3,6) by (auto simp: ring_ok_def ran_def)
  have small: "\<forall>x\<in>set xs. queue_small (queueAt ?b x)"
    using assms(8-10) ax ok(3) by (auto simp: queue_small_def add.commute)
  show ?thesis
  proof (cases "TotalBlocksCount ?b > maxBuffer")
    case True
    from dropTail_total [OF assms(1) b _ small _ assms(5), of quantumFunc "[]"] assms(3,4) obtain b' d where
      d: "dropTail E quantumFunc maxBuffer ?b [] = Some (Inr (b', d))" "allBlocks ?b = allBlocks b' + mset d" "ring_ok b' xs"
        "TotalBlocksCount b' \<le> maxBuffer" by auto
    have "buffer_ok b'" using dropTail_ok [OF d(1) assms(1) b refl] by simp
    then show ?thesis using True s d all by (simp add: Buffer_Submit_def)
  next
    case False
    then show ?thesis using s b all assms(3) by (simp add: Buffer_Submit_def)
  qed
qed


lemma demo_buffer_queues: "queueAt demo_buffer 0 = NewIssuerQueue 7" "queueAt demo_buffer 1 = NewIssuerQueue 8" "queueAt demo_buffer 2 = NewIssuerQueue 9"
  by (simp_all add: demo_buffer_def withIssuer_def CreateIssuerQueue_def NewBasicBuffer_def ringInsert_def ring_New_def ring_Link_def Let_def)

lemma demo_buffer_blocks: "allBlocks demo_buffer = {#}" "\<forall>x\<in>set [0, 1, 2]. queue_small (queueAt demo_buffer x)"
  using demo_buffer_ok(3) by (auto simp: allBlocks_def demo_buffer_queues demo_buffer_queues(2) [unfolded One_nat_def] queue_small_def sum_eq_empty_iff)

lemma only_block_dropped:
  assumes "{#x#} = allBlocks b + mset d" "TotalBlocksCount b \<le> 0" "buffer_ok b"
  shows "d = [x]"
proof -
  have "allBlocks b = {#}"
  proof (rule ccontr)
    assume "allBlocks b \<noteq> {#}"
    then have "0 < size (allBlocks b)" by (simp add: nonempty_has_size)
    moreover have "1 = size (allBlocks b) + length d" using arg_cong [OF assms(1), of size] by simp
    ultimately have "size (allBlocks b) = 1" by linarith
    then show False using assms(2,3) by (simp add: TotalBlocksCount_def totalBlocksCount_size)
  qed
  then have "mset d = mset [x]" using assms(1) by simp
  then show ?thesis by (simp only: mset_single_iff_right mset.simps) auto
qed

lemma demo_submit:
  fixes blk defines "blk \<equiv> queue_block 1 7 10 1"
  shows "activeIssuers demo_buffer (blk_IssuerID blk) = Some 0" "\<forall>i\<in>dom (activeIssuers demo_buffer). i \<noteq> EmptyAccountID"
    "nonReadyMap (queueAt demo_buffer 0) (blk_ID blk) = None" "blk_WorkScore blk \<noteq> 0"
    "(\<Sum>x\<in>#queue_blocks (queueAt demo_buffer 0). unat (blk_WorkScore x)) + unat (blk_WorkScore blk) < 2 ^ 32"
  by (simp_all add: blk_def demo_buffer_ok(3) queue_block_def EmptyAccountID_def demo_buffer_queues) (simp add: NewIssuerQueue_def)


end
