(* ===== verification/ValidatorQueues.thy ===== *)
theory ValidatorQueues
  imports BasicBuffer
begin

text \<open>
  The buffer of the validation blocks: \<^verbatim>\<open>scheduler/drr/validatorqueue.go\<close> and \<^verbatim>\<open>validatorbuffer.go\<close>.

  A queue is modelled together with the size of the buffer, which its callback updates.  The token
  bucket of a queue, a floating-point number that depends on the time, is left out.  \<^verbatim>\<open>Shutdown\<close> clears a
  copy of the queue and the queue is removed from the buffer at once, so its effect on the buffer is that
  of \<^verbatim>\<open>Clear\<close> on the size.  \<open>validator_step\<close> is what the scheduler does to the buffer over time.
\<close>


section \<open>State\<close>

record validator_queue =
  vq_accountID :: account_id
  submitted :: "block_id \<rightharpoonup> block"
  inbox :: "block list"
  vq_size :: i64
  vq_blockChan :: "block option"

text \<open>A queue together with the size of the buffer, which its callback updates.\<close>

type_synonym validator_state = "validator_queue \<times> i64"

section \<open>Operations of a queue\<close>

definition NewValidatorQueue :: "account_id \<Rightarrow> validator_queue" where
  "NewValidatorQueue accountID =
     \<lparr>vq_accountID = accountID, submitted = Map.empty, inbox = [], vq_size = 0, vq_blockChan = None\<rparr>"

definition validatorSizeChanged :: "i64 \<Rightarrow> validator_state \<Rightarrow> validator_state" where
  "validatorSizeChanged totalSizeDelta = (\<lambda>(q, n). (q\<lparr>vq_size := vq_size q + totalSizeDelta\<rparr>, n + totalSizeDelta))"

definition ValidatorQueue_Size :: "validator_queue \<Rightarrow> int" where
  "ValidatorQueue_Size q = sint (vq_size q)"

definition ValidatorQueue_unsubmit :: "block \<Rightarrow> validator_state \<Rightarrow> validator_state \<times> bool" where
  "ValidatorQueue_unsubmit blk = (\<lambda>(q, n).
     if submitted q (blk_ID blk) = None then ((q, n), False)
     else (validatorSizeChanged (- 1) (q\<lparr>submitted := (submitted q)(blk_ID blk := None)\<rparr>, n), True))"

definition ValidatorQueue_Ready :: "queue_env \<Rightarrow> block \<Rightarrow> validator_queue \<Rightarrow> validator_queue \<times> bool" where
  "ValidatorQueue_Ready E blk q =
     (if submitted q (blk_ID blk) = None then (q, False)
      else (q\<lparr>submitted := (submitted q)(blk_ID blk := None), inbox := heap_Push (blockLess E) blk (inbox q)\<rparr>, True))"

definition ValidatorQueue_PopFront :: "queue_env \<Rightarrow> validator_state \<Rightarrow> validator_state \<times> block option" where
  "ValidatorQueue_PopFront E = (\<lambda>(q, n).
     if inbox q = [] then ((q, n), None)
     else let (blk, h) = heap_Pop (blockLess E) (inbox q)
          in (validatorSizeChanged (- 1) (q\<lparr>inbox := h\<rparr>, n), Some blk))"

definition ScheduleNext :: "queue_env \<Rightarrow> validator_state \<Rightarrow> validator_state \<times> bool" where
  "ScheduleNext E = (\<lambda>(q, n).
     if vq_blockChan q \<noteq> None then ((q, n), False)
     else case ValidatorQueue_PopFront E (q, n) of
            ((q, n), Some blockToSchedule) \<Rightarrow> ((q\<lparr>vq_blockChan := Some blockToSchedule\<rparr>, n), True)
          | ((q, n), None) \<Rightarrow> ((q, n), False))"

definition oldestSubmittedBlock :: "queue_env \<Rightarrow> validator_queue \<Rightarrow> block option" where
  "oldestSubmittedBlock E q =
     fold (\<lambda>i oldest.
             case submitted q i of
               None \<Rightarrow> oldest
             | Some blk \<Rightarrow>
                 (case oldest of
                    None \<Rightarrow> Some blk
                  | Some old \<Rightarrow> if blk_IssuingTime old > blk_IssuingTime blk then Some blk else oldest))
       (iterNonReady E (dom (submitted q))) None"

definition inboxTail :: "queue_env \<Rightarrow> validator_queue \<Rightarrow> nat option" where
  "inboxTail E q =
     (let h = inbox q
      in if length h = 0 then None
         else Some (fold (\<lambda>i tail. if \<not> blockLess E (h ! i) (h ! tail) then i else tail) [0..<length h] 0))"

definition ValidatorQueue_RemoveTail :: "queue_env \<Rightarrow> validator_state \<Rightarrow> validator_state \<times> block option" where
  "ValidatorQueue_RemoveTail E = (\<lambda>(q, n).
     let oldest = oldestSubmittedBlock E q;
         tail = inboxTail E q;
         newer = (\<lambda>blk. case tail of
                          None \<Rightarrow> True
                        | Some t \<Rightarrow> keyCompareTo E (blk_IssuingTime (inbox q ! t)) (blk_IssuingTime blk) > 0);
         dropTail =
           (case tail of
              None \<Rightarrow> ((q, n), None)
            | Some t \<Rightarrow>
                let (blk, h) = heap_Remove (blockLess E) t (inbox q)
                in (validatorSizeChanged (- 1) (q\<lparr>inbox := h\<rparr>, n), Some blk))
     in case oldest of
          Some blk \<Rightarrow> if newer blk then (fst (ValidatorQueue_unsubmit blk (q, n)), Some blk) else dropTail
        | None \<Rightarrow> dropTail)"

definition ValidatorQueue_Submit ::
  "queue_env \<Rightarrow> block \<Rightarrow> int \<Rightarrow> validator_state \<Rightarrow> queue_error + (validator_state \<times> block option \<times> bool)" where
  "ValidatorQueue_Submit E blk maxBuffer = (\<lambda>(q, n).
     if vq_accountID q \<noteq> blk_IssuerID blk then Inl (PanicIssuerMismatch (vq_accountID q) (blk_IssuerID blk))
     else if submitted q (blk_ID blk) \<noteq> None then Inr ((q, n), None, False)
     else
       let (q, n) = validatorSizeChanged 1 (q\<lparr>submitted := (submitted q)(blk_ID blk \<mapsto> blk)\<rparr>, n)
       in if ValidatorQueue_Size q > maxBuffer then
            let (s, dropped) = ValidatorQueue_RemoveTail E (q, n) in Inr (s, dropped, True)
          else Inr ((q, n), None, True))"

definition ValidatorQueue_Clear :: "validator_state \<Rightarrow> validator_state" where
  "ValidatorQueue_Clear = (\<lambda>(q, n). validatorSizeChanged (- vq_size q) (q\<lparr>submitted := Map.empty, inbox := []\<rparr>, n))"

section \<open>The buffer\<close>

record validator_buffer =
  vb_buffer :: "account_id \<rightharpoonup> validator_queue"
  vb_size :: i64

definition NewValidatorBuffer :: validator_buffer where
  "NewValidatorBuffer = \<lparr>vb_buffer = Map.empty, vb_size = 0\<rparr>"

definition ValidatorBuffer_Size :: "validator_buffer \<Rightarrow> int" where
  "ValidatorBuffer_Size b = sint (vb_size b)"

definition putQueue :: "account_id \<Rightarrow> validator_state \<Rightarrow> validator_buffer \<Rightarrow> validator_buffer" where
  "putQueue i s b = b\<lparr>vb_buffer := (vb_buffer b)(i \<mapsto> fst s), vb_size := snd s\<rparr>"

definition ValidatorBuffer_GetOrCreate :: "account_id \<Rightarrow> validator_buffer \<Rightarrow> validator_buffer \<times> validator_queue" where
  "ValidatorBuffer_GetOrCreate accountID b =
     (case vb_buffer b accountID of
        Some q \<Rightarrow> (b, q)
      | None \<Rightarrow> let q = NewValidatorQueue accountID in (putQueue accountID (q, vb_size b) b, q))"

definition ValidatorBuffer_Ready :: "queue_env \<Rightarrow> block \<Rightarrow> validator_buffer \<Rightarrow> validator_buffer" where
  "ValidatorBuffer_Ready E blk b =
     (case vb_buffer b (blk_IssuerID blk) of
        None \<Rightarrow> b
      | Some q \<Rightarrow> putQueue (blk_IssuerID blk) (fst (ValidatorQueue_Ready E blk q), vb_size b) b)"

text \<open>The deletion of one queue: it is cleared, which takes its blocks off the size of the buffer, and removed.\<close>

definition deleteQueue :: "(validator_queue \<Rightarrow> bool) \<Rightarrow> account_id \<Rightarrow> validator_buffer \<Rightarrow> validator_buffer" where
  "deleteQueue predicate accountID b =
     (case vb_buffer b accountID of
        None \<Rightarrow> b
      | Some q \<Rightarrow>
          if predicate q then
            b\<lparr>vb_size := snd (ValidatorQueue_Clear (q, vb_size b)), vb_buffer := (vb_buffer b)(accountID := None)\<rparr>
          else b)"

definition ValidatorBuffer_Delete ::
  "(account_id set \<Rightarrow> account_id list) \<Rightarrow> (validator_queue \<Rightarrow> bool) \<Rightarrow> validator_buffer \<Rightarrow> validator_buffer" where
  "ValidatorBuffer_Delete iter predicate b = fold (deleteQueue predicate) (iter (dom (vb_buffer b))) b"

definition ValidatorBuffer_Clear :: "(account_id set \<Rightarrow> account_id list) \<Rightarrow> validator_buffer \<Rightarrow> validator_buffer" where
  "ValidatorBuffer_Clear iter b = ValidatorBuffer_Delete iter (\<lambda>_. True) b"

text \<open>The submission of a block to the queue of its issuer, as \<^verbatim>\<open>enqueueValidationBlock\<close> makes it, and one round of \<^verbatim>\<open>ScheduleNext\<close> over all queues.\<close>

definition submitValidationBlock ::
  "queue_env \<Rightarrow> block \<Rightarrow> int \<Rightarrow> validator_buffer \<Rightarrow> queue_error + (validator_buffer \<times> block option \<times> bool)" where
  "submitValidationBlock E blk maxBuffer b =
     (let (b, q) = ValidatorBuffer_GetOrCreate (blk_IssuerID blk) b
      in and_then (ValidatorQueue_Submit E blk maxBuffer (q, vb_size b)) (\<lambda>(s, dropped, wasSubmitted).
           Inr (putQueue (blk_IssuerID blk) s b, dropped, wasSubmitted)))"

definition scheduleQueue :: "queue_env \<Rightarrow> account_id \<Rightarrow> validator_buffer \<Rightarrow> validator_buffer" where
  "scheduleQueue E accountID b =
     (case vb_buffer b accountID of
        None \<Rightarrow> b
      | Some q \<Rightarrow> putQueue accountID (fst (ScheduleNext E (q, vb_size b))) b)"

definition scheduleValidators :: "queue_env \<Rightarrow> (account_id set \<Rightarrow> account_id list) \<Rightarrow> validator_buffer \<Rightarrow> validator_buffer" where
  "scheduleValidators E iter b = fold (scheduleQueue E) (iter (dom (vb_buffer b))) b"

section \<open>The invariant\<close>

definition validator_blocks :: "validator_queue \<Rightarrow> block multiset" where
  "validator_blocks q = mset_set (ran (submitted q)) + mset (inbox q)"

definition validator_ok :: "validator_queue \<Rightarrow> bool" where
  "validator_ok q \<longleftrightarrow> finite (dom (submitted q)) \<and>
     (\<forall>i b. submitted q i = Some b \<longrightarrow> blk_ID b = i) \<and>
     (\<forall>b\<in>#validator_blocks q. blk_IssuerID b = vq_accountID q) \<and>
     issuing.is_heap (length (inbox q)) (inbox q) \<and>
     vq_size q = word_of_nat (size (validator_blocks q))"

text \<open>What an operation does to the queue of an account: it keeps the invariant, and the size of the buffer follows.\<close>

definition size_follows :: "validator_state \<Rightarrow> validator_state \<Rightarrow> bool" where
  "size_follows s s' \<longleftrightarrow> validator_ok (fst s') \<and> vq_accountID (fst s') = vq_accountID (fst s) \<and>
     snd s' - snd s = vq_size (fst s') - vq_size (fst s)"

lemma validator_ok_map:
  assumes "validator_ok q"
  shows "finite (dom (submitted q))" "\<forall>i b. submitted q i = Some b \<longrightarrow> blk_ID b = i"
  using assms by (auto simp: validator_ok_def)

lemma NewValidatorQueue_ok [simp]: "validator_ok (NewValidatorQueue i)" "validator_blocks (NewValidatorQueue i) = {#}"
  "vq_accountID (NewValidatorQueue i) = i" "vq_size (NewValidatorQueue i) = 0"
  by (simp_all add: validator_ok_def NewValidatorQueue_def validator_blocks_def issuing.is_heap_def)

lemma validatorSizeChanged_ok:
  assumes "validator_ok q" "vq_accountID q' = vq_accountID q" "vq_size q' = vq_size q"
    and "finite (dom (submitted q'))" "\<forall>i b. submitted q' i = Some b \<longrightarrow> blk_ID b = i"
    and "issuing.is_heap (length (inbox q')) (inbox q')" "\<forall>b\<in>#validator_blocks q'. blk_IssuerID b = vq_accountID q"
    and "word_of_nat (size (validator_blocks q')) = word_of_nat (size (validator_blocks q)) + t"
  shows "size_follows (q, n) (validatorSizeChanged t (q', n))"
    "validator_blocks (fst (validatorSizeChanged t (q', n))) = validator_blocks q'"
  using assms by (simp_all add: size_follows_def validatorSizeChanged_def validator_ok_def validator_blocks_def)

lemma validator_unsubmit_ok:
  assumes "validator_ok q" "submitted q (blk_ID b) = Some b"
  shows "size_follows (q, n) (fst (ValidatorQueue_unsubmit b (q, n)))"
    "validator_blocks q = add_mset b (validator_blocks (fst (fst (ValidatorQueue_unsubmit b (q, n)))))"
proof -
  let ?q = "q\<lparr>submitted := (submitted q)(blk_ID b := None)\<rparr>"
  have B: "validator_blocks q = add_mset b (validator_blocks ?q)"
    unfolding validator_blocks_def using blocks_delete [OF validator_ok_map [OF assms(1)] assms(2)] by simp
  have r: "size_follows (q, n) (validatorSizeChanged (- 1) (?q, n)) \<and>
      validator_blocks (fst (validatorSizeChanged (- 1) (?q, n))) = validator_blocks ?q"
    by (intro conjI validatorSizeChanged_ok [OF assms(1)]; (unfold B)?) (use assms(1) B in \<open>auto simp: validator_ok_def\<close>)
  have "fst (ValidatorQueue_unsubmit b (q, n)) = validatorSizeChanged (- 1) (?q, n)"
    using assms(2) by (simp add: ValidatorQueue_unsubmit_def)
  then show "size_follows (q, n) (fst (ValidatorQueue_unsubmit b (q, n)))"
    "validator_blocks q = add_mset b (validator_blocks (fst (fst (ValidatorQueue_unsubmit b (q, n)))))"
    using r B by simp_all
qed

lemma validator_Ready_ok:
  assumes "queue_env_ok E" "validator_ok q" "\<And>x. submitted q (blk_ID b) = Some x \<Longrightarrow> x = b"
  shows "size_follows (q, n) (fst (ValidatorQueue_Ready E b q), n)"
    "validator_blocks (fst (ValidatorQueue_Ready E b q)) = validator_blocks q"
proof -
  have h: "issuing.is_heap (length (inbox q)) (inbox q)" using assms(2) by (simp add: validator_ok_def)
  note push = issuing.heap_Push_ok [OF h, of b]
  have "size_follows (q, n) (fst (ValidatorQueue_Ready E b q), n) \<and>
    validator_blocks (fst (ValidatorQueue_Ready E b q)) = validator_blocks q"
  proof (cases "submitted q (blk_ID b)")
    case None
    then show ?thesis using assms(2) by (simp add: ValidatorQueue_Ready_def size_follows_def)
  next
    case (Some x)
    then have m: "submitted q (blk_ID b) = Some b" using assms(3) by simp
    let ?q = "q\<lparr>submitted := (submitted q)(blk_ID b := None), inbox := heap_Push issuedBefore b (inbox q)\<rparr>"
    have B: "validator_blocks ?q = validator_blocks q"
      unfolding validator_blocks_def using blocks_delete [OF validator_ok_map [OF assms(2)] m] push(2) by simp
    have "validator_ok ?q" using assms(2) push(1) unfolding validator_ok_def B by auto
    then show ?thesis using B m assms(1) by (simp add: ValidatorQueue_Ready_def blockLess_eq size_follows_def)
  qed
  then show "size_follows (q, n) (fst (ValidatorQueue_Ready E b q), n)"
    "validator_blocks (fst (ValidatorQueue_Ready E b q)) = validator_blocks q" by blast+
qed

lemma validator_take_ok:
  assumes "validator_ok q" "mset (inbox q) = add_mset b (mset h)" "issuing.is_heap (length h) h"
  shows "size_follows (q, n) (validatorSizeChanged (- 1) (q\<lparr>inbox := h\<rparr>, n))"
    "validator_blocks q = add_mset b (validator_blocks (fst (validatorSizeChanged (- 1) (q\<lparr>inbox := h\<rparr>, n))))"
proof -
  let ?q = "q\<lparr>inbox := h\<rparr>"
  have B: "validator_blocks q = add_mset b (validator_blocks ?q)" using assms(2) by (simp add: validator_blocks_def)
  have "size_follows (q, n) (validatorSizeChanged (- 1) (?q, n)) \<and>
      validator_blocks (fst (validatorSizeChanged (- 1) (?q, n))) = validator_blocks ?q"
    by (intro conjI validatorSizeChanged_ok [OF assms(1)]; (unfold B)?) (use assms(1,3) B in \<open>auto simp: validator_ok_def\<close>)
  then show "size_follows (q, n) (validatorSizeChanged (- 1) (?q, n))"
    "validator_blocks q = add_mset b (validator_blocks (fst (validatorSizeChanged (- 1) (?q, n))))"
    using B by simp_all
qed

lemma validator_PopFront_ok:
  assumes "queue_env_ok E" "validator_ok q" "inbox q \<noteq> []"
  shows "\<exists>s b. ValidatorQueue_PopFront E (q, n) = (s, Some b) \<and> size_follows (q, n) s \<and>
    validator_blocks q = add_mset b (validator_blocks (fst s)) \<and> vq_blockChan (fst s) = vq_blockChan q \<and>
    b \<in> set (inbox q) \<and> (\<forall>x\<in>set (inbox q). blk_IssuingTime b \<le> blk_IssuingTime x)"
proof -
  obtain b h where p: "heap_Pop issuedBefore (inbox q) = (b, h)" by force
  have "issuing.is_heap (length (inbox q)) (inbox q)" using assms(2) by (simp add: validator_ok_def)
  note pop = issuing.heap_Pop_ok [OF this assms(3) p]
  have "b \<in> set (inbox q)" using pop(2) by (metis set_mset_mset set_mset_add_mset_insert insertI1)
  moreover have "vq_blockChan (fst (validatorSizeChanged (- 1) (q\<lparr>inbox := h\<rparr>, n))) = vq_blockChan q" by (simp add: validatorSizeChanged_def)
  ultimately show ?thesis
    using validator_take_ok [OF assms(2) pop(2,3), of n] pop(4) assms(1,3) p by (auto simp: ValidatorQueue_PopFront_def blockLess_eq)
qed

lemma ScheduleNext_ok:
  assumes "queue_env_ok E" "validator_ok q"
  shows "size_follows (q, n) (fst (ScheduleNext E (q, n)))"
    "validator_blocks (fst (fst (ScheduleNext E (q, n)))) \<subseteq># validator_blocks q"
    "snd (ScheduleNext E (q, n)) \<longleftrightarrow> vq_blockChan q = None \<and> inbox q \<noteq> []"
    "snd (ScheduleNext E (q, n)) \<Longrightarrow> \<exists>b. vq_blockChan (fst (fst (ScheduleNext E (q, n)))) = Some b \<and> b \<in> set (inbox q) \<and>
       (\<forall>x\<in>set (inbox q). blk_IssuingTime b \<le> blk_IssuingTime x)"
proof -
  have "size_follows (q, n) (fst (ScheduleNext E (q, n))) \<and>
    validator_blocks (fst (fst (ScheduleNext E (q, n)))) \<subseteq># validator_blocks q \<and>
    (snd (ScheduleNext E (q, n)) \<longleftrightarrow> vq_blockChan q = None \<and> inbox q \<noteq> []) \<and>
    (snd (ScheduleNext E (q, n)) \<longrightarrow> (\<exists>b. vq_blockChan (fst (fst (ScheduleNext E (q, n)))) = Some b \<and> b \<in> set (inbox q) \<and>
       (\<forall>x\<in>set (inbox q). blk_IssuingTime b \<le> blk_IssuingTime x)))"
  proof (cases "vq_blockChan q = None \<and> inbox q \<noteq> []")
    case True
    then obtain q' n' b where s: "ValidatorQueue_PopFront E (q, n) = ((q', n'), Some b)" "size_follows (q, n) (q', n')"
      "validator_blocks q = add_mset b (validator_blocks q')" "b \<in> set (inbox q)" "\<forall>x\<in>set (inbox q). blk_IssuingTime b \<le> blk_IssuingTime x"
      using validator_PopFront_ok [OF assms, of n] by (metis surj_pair fst_conv)
    have "ScheduleNext E (q, n) = ((q'\<lparr>vq_blockChan := Some b\<rparr>, n'), True)" using True s(1) by (simp add: ScheduleNext_def)
    moreover have "size_follows (q, n) (q'\<lparr>vq_blockChan := Some b\<rparr>, n')"
      using s(2) by (simp add: size_follows_def validator_ok_def validator_blocks_def)
    moreover have "validator_blocks (q'\<lparr>vq_blockChan := Some b\<rparr>) \<subseteq># validator_blocks q" unfolding s(3) by (simp add: validator_blocks_def)
    ultimately show ?thesis using True s(4,5) by simp
  next
    case False
    then have "ScheduleNext E (q, n) = ((q, n), False)" by (auto simp: ScheduleNext_def ValidatorQueue_PopFront_def)
    then show ?thesis using False assms(2) by (auto simp: size_follows_def)
  qed
  then show "size_follows (q, n) (fst (ScheduleNext E (q, n)))"
    "validator_blocks (fst (fst (ScheduleNext E (q, n)))) \<subseteq># validator_blocks q"
    "snd (ScheduleNext E (q, n)) \<longleftrightarrow> vq_blockChan q = None \<and> inbox q \<noteq> []"
    "snd (ScheduleNext E (q, n)) \<Longrightarrow> \<exists>b. vq_blockChan (fst (fst (ScheduleNext E (q, n)))) = Some b \<and> b \<in> set (inbox q) \<and>
       (\<forall>x\<in>set (inbox q). blk_IssuingTime b \<le> blk_IssuingTime x)" by blast+
qed

lemma oldestSubmittedBlock_ok:
  assumes "queue_env_ok E" "validator_ok q"
  shows "case oldestSubmittedBlock E q of
      None \<Rightarrow> ran (submitted q) = {}
    | Some b \<Rightarrow> submitted q (blk_ID b) = Some b \<and> (\<forall>x\<in>ran (submitted q). blk_IssuingTime b \<le> blk_IssuingTime x)"
proof -
  have d: "set (iterNonReady E (dom (submitted q))) = dom (submitted q)"
    using assms by (simp add: queue_env_ok_def validator_ok_def)
  show ?thesis
    using oldest_fold [where m = "submitted q" and ks = "iterNonReady E (dom (submitted q))" and acc = None] validator_ok_map(2) [OF assms(2)]
    unfolding d oldestSubmittedBlock_def [symmetric]
    by (cases "oldestSubmittedBlock E q") (auto simp: ran_def dom_def)
qed

lemma inboxTail_ok:
  assumes "queue_env_ok E"
  shows "case inboxTail E q of
      None \<Rightarrow> inbox q = []
    | Some t \<Rightarrow> t < length (inbox q) \<and> (\<forall>x\<in>set (inbox q). blk_IssuingTime x \<le> blk_IssuingTime (inbox q ! t))"
proof (cases "inbox q = []")
  case False
  then have "0 < length (inbox q)" by simp
  then show ?thesis
    using tail_fold [where h = "inbox q" and ks = "[0..<length (inbox q)]" and t = 0] False assms
    by (auto simp: inboxTail_def blockLess_eq Let_def in_set_conv_nth)
qed (simp add: inboxTail_def)

lemma validator_RemoveTail_ok:
  assumes "queue_env_ok E" "validator_ok q" "validator_blocks q \<noteq> {#}"
  shows "\<exists>s b. ValidatorQueue_RemoveTail E (q, n) = (s, Some b) \<and> size_follows (q, n) s \<and>
    validator_blocks q = add_mset b (validator_blocks (fst s))"
proof -
  note o = oldestSubmittedBlock_ok [OF assms(1,2)] and t = inboxTail_ok [OF assms(1), of q]
  have heap: "issuing.is_heap (length (inbox q)) (inbox q)" using assms(2) by (simp add: validator_ok_def)
  show ?thesis
  proof (cases "\<exists>b. oldestSubmittedBlock E q = Some b \<and> (\<forall>t. inboxTail E q = Some t \<longrightarrow>
      blk_IssuingTime b < blk_IssuingTime (inbox q ! t))")
    case True
    then obtain b where b: "oldestSubmittedBlock E q = Some b"
      "\<forall>t. inboxTail E q = Some t \<longrightarrow> blk_IssuingTime b < blk_IssuingTime (inbox q ! t)" by blast
    have m: "submitted q (blk_ID b) = Some b" using o b(1) by simp
    have "ValidatorQueue_RemoveTail E (q, n) = (fst (ValidatorQueue_unsubmit b (q, n)), Some b)"
      using b assms(1) by (auto simp: ValidatorQueue_RemoveTail_def queue_env_ok_def Let_def split: option.splits)
    then show ?thesis using validator_unsubmit_ok [OF assms(2) m, of n] by auto
  next
    case False
    then obtain t' where t': "inboxTail E q = Some t'"
      using o t assms(3) by (auto simp: validator_blocks_def split: option.splits)
    obtain b h where p: "heap_Remove issuedBefore t' (inbox q) = (b, h)" by force
    have l: "t' < length (inbox q)" using t t' by simp
    note rem = issuing.heap_Remove_ok [OF heap l p]
    have "ValidatorQueue_RemoveTail E (q, n) = (validatorSizeChanged (- 1) (q\<lparr>inbox := h\<rparr>, n), Some b)"
      using False t' p assms(1)
      by (auto simp: ValidatorQueue_RemoveTail_def queue_env_ok_def blockLess_eq Let_def split: option.splits)
    then show ?thesis using validator_take_ok [OF assms(2) rem(2,3), of n] by auto
  qed
qed

lemma size_follows_trans: "size_follows s t \<Longrightarrow> size_follows t u \<Longrightarrow> size_follows s u"
  unfolding size_follows_def by (elim conjE, intro conjI) (assumption, simp only:, erule (1) diff_chain)

lemma Submit_validator_ok:
  assumes "queue_env_ok E" "validator_ok q" "vq_accountID q = blk_IssuerID b" "submitted q (blk_ID b) = None"
    and "0 \<le> maxBuffer" "maxBuffer < 2 ^ 62" "size (validator_blocks q) \<le> nat maxBuffer"
  shows "\<exists>s dropped. ValidatorQueue_Submit E b maxBuffer (q, n) = Inr (s, dropped, True) \<and> size_follows (q, n) s \<and>
    add_mset b (validator_blocks q) = validator_blocks (fst s) + (case dropped of None \<Rightarrow> {#} | Some d \<Rightarrow> {#d#}) \<and>
    size (validator_blocks (fst s)) \<le> nat maxBuffer \<and> (dropped = None \<longleftrightarrow> size (validator_blocks q) < nat maxBuffer)"
proof -
  let ?q = "q\<lparr>submitted := (submitted q)(blk_ID b \<mapsto> b)\<rparr>"
  define s where "s = validatorSizeChanged 1 (?q, n)"
  have B: "validator_blocks ?q = add_mset b (validator_blocks q)"
    using blocks_insert [OF validator_ok_map [OF assms(2)] assms(4)] by (simp add: validator_blocks_def)
  have r: "size_follows (q, n) s \<and> validator_blocks (fst s) = validator_blocks ?q"
    unfolding s_def
    by (intro conjI validatorSizeChanged_ok [OF assms(2)]; (unfold B)?) (use assms(2-4) in \<open>auto simp: validator_ok_def\<close>)
  then have ok: "validator_ok (fst s)" and V: "validator_blocks (fst s) = add_mset b (validator_blocks q)"
    using B by (simp_all add: size_follows_def)
  have small: "size (validator_blocks (fst s)) < 2 ^ 63" using assms(5-7) V by simp
  have sz: "ValidatorQueue_Size (fst s) = int (size (validator_blocks (fst s)))"
    using ok sint_of_nat_64 [OF small] by (simp only: ValidatorQueue_Size_def validator_ok_def)
  then have full: "ValidatorQueue_Size (fst s) > maxBuffer \<longleftrightarrow> nat maxBuffer \<le> size (validator_blocks q)"
    using V assms(5) by auto
  show ?thesis
  proof (cases "ValidatorQueue_Size (fst s) > maxBuffer")
    case False
    then have "ValidatorQueue_Submit E b maxBuffer (q, n) = Inr (s, None, True)"
      using assms(3,4) unfolding s_def by (auto simp: ValidatorQueue_Submit_def Let_def split: prod.splits)
    moreover have "size (validator_blocks (fst s)) \<le> nat maxBuffer" using False sz by linarith
    ultimately show ?thesis using r V False full by auto
  next
    case True
    obtain s' d where s': "ValidatorQueue_RemoveTail E s = (s', Some d)" "size_follows s s'"
      "validator_blocks (fst s) = add_mset d (validator_blocks (fst s'))"
      using validator_RemoveTail_ok [OF assms(1) ok, of "snd s"] V by auto
    have "ValidatorQueue_Submit E b maxBuffer (q, n) = Inr (s', Some d, True)"
      using assms(3,4) True s'(1) unfolding s_def by (auto simp: ValidatorQueue_Submit_def Let_def split: prod.splits)
    moreover have "size (validator_blocks (fst s')) = size (validator_blocks q)" using s'(3) V by (metis size_add_mset add_left_cancel Suc_inject)
    ultimately show ?thesis using size_follows_trans [OF conjunct1 [OF r] s'(2)] s'(3) V assms(7) True full by auto
  qed
qed


text \<open>
  C38. A validation block that is submitted to the queue of its issuer for the first time is taken; when
  the queue is full exactly one block is dropped for it.  The queue never exceeds its maximum, no other
  block is lost, and the sizes of the queue and of the buffer follow.
\<close>

theorem validator_queue_bounded:
  assumes "queue_env_ok E" "validator_ok q" "vq_accountID q = blk_IssuerID b" "submitted q (blk_ID b) = None"
    and "0 \<le> maxBuffer" "maxBuffer < 2 ^ 62" "size (validator_blocks q) \<le> nat maxBuffer"
  shows "\<exists>s dropped. ValidatorQueue_Submit E b maxBuffer (q, n) = Inr (s, dropped, True) \<and> size_follows (q, n) s \<and>
    add_mset b (validator_blocks q) = validator_blocks (fst s) + (case dropped of None \<Rightarrow> {#} | Some d \<Rightarrow> {#d#}) \<and>
    size (validator_blocks (fst s)) \<le> nat maxBuffer \<and> (dropped = None \<longleftrightarrow> size (validator_blocks q) < nat maxBuffer)"
  by (rule Submit_validator_ok [OF assms])

theorem validator_queue_bounded_witness:
  "\<exists>s. ValidatorQueue_Submit std_queue_env (queue_block 1 7 10 1) 2 (NewValidatorQueue 7, 0) = Inr (s, None, True) \<and>
     validator_blocks (fst s) = {#queue_block 1 7 10 1#}"
  using validator_queue_bounded [of std_queue_env "NewValidatorQueue 7" "queue_block 1 7 10 1" 2 0]
  by (auto simp: NewValidatorQueue_def [THEN arg_cong, of submitted] queue_block_def)

section \<open>The buffer over its lifetime\<close>

definition validators_ok :: "int \<Rightarrow> validator_buffer \<Rightarrow> bool" where
  "validators_ok maxBuffer b \<longleftrightarrow> finite (dom (vb_buffer b)) \<and>
     (\<forall>i q. vb_buffer b i = Some q \<longrightarrow> validator_ok q \<and> vq_accountID q = i \<and> size (validator_blocks q) \<le> nat maxBuffer) \<and>
     vb_size b = (\<Sum>i\<in>dom (vb_buffer b). vq_size (the (vb_buffer b i)))"

text \<open>
  What the scheduler does to the buffer: it submits a block, marks one as ready (ids determine blocks),
  lets every queue schedule a block, hands the selected block of a queue to its worker, and deletes
  queues.
\<close>

inductive validator_step :: "queue_env \<Rightarrow> (account_id set \<Rightarrow> account_id list) \<Rightarrow> int \<Rightarrow> validator_buffer \<Rightarrow> validator_buffer \<Rightarrow> bool"
  for E iter maxBuffer where
  submit: "submitValidationBlock E blk maxBuffer b = Inr (b', dropped, wasSubmitted) \<Longrightarrow> validator_step E iter maxBuffer b b'"
| ready: "(\<And>q x. vb_buffer b (blk_IssuerID blk) = Some q \<Longrightarrow> submitted q (blk_ID blk) = Some x \<Longrightarrow> x = blk) \<Longrightarrow>
    validator_step E iter maxBuffer b (ValidatorBuffer_Ready E blk b)"
| schedule: "validator_step E iter maxBuffer b (scheduleValidators E iter b)"
| receive: "vb_buffer b i = Some q \<Longrightarrow>
    validator_step E iter maxBuffer b (b\<lparr>vb_buffer := (vb_buffer b)(i \<mapsto> q\<lparr>vq_blockChan := None\<rparr>)\<rparr>)"
| delete: "validator_step E iter maxBuffer b (ValidatorBuffer_Delete iter predicate b)"

lemma validators_ok_queue:
  assumes "validators_ok m b" "vb_buffer b i = Some q"
  shows "validator_ok q" "vq_accountID q = i" "size (validator_blocks q) \<le> nat m"
  using assms by (auto simp: validators_ok_def)

lemma putQueue_ok:
  assumes "validators_ok m b" "vb_buffer b i = Some q" "size_follows (q, vb_size b) s" "size (validator_blocks (fst s)) \<le> nat m"
  shows "validators_ok m (putQueue i s b)"
proof -
  have d: "dom (vb_buffer (putQueue i s b)) = dom (vb_buffer b)" using assms(2) by (auto simp: putQueue_def)
  have fin: "finite (dom (vb_buffer b))" "i \<in> dom (vb_buffer b)" using assms(1,2) by (auto simp: validators_ok_def)
  have "snd s = (\<Sum>j\<in>dom (vb_buffer b). vq_size (the (vb_buffer (putQueue i s b) j)))"
    by (rule sum_change [OF fin, where f = "\<lambda>j. vq_size (the (vb_buffer b j))" and c = "vb_size b"])
      (use assms(1-3) in \<open>auto simp: validators_ok_def size_follows_def putQueue_def\<close>)
  moreover have "\<forall>j p. vb_buffer (putQueue i s b) j = Some p \<longrightarrow> validator_ok p \<and> vq_accountID p = j \<and> size (validator_blocks p) \<le> nat m"
    using assms(3,4) validators_ok_queue [OF assms(1)] assms(2) by (auto simp: putQueue_def size_follows_def)
  moreover have "vb_size (putQueue i s b) = snd s" by (simp add: putQueue_def)
  ultimately show ?thesis unfolding validators_ok_def d using fin(1) by simp
qed

lemma GetOrCreate_ok:
  assumes "validators_ok m b" "ValidatorBuffer_GetOrCreate i b = (b', q)"
  shows "validators_ok m b'" "vb_buffer b' i = Some q"
proof -
  have "validators_ok m b' \<and> vb_buffer b' i = Some q"
  proof (cases "vb_buffer b i")
    case None
    then have b': "b' = putQueue i (NewValidatorQueue i, vb_size b) b" "q = NewValidatorQueue i"
      using assms(2) by (auto simp: ValidatorBuffer_GetOrCreate_def Let_def)
    have d: "dom (vb_buffer b') = insert i (dom (vb_buffer b))" "i \<notin> dom (vb_buffer b)" using None by (auto simp: b' putQueue_def)
    have fin: "finite (dom (vb_buffer b))" using assms(1) by (simp add: validators_ok_def)
    have "(\<Sum>j\<in>dom (vb_buffer b). vq_size (the (vb_buffer b' j))) = (\<Sum>j\<in>dom (vb_buffer b). vq_size (the (vb_buffer b j)))"
      using d(2) by (intro sum.cong) (auto simp: b' putQueue_def)
    then have "vb_size b' = (\<Sum>j\<in>dom (vb_buffer b'). vq_size (the (vb_buffer b' j)))"
      using assms(1) fin d(2) unfolding d(1) by (simp add: b' putQueue_def validators_ok_def)
    moreover have "\<forall>j p. vb_buffer b' j = Some p \<longrightarrow> validator_ok p \<and> vq_accountID p = j \<and> size (validator_blocks p) \<le> nat m"
      using validators_ok_queue [OF assms(1)] by (auto simp: b' putQueue_def)
    ultimately show ?thesis using fin d(1) unfolding validators_ok_def by (simp add: b' putQueue_def)
  next
    case (Some p)
    then show ?thesis using assms by (simp add: ValidatorBuffer_GetOrCreate_def)
  qed
  then show "validators_ok m b'" "vb_buffer b' i = Some q" by blast+
qed

lemma scheduleQueue_ok:
  assumes "queue_env_ok E" "validators_ok m b"
  shows "validators_ok m (scheduleQueue E i b)"
proof (cases "vb_buffer b i")
  case (Some q)
  note s = ScheduleNext_ok [OF assms(1) validators_ok_queue(1) [OF assms(2) Some], of "vb_size b"]
  have "size (validator_blocks (fst (fst (ScheduleNext E (q, vb_size b))))) \<le> nat m"
    using size_mset_mono [OF s(2)] validators_ok_queue(3) [OF assms(2) Some] by linarith
  then show ?thesis using putQueue_ok [OF assms(2) Some s(1)] Some by (simp add: scheduleQueue_def)
qed (use assms in \<open>simp add: scheduleQueue_def\<close>)

lemma deleteQueue_ok:
  assumes "validators_ok m b"
  shows "validators_ok m (deleteQueue P i b)"
proof (cases "\<exists>q. vb_buffer b i = Some q \<and> P q")
  case True
  then obtain q where q: "vb_buffer b i = Some q" "P q" by blast
  let ?b = "b\<lparr>vb_size := vb_size b - vq_size q, vb_buffer := (vb_buffer b)(i := None)\<rparr>"
  have del: "deleteQueue P i b = ?b" using q by (simp add: deleteQueue_def ValidatorQueue_Clear_def validatorSizeChanged_def)
  have fin: "finite (dom (vb_buffer b))" "i \<in> dom (vb_buffer b)" using assms q(1) by (auto simp: validators_ok_def)
  have "(\<Sum>j\<in>dom (vb_buffer b) - {i}. vq_size (the (vb_buffer ?b j))) = (\<Sum>j\<in>dom (vb_buffer b) - {i}. vq_size (the (vb_buffer b j)))"
    by (intro sum.cong) auto
  then have "vb_size ?b = (\<Sum>j\<in>dom (vb_buffer ?b). vq_size (the (vb_buffer ?b j)))"
    using assms fin q(1) by (simp add: validators_ok_def sum.remove)
  moreover have "\<forall>j p. vb_buffer ?b j = Some p \<longrightarrow> validator_ok p \<and> vq_accountID p = j \<and> size (validator_blocks p) \<le> nat m"
    using validators_ok_queue [OF assms] by simp
  ultimately show ?thesis unfolding del validators_ok_def using fin(1) by simp
qed (use assms in \<open>auto simp: deleteQueue_def split: option.splits\<close>)

lemma validator_step_ok:
  assumes "validator_step E iter m b b'" "queue_env_ok E" "0 \<le> m" "m < 2 ^ 62" "validators_ok m b"
  shows "validators_ok m b'"
  using assms(1)
proof cases
  case (submit blk dropped wasSubmitted)
  obtain b1 q where g: "ValidatorBuffer_GetOrCreate (blk_IssuerID blk) b = (b1, q)" by force
  note ok = GetOrCreate_ok [OF assms(5) g]
  note q = validators_ok_queue [OF ok]
  from submit g obtain s where s: "ValidatorQueue_Submit E blk m (q, vb_size b1) = Inr (s, dropped, wasSubmitted)"
    "b' = putQueue (blk_IssuerID blk) s b1"
    by (auto simp: submitValidationBlock_def and_then_def split: sum.splits)
  show ?thesis
  proof (cases "submitted q (blk_ID blk)")
    case None
    then obtain s' d where "ValidatorQueue_Submit E blk m (q, vb_size b1) = Inr (s', d, True)" "size_follows (q, vb_size b1) s'"
      "size (validator_blocks (fst s')) \<le> nat m"
      using Submit_validator_ok [OF assms(2) q(1) q(2) None assms(3,4) q(3), of "vb_size b1"] by blast
    then show ?thesis using s putQueue_ok [OF ok] by simp
  next
    case (Some x)
    then have "s = (q, vb_size b1)" using s(1) q(2) by (simp add: ValidatorQueue_Submit_def)
    then show ?thesis using s(2) putQueue_ok [OF ok, of s] q by (simp add: size_follows_def)
  qed
next
  case (ready blk)
  show ?thesis
  proof (cases "vb_buffer b (blk_IssuerID blk)")
    case (Some q)
    note r = validator_Ready_ok [OF assms(2) validators_ok_queue(1) [OF assms(5) Some], where b = blk]
    show ?thesis
      using putQueue_ok [OF assms(5) Some r(1)] r(2) validators_ok_queue(3) [OF assms(5) Some] ready Some
      by (simp add: ValidatorBuffer_Ready_def)
  qed (use ready assms(5) in \<open>simp add: ValidatorBuffer_Ready_def\<close>)
next
  case schedule
  then show ?thesis
    unfolding scheduleValidators_def using fold_keeps [of "validators_ok m", OF scheduleQueue_ok [OF assms(2)] assms(5)] by simp
next
  case (receive i q)
  have "size_follows (q, vb_size b) (q\<lparr>vq_blockChan := None\<rparr>, vb_size b)" "size (validator_blocks (q\<lparr>vq_blockChan := None\<rparr>)) \<le> nat m"
    using validators_ok_queue [OF assms(5) receive(2)] by (simp_all add: size_follows_def validator_ok_def validator_blocks_def)
  from putQueue_ok [OF assms(5) receive(2) this(1)] this(2) show ?thesis using receive(1) by (simp add: putQueue_def)
next
  case (delete predicate)
  then show ?thesis
    unfolding ValidatorBuffer_Delete_def using fold_keeps [of "validators_ok m", OF deleteQueue_ok assms(5)] by simp
qed

text \<open>
  C18. Whatever the scheduler does to a new buffer of validation blocks, no queue ever holds more than the
  maximum number of blocks, every queue holds only blocks of its validator, and the size that the buffer
  reports is the number of blocks in all its queues.
\<close>

theorem validator_buffer_reachable:
  assumes "queue_env_ok E" "0 \<le> m" "m < 2 ^ 62" "(validator_step E iter m)\<^sup>*\<^sup>* NewValidatorBuffer b"
  shows "validators_ok m b \<and> vb_size b = word_of_nat (\<Sum>i\<in>dom (vb_buffer b). size (validator_blocks (the (vb_buffer b i))))"
  using assms(4)
proof (induction rule: rtranclp_induct)
  case base
  then show ?case by (simp add: validators_ok_def NewValidatorBuffer_def)
next
  case (step b b')
  then have ok: "validators_ok m b'" using validator_step_ok assms(1-3) by blast
  then have "(\<Sum>i\<in>dom (vb_buffer b'). vq_size (the (vb_buffer b' i))) =
      (\<Sum>i\<in>dom (vb_buffer b'). word_of_nat (size (validator_blocks (the (vb_buffer b' i)))))"
    by (intro sum.cong) (auto simp: validators_ok_def validator_ok_def)
  then show ?case using ok by (simp add: validators_ok_def)
qed

theorem validator_buffer_reachable_witness:
  "\<exists>b. (validator_step std_queue_env sorted_list_of_set 1)\<^sup>*\<^sup>* NewValidatorBuffer b \<and> validators_ok 1 b \<and> vb_size b = 1"
proof -
  let ?blk = "queue_block 1 7 10 1"
  obtain b where b: "submitValidationBlock std_queue_env ?blk 1 NewValidatorBuffer = Inr (b, None, True)" "vb_size b = 1"
    by (simp add: submitValidationBlock_def ValidatorBuffer_GetOrCreate_def NewValidatorBuffer_def NewValidatorQueue_def
        ValidatorQueue_Submit_def validatorSizeChanged_def putQueue_def queue_block_def ValidatorQueue_Size_def Let_def and_then_def)
  then have r: "(validator_step std_queue_env sorted_list_of_set 1)\<^sup>*\<^sup>* NewValidatorBuffer b"
    using validator_step.submit by blast
  show ?thesis using validator_buffer_reachable [OF std_queue_env_ok _ _ r] r b(2) by auto
qed

end
