(* ===== verification/Scheduler.thy ===== *)
theory Scheduler
  imports ValidatorQueues
begin

text \<open>
  The scheduler: \<^verbatim>\<open>scheduler/drr/scheduler.go\<close>, a deficit round robin over the issuer queues, and the
  flags of a block that it uses (\<^verbatim>\<open>engine/blocks/block.go\<close>).

  The state holds both buffers, the deficits, the flags of the blocks and the events that have been
  triggered, in order.  A handler that can panic returns a sum; None means that a loop does not end.
  The worker goroutines are not modelled: \<open>scheduleBasicBlock\<close> and \<open>scheduleValidationBlock\<close> are what they
  run for a block that they receive, without the token bucket.
\<close>


section \<open>The flags of a block\<close>

record block_flags =
  fl_accepted :: bool
  fl_scheduled :: bool
  fl_skipped :: bool
  fl_dropped :: bool
  fl_enqueued :: bool

definition SetScheduled :: "block_flags \<Rightarrow> block_flags \<times> bool" where
  "SetScheduled f =
     (let wasUpdated = (\<not> fl_scheduled f)
      in (if wasUpdated \<and> fl_enqueued f then f\<lparr>fl_scheduled := True, fl_enqueued := False\<rparr> else f, wasUpdated))"

definition SetSkipped :: "block_flags \<Rightarrow> block_flags \<times> bool" where
  "SetSkipped f =
     (let wasUpdated = (\<not> fl_skipped f)
      in (if wasUpdated \<and> fl_enqueued f then f\<lparr>fl_skipped := True, fl_enqueued := False\<rparr> else f, wasUpdated))"

definition SetDropped :: "block_flags \<Rightarrow> block_flags \<times> bool" where
  "SetDropped f =
     (let wasUpdated = (\<not> fl_dropped f)
      in (if wasUpdated \<and> fl_enqueued f then f\<lparr>fl_dropped := True, fl_enqueued := False\<rparr> else f, wasUpdated))"

definition SetEnqueued :: "block_flags \<Rightarrow> block_flags \<times> bool" where
  "SetEnqueued f =
     (let wasUpdated = (\<not> fl_enqueued f)
      in (if wasUpdated then f\<lparr>fl_enqueued := True\<rparr> else f, wasUpdated))"

section \<open>State\<close>

text \<open>
  The environment holds what the scheduler reads from other components: the mana of an account, the
  latest committed slot, the protocol parameters (\<^verbatim>\<open>MaxBlockWork\<close> is positive), the current time, the
  parents and children of a block and the blocks of the block cache.
\<close>

record sched_env =
  se_queue :: queue_env
  se_math :: safemath
  manaOnAccount :: "account_id \<Rightarrow> slot_index \<Rightarrow> mana option"
  se_latestCommittedSlot :: slot_index
  MaxBlockWork :: work_score
  MaxBufferSize :: int
  MaxValidationBufferSize :: int
  se_now :: int
  maxCommittableAgeDuration :: int
  parentsOf :: "block_id \<Rightarrow> block_id list"
  childrenOf :: "block_id \<Rightarrow> block list"
  inBlockCache :: "block_id \<Rightarrow> bool"
  se_iterAccounts :: "account_id set \<Rightarrow> account_id list"
  committeeInSlot :: "slot_index \<Rightarrow> (account_id \<Rightarrow> bool) option"

datatype sched_event =
    BlockDropped block
  | BlockSkipped block
  | BlockScheduled block
  | BlockEnqueued block
  | LogPanic account_id
  | CommitteeMissing slot_index
  | Stopped

datatype sched_error =
    BufferPanic buffer_error
  | ValidatorPanic queue_error
  | PanicIssuerExists account_id
  | PanicDeficitNotFound account_id
  | PanicDivision
  | PanicInvalidBlockType block_id
  | PanicNilBlock

record scheduler =
  sc_buffer :: basic_buffer
  validatorBuffer :: validator_buffer
  deficits :: "account_id \<rightharpoonup> i64"
  isShutdown :: bool
  flagsOf :: "block_id \<Rightarrow> block_flags"
  sc_events :: "sched_event list"

definition New_scheduler :: "(block_id \<Rightarrow> block_flags) \<Rightarrow> scheduler" where
  "New_scheduler fl =
     \<lparr>sc_buffer = NewBasicBuffer, validatorBuffer = NewValidatorBuffer, deficits = Map.empty, isShutdown = False, flagsOf = fl, sc_events = []\<rparr>"

definition trigger :: "sched_event \<Rightarrow> scheduler \<Rightarrow> scheduler" where
  "trigger e s = s\<lparr>sc_events := sc_events s @ [e]\<rparr>"

text \<open>Applying one of the setters to the flags of a block.\<close>

definition setFlags :: "(block_flags \<Rightarrow> block_flags \<times> bool) \<Rightarrow> block \<Rightarrow> scheduler \<Rightarrow> scheduler \<times> bool" where
  "setFlags setter blk s =
     (let (f, wasUpdated) = setter (flagsOf s (blk_ID blk))
      in (s\<lparr>flagsOf := (flagsOf s)(blk_ID blk := f)\<rparr>, wasUpdated))"

definition IsCommitted :: "sched_env \<Rightarrow> scheduler \<Rightarrow> block \<Rightarrow> bool" where
  "IsCommitted E s blk \<longleftrightarrow>
     fl_accepted (flagsOf s (blk_ID blk)) \<and> se_now E - blk_IssuingTime blk > maxCommittableAgeDuration E"

definition isEligible :: "block_flags \<Rightarrow> bool" where
  "isEligible f \<longleftrightarrow> fl_skipped f \<or> fl_scheduled f \<or> fl_accepted f"

definition isReady :: "sched_env \<Rightarrow> scheduler \<Rightarrow> block \<Rightarrow> bool" where
  "isReady E s blk = list_all (\<lambda>p. inBlockCache E p \<and> isEligible (flagsOf s p)) (parentsOf E (blk_ID blk))"

section \<open>Deficits\<close>

definition maxDeficit :: i64 where
  "maxDeficit = 4611686018427387903"

definition deficitFromWork :: "sched_env \<Rightarrow> work_score \<Rightarrow> i64" where
  "deficitFromWork E work = ucast work * word_of_nat (unat maxDeficit div unat (MaxBlockWork E))"

definition quantumFunc :: "sched_env \<Rightarrow> account_id \<Rightarrow> slot_index \<Rightarrow> i64 option" where
  "quantumFunc E accountID manaSlot = map_option (\<lambda>mana. 1 + min mana (maxDeficit - 1)) (manaOnAccount E accountID manaSlot)"

text \<open>
  The result is None when the code returns an error.  \<^verbatim>\<open>Compute\<close> stores the value that its callback
  returns also in that case.
\<close>

definition updateDeficit :: "sched_env \<Rightarrow> account_id \<Rightarrow> i64 \<Rightarrow> scheduler \<Rightarrow> scheduler \<times> i64 option" where
  "updateDeficit E accountID delta s =
     (let failed = (\<lambda>s. (trigger (LogPanic accountID) (s\<lparr>deficits := (deficits s)(accountID \<mapsto> 0)\<rparr>), None));
          stored = (\<lambda>d s. (s\<lparr>deficits := (deficits s)(accountID \<mapsto> d)\<rparr>, Some d))
      in case deficits s accountID of
           None \<Rightarrow> failed s
         | Some currentValue \<Rightarrow>
             (case add_i64 (se_math E) currentValue delta of
                None \<Rightarrow> stored maxDeficit s
              | Some newDeficit \<Rightarrow>
                  if sint newDeficit \<ge> sint maxDeficit then stored maxDeficit s
                  else if sint newDeficit < 0 then failed s
                  else stored newDeficit s))"

definition incrementDeficit :: "sched_env \<Rightarrow> account_id \<Rightarrow> i64 \<Rightarrow> slot_index \<Rightarrow> scheduler \<Rightarrow> scheduler \<times> i64 option" where
  "incrementDeficit E issuerID rounds slot s =
     (case quantumFunc E issuerID slot of
        None \<Rightarrow> (s, None)
      | Some quantum \<Rightarrow>
          let delta = (case mul_i64 (se_math E) quantum rounds of None \<Rightarrow> maxDeficit | Some d \<Rightarrow> d)
          in updateDeficit E issuerID delta s)"

text \<open>How often the deficit of an issuer has to be incremented until its block can be scheduled.\<close>

definition roundsFor :: "sched_env \<Rightarrow> work_score \<Rightarrow> i64 \<Rightarrow> i64 \<Rightarrow> i64 option" where
  "roundsFor E work deficit quantum =
     (let remainingDeficit = deficitFromWork E work - deficit;
          numerator = (case add_i64 (se_math E) remainingDeficit (quantum - 1) of
                         None \<Rightarrow> 9223372036854775807
                       | Some n \<Rightarrow> n)
      in div_i64 (se_math E) numerator quantum)"

section \<open>Issuers\<close>

definition withBuffer :: "(buffer_error + basic_buffer) \<Rightarrow> scheduler \<Rightarrow> sched_error + scheduler" where
  "withBuffer r s = (case r of Inl e \<Rightarrow> Inl (BufferPanic e) | Inr b \<Rightarrow> Inr (s\<lparr>sc_buffer := b\<rparr>))"

definition getOrCreateIssuer :: "account_id \<Rightarrow> scheduler \<Rightarrow> sched_error + (scheduler \<times> addr)" where
  "getOrCreateIssuer accountID s =
     (case GetOrCreateIssuerQueue accountID (sc_buffer s) of
        Inl e \<Rightarrow> Inl (BufferPanic e)
      | Inr (b, a) \<Rightarrow>
          let d = (if deficits s accountID = None then (deficits s)(accountID \<mapsto> 0) else deficits s)
          in Inr (s\<lparr>sc_buffer := b, deficits := d\<rparr>, a))"

definition createIssuer :: "account_id \<Rightarrow> scheduler \<Rightarrow> sched_error + (scheduler \<times> addr)" where
  "createIssuer accountID s =
     (case CreateIssuerQueue accountID (sc_buffer s) of
        Inl e \<Rightarrow> Inl (BufferPanic e)
      | Inr (b, a) \<Rightarrow>
          if deficits s accountID \<noteq> None then Inl (PanicIssuerExists accountID)
          else Inr (s\<lparr>sc_buffer := b, deficits := (deficits s)(accountID \<mapsto> 0)\<rparr>, a))"

definition dropBlock :: "block \<Rightarrow> scheduler \<Rightarrow> scheduler" where
  "dropBlock blk s = trigger (BlockDropped blk) (fst (setFlags SetDropped blk s))"

definition removeIssuer :: "sched_env \<Rightarrow> account_id \<Rightarrow> scheduler \<Rightarrow> sched_error + scheduler" where
  "removeIssuer E issuerID s =
     (let dropped =
            (case Buffer_IssuerQueue (sc_buffer s) issuerID of
               None \<Rightarrow> []
             | Some a \<Rightarrow>
                 let q = queueAt (sc_buffer s) a
                 in map (\<lambda>i. the (nonReadyMap q i)) (iterNonReady (se_queue E) (dom (nonReadyMap q))) @ readyHeap q);
          s = fold dropBlock dropped s;
          s = s\<lparr>deficits := (deficits s)(issuerID := None)\<rparr>
      in withBuffer (RemoveIssuerQueue issuerID (sc_buffer s)) s)"

definition IsBlockIssuerReady :: "sched_env \<Rightarrow> account_id \<Rightarrow> work_score list \<Rightarrow> scheduler \<Rightarrow> bool" where
  "IsBlockIssuerReady E accountID workScores s =
     (if isShutdown s then False
      else if TotalBlocksCount (sc_buffer s) = 0 then True
      else
        let work = (if workScores \<noteq> [] then fold (\<lambda>w acc. acc + w) workScores 0 else MaxBlockWork E)
        in case deficits s accountID of
             None \<Rightarrow> False
           | Some deficit \<Rightarrow>
               sint deficit \<ge> sint (deficitFromWork E (work + IssuerQueueWork (sc_buffer s) accountID)))"

section \<open>Enqueueing\<close>

definition tryReady :: "sched_env \<Rightarrow> block \<Rightarrow> scheduler \<Rightarrow> scheduler" where
  "tryReady E blk s =
     (if isReady E s blk then s\<lparr>sc_buffer := fst (Buffer_Ready (se_queue E) blk (sc_buffer s))\<rparr> else s)"

definition tryReadyValidationBlock :: "sched_env \<Rightarrow> block \<Rightarrow> scheduler \<Rightarrow> scheduler" where
  "tryReadyValidationBlock E blk s =
     (if isReady E s blk then s\<lparr>validatorBuffer := ValidatorBuffer_Ready (se_queue E) blk (validatorBuffer s)\<rparr> else s)"

definition tryReadyChild :: "sched_env \<Rightarrow> block \<Rightarrow> scheduler \<Rightarrow> sched_error + scheduler" where
  "tryReadyChild E child s =
     (if inBlockCache E (blk_ID child) \<and> fl_enqueued (flagsOf s (blk_ID child)) then
        if IsBasicBlock child then Inr (tryReady E child s)
        else if IsValidationBlock child then Inr (tryReadyValidationBlock E child s)
        else Inl (PanicInvalidBlockType (blk_ID child))
      else Inr s)"

definition updateChildrenWithoutLocking :: "sched_env \<Rightarrow> block \<Rightarrow> scheduler \<Rightarrow> sched_error + scheduler" where
  "updateChildrenWithoutLocking E blk s = range_loop (tryReadyChild E) (childrenOf E (blk_ID blk)) s"

text \<open>The quantum that is passed to the buffer: zero when it cannot be retrieved.\<close>

definition quantumInSlot :: "sched_env \<Rightarrow> slot_index \<Rightarrow> account_id \<Rightarrow> i64" where
  "quantumInSlot E slot issuerID = (case quantumFunc E issuerID slot of None \<Rightarrow> 0 | Some quantum \<Rightarrow> quantum)"

definition enqueueBasicBlock :: "sched_env \<Rightarrow> block \<Rightarrow> scheduler \<Rightarrow> (sched_error + scheduler) option" where
  "enqueueBasicBlock E blk s =
     (if isShutdown s then Some (Inr s)
      else
        case getOrCreateIssuer (blk_IssuerID blk) s of
          Inl e \<Rightarrow> Some (Inl e)
        | Inr (s, a) \<Rightarrow>
            Option.bind (Buffer_Submit (se_queue E) blk a (quantumInSlot E (se_latestCommittedSlot E)) (MaxBufferSize E) (sc_buffer s)) (\<lambda>r.
              Some (case r of
                Inl e \<Rightarrow> Inl (BufferPanic e)
              | Inr (b, droppedBlocks, wasSubmitted) \<Rightarrow>
                  let s = s\<lparr>sc_buffer := b\<rparr>
                  in if \<not> wasSubmitted then Inr s
                     else
                       let s = fold dropBlock droppedBlocks s;
                           (s, wasUpdated) = setFlags SetEnqueued blk s
                       in if wasUpdated then Inr (tryReady E blk (trigger (BlockEnqueued blk) s)) else Inr s)))"

definition enqueueValidationBlock :: "sched_env \<Rightarrow> block \<Rightarrow> scheduler \<Rightarrow> sched_error + scheduler" where
  "enqueueValidationBlock E blk s =
     (if isShutdown s then Inr s
      else
        case submitValidationBlock (se_queue E) blk (MaxValidationBufferSize E) (validatorBuffer s) of
          Inl e \<Rightarrow> Inl (ValidatorPanic e)
        | Inr (b, droppedBlock, wasSubmitted) \<Rightarrow>
            let s = s\<lparr>validatorBuffer := b\<rparr>
            in if \<not> wasSubmitted then Inr s
               else
                 let s = (case droppedBlock of None \<Rightarrow> s | Some d \<Rightarrow> dropBlock d s);
                     (s, wasUpdated) = setFlags SetEnqueued blk s
                 in if wasUpdated then Inr (tryReadyValidationBlock E blk (trigger (BlockEnqueued blk) s)) else Inr s)"

definition AddBlock :: "sched_env \<Rightarrow> block \<Rightarrow> scheduler \<Rightarrow> (sched_error + scheduler) option" where
  "AddBlock E blk s =
     (if IsValidationBlock blk then Some (enqueueValidationBlock E blk s)
      else if IsBasicBlock blk then enqueueBasicBlock E blk s
      else Some (Inr s))"

section \<open>Scheduling\<close>

text \<open>
  The examination of one queue: committed blocks at its front are skipped, and for the first other
  block that is not in the future the number of rounds is returned.
\<close>

partial_function (option) examineQueue ::
  "sched_env \<Rightarrow> slot_index \<Rightarrow> addr \<Rightarrow> scheduler \<Rightarrow> (sched_error + (scheduler \<times> i64 option)) option" where
  "examineQueue E slot a s =
     (case Front (queueAt (sc_buffer s) a) of
        None \<Rightarrow> Some (Inr (s, None))
      | Some blk \<Rightarrow>
          if \<not> blk_IssuingTime blk < se_now E then Some (Inr (s, None))
          else if IsCommitted E s blk then
            let (s, wasUpdated) = setFlags SetSkipped blk s
            in case (if wasUpdated then map_sum id (trigger (BlockSkipped blk)) (updateChildrenWithoutLocking E blk s) else Inr s) of
                 Inl e \<Rightarrow> Some (Inl e)
               | Inr s \<Rightarrow>
                   let b = sc_buffer s;
                       (q, _) = IssuerQueue_PopFront (se_queue E) (queueAt b a, bb_counts b)
                   in examineQueue E slot a (s\<lparr>sc_buffer := setQueue a q b\<rparr>)
          else
            case deficits s (blk_IssuerID blk) of
              None \<Rightarrow> Some (Inl (PanicDeficitNotFound (blk_IssuerID blk)))
            | Some deficit \<Rightarrow>
                (case quantumFunc E (blk_IssuerID blk) slot of
                   None \<Rightarrow> Some (Inr (trigger (LogPanic (blk_IssuerID blk)) s, None))
                 | Some quantum \<Rightarrow>
                     (case roundsFor E (blk_WorkScore blk) deficit quantum of
                        None \<Rightarrow> Some (Inl PanicDivision)
                      | Some rounds \<Rightarrow> Some (Inr (s, Some rounds)))))"

fun selectLoop ::
  "sched_env \<Rightarrow> slot_index \<Rightarrow> addr list \<Rightarrow> scheduler \<Rightarrow> i64 \<Rightarrow> addr option \<Rightarrow>
     (sched_error + (scheduler \<times> i64 \<times> addr option)) option" where
  "selectLoop E slot [] s minRounds schedulingIssuer = Some (Inr (s, minRounds, schedulingIssuer))"
| "selectLoop E slot (a # as) s minRounds schedulingIssuer =
     Option.bind (examineQueue E slot a s) (\<lambda>r.
       case r of
         Inl e \<Rightarrow> Some (Inl e)
       | Inr (s, None) \<Rightarrow> selectLoop E slot as s minRounds schedulingIssuer
       | Inr (s, Some rounds) \<Rightarrow>
           if sint rounds < sint minRounds then selectLoop E slot as s rounds (Some a)
           else selectLoop E slot as s minRounds schedulingIssuer)"

definition selectIssuer :: "sched_env \<Rightarrow> slot_index \<Rightarrow> scheduler \<Rightarrow> (sched_error + (scheduler \<times> i64 \<times> addr option)) option" where
  "selectIssuer E slot s =
     Option.bind (Buffer_ForEach (sc_buffer s)) (\<lambda>rs. selectLoop E slot rs s 9223372036854775807 None)"

definition incrementAll :: "sched_env \<Rightarrow> i64 \<Rightarrow> slot_index \<Rightarrow> scheduler \<Rightarrow> scheduler option" where
  "incrementAll E rounds slot s =
     Option.bind (Buffer_ForEach (sc_buffer s)) (\<lambda>rs.
       Some (fold (\<lambda>a s.
          let issuerID = iq_issuerID (queueAt (sc_buffer s) a);
              (s, r) = incrementDeficit E issuerID rounds slot s
          in if r = None then trigger (LogPanic issuerID) s else s) rs s))"

text \<open>
  The loop that gives the issuers before the selected one another round; the result is False when the
  code returns early.
\<close>

partial_function (option) advanceLoop ::
  "sched_env \<Rightarrow> slot_index \<Rightarrow> addr \<Rightarrow> addr \<Rightarrow> scheduler \<Rightarrow> (sched_error + (scheduler \<times> bool)) option" where
  "advanceLoop E slot schedulingIssuer q s =
     (if q = schedulingIssuer then Some (Inr (s, True))
      else
        let issuerID = iq_issuerID (queueAt (sc_buffer s) q);
            (s, r) = incrementDeficit E issuerID 1 slot s
        in case r of
             None \<Rightarrow> Some (Inr (trigger (LogPanic issuerID) s, False))
           | Some newDeficit \<Rightarrow>
               (case (if newDeficit = maxDeficit then withBuffer (RemoveIssuerQueueIfEmpty issuerID (sc_buffer s)) s else Inr s) of
                  Inl e \<Rightarrow> Some (Inl e)
                | Inr s \<Rightarrow>
                    let (b, n) = Buffer_Next (sc_buffer s)
                    in case n of
                         None \<Rightarrow> Some (Inl PanicNilBlock)
                       | Some n \<Rightarrow> advanceLoop E slot schedulingIssuer n (s\<lparr>sc_buffer := b\<rparr>)))"

text \<open>Taking the front block of the current queue and charging its issuer for it.\<close>

definition popAndCharge :: "sched_env \<Rightarrow> scheduler \<Rightarrow> sched_error + scheduler" where
  "popAndCharge E s =
     (case Buffer_PopFront (se_queue E) (sc_buffer s) of
        (b, None) \<Rightarrow> Inl PanicNilBlock
      | (b, Some blk) \<Rightarrow>
          let s = s\<lparr>sc_buffer := b\<rparr>;
              (s, r) = updateDeficit E (blk_IssuerID blk) (- deficitFromWork E (blk_WorkScore blk)) s
          in Inr (if r = None then dropBlock blk s
                  else s\<lparr>sc_buffer := (sc_buffer s)\<lparr>blockChan := Some blk\<rparr>\<rparr>))"

definition selectBasicBlockWithoutLocking :: "sched_env \<Rightarrow> scheduler \<Rightarrow> (sched_error + scheduler) option" where
  "selectBasicBlockWithoutLocking E s =
     (let slot = se_latestCommittedSlot E
      in if blockChan (sc_buffer s) \<noteq> None then Some (Inr s)
         else Option.bind (selectIssuer E slot s) (\<lambda>r.
           case r of
             Inl e \<Rightarrow> Some (Inl e)
           | Inr (s, rounds, None) \<Rightarrow> Some (Inr s)
           | Inr (s, rounds, Some schedulingIssuer) \<Rightarrow>
               Option.bind (if 0 < sint rounds then incrementAll E rounds slot s else Some s) (\<lambda>s.
               case Current (sc_buffer s) of
                 None \<Rightarrow> Some (Inr s)
               | Some start \<Rightarrow>
                   Option.bind (advanceLoop E slot schedulingIssuer start s) (\<lambda>r.
                   Some (and_then r (\<lambda>(s, go). if go then popAndCharge E s else Inr s))))))"

definition selectBlockToScheduleWithLocking :: "sched_env \<Rightarrow> scheduler \<Rightarrow> (sched_error + scheduler) option" where
  "selectBlockToScheduleWithLocking E s =
     (if isShutdown s then Some (Inr s)
      else selectBasicBlockWithoutLocking E
             (s\<lparr>validatorBuffer := scheduleValidators (se_queue E) (se_iterAccounts E) (validatorBuffer s)\<rparr>))"

definition updateChildrenWithLocking :: "sched_env \<Rightarrow> block \<Rightarrow> scheduler \<Rightarrow> sched_error + scheduler" where
  "updateChildrenWithLocking E blk s = (if isShutdown s then Inr s else updateChildrenWithoutLocking E blk s)"

definition scheduleBasicBlock :: "sched_env \<Rightarrow> block \<Rightarrow> scheduler \<Rightarrow> (sched_error + scheduler) option" where
  "scheduleBasicBlock E blk s =
     (let (s, wasUpdated) = setFlags SetScheduled blk s
      in if \<not> wasUpdated then Some (Inr s)
         else case updateChildrenWithLocking E blk s of
                Inl e \<Rightarrow> Some (Inl e)
              | Inr s \<Rightarrow>
                  Option.bind (selectBlockToScheduleWithLocking E s) (\<lambda>r.
                    Some (map_sum id (trigger (BlockScheduled blk)) r)))"

definition scheduleValidationBlock :: "sched_env \<Rightarrow> block \<Rightarrow> scheduler \<Rightarrow> (sched_error + scheduler) option" where
  "scheduleValidationBlock E blk s =
     (let (s, wasUpdated) = setFlags SetScheduled blk s
      in if \<not> wasUpdated then Some (Inr s)
         else case updateChildrenWithLocking E blk s of
                Inl e \<Rightarrow> Some (Inl e)
              | Inr s \<Rightarrow>
                  Option.bind (selectBlockToScheduleWithLocking E s) (\<lambda>r.
                    Some (map_sum id (trigger (BlockScheduled blk)) r)))"

text \<open>
  The waiting of the worker before it schedules a block, for a given waiting time: None when the worker
  waits forever.  The result counts the timers that have been waited for.
\<close>

partial_function (option) waitLoop :: "int \<Rightarrow> nat \<Rightarrow> nat option" where
  "waitLoop waitTime timers = (if waitTime > 0 then waitLoop waitTime (Suc timers) else Some timers)"

section \<open>Hooks and lifetime\<close>

definition onBlockBooked :: "sched_env \<Rightarrow> block \<Rightarrow> scheduler \<Rightarrow> (sched_error + scheduler) option" where
  "onBlockBooked E blk s =
     Option.bind (AddBlock E blk s) (\<lambda>r. case r of Inl e \<Rightarrow> Some (Inl e) | Inr s \<Rightarrow> selectBlockToScheduleWithLocking E s)"

definition onAccountCreated :: "account_id \<Rightarrow> scheduler \<Rightarrow> sched_error + scheduler" where
  "onAccountCreated accountID s = (if isShutdown s then Inr s else map_sum id fst (createIssuer accountID s))"

definition onAccountDestroyed :: "sched_env \<Rightarrow> account_id \<Rightarrow> scheduler \<Rightarrow> sched_error + scheduler" where
  "onAccountDestroyed E accountID s = (if isShutdown s then Inr s else removeIssuer E accountID s)"

text \<open>The hook on a new commitment; \<open>SlotsBeforeNextEpoch\<close> comes from the time provider.\<close>

definition onLatestCommitmentUpdated :: "sched_env \<Rightarrow> (slot_index \<Rightarrow> slot_index) \<Rightarrow> slot_index \<Rightarrow> scheduler \<Rightarrow> scheduler" where
  "onLatestCommitmentUpdated E SlotsBeforeNextEpoch slot s =
     (if SlotsBeforeNextEpoch slot = 0 \<and> \<not> isShutdown s then
        case committeeInSlot E (slot + 1) of
          None \<Rightarrow> trigger (CommitteeMissing (slot + 1)) s
        | Some hasAccount \<Rightarrow>
            s\<lparr>validatorBuffer := ValidatorBuffer_Delete (se_iterAccounts E) (\<lambda>q. \<not> hasAccount (vq_accountID q)) (validatorBuffer s)\<rparr>
      else s)"

definition Reset :: "sched_env \<Rightarrow> scheduler \<Rightarrow> sched_error + scheduler" where
  "Reset E s =
     (if isShutdown s then Inr s
      else map_sum id (\<lambda>s. s\<lparr>validatorBuffer := ValidatorBuffer_Clear (se_iterAccounts E) (validatorBuffer s)\<rparr>)
             (withBuffer (Buffer_Clear (se_iterAccounts E) (sc_buffer s)) s))"

definition shutdown :: "sched_env \<Rightarrow> scheduler \<Rightarrow> scheduler" where
  "shutdown E s =
     (if isShutdown s then s
      else trigger Stopped (s\<lparr>isShutdown := True, validatorBuffer := ValidatorBuffer_Clear (se_iterAccounts E) (validatorBuffer s)\<rparr>))"

definition ValidatorQueueBlockCount :: "scheduler \<Rightarrow> account_id \<Rightarrow> int" where
  "ValidatorQueueBlockCount s issuerID =
     (case vb_buffer (validatorBuffer s) issuerID of None \<Rightarrow> 0 | Some q \<Rightarrow> ValidatorQueue_Size q)"

definition Scheduler_ReadyBlocksCount :: "scheduler \<Rightarrow> int" where
  "Scheduler_ReadyBlocksCount s = (if isShutdown s then 0 else ReadyBlocksCount (sc_buffer s))"

section \<open>Deficits and rounds\<close>

lemma sint_maxDeficit: "sint maxDeficit = 4611686018427387903" "unat maxDeficit = 4611686018427387903"
  by (simp_all add: maxDeficit_def)

lemma sint_small: "unat (x :: i64) < 2 ^ 63 \<Longrightarrow> sint x = int (unat x)"
proof -
  assume x: "unat x < 2 ^ 63"
  have "word_of_nat (unat x) = x" by simp
  then show "sint x = int (unat x)" using sint_of_nat_64 [OF x] by metis
qed

lemma quantumFunc_range:
  assumes "quantumFunc E i slot = Some q"
  shows "1 \<le> sint q" "sint q \<le> sint maxDeficit"
proof -
  obtain m where q: "q = 1 + min m (maxDeficit - 1)" using assms by (auto simp: quantumFunc_def)
  have "unat (min m (maxDeficit - 1)) \<le> 4611686018427387902" by (simp add: min_def maxDeficit_def word_le_nat_alt)
  then have u: "unat q = Suc (unat (min m (maxDeficit - 1)))" "unat q \<le> 4611686018427387903"
    unfolding q by (simp_all add: unat_word_ariths)
  have "unat q < 2 ^ 63" by (rule le_less_trans [OF u(2)]) simp
  then have "sint q = int (unat q)" by (rule sint_small)
  then show "1 \<le> sint q" "sint q \<le> sint maxDeficit" using u unfolding sint_maxDeficit by linarith+
qed

lemma deficitFromWork_range:
  assumes "0 < MaxBlockWork E" "work \<le> MaxBlockWork E"
  shows "0 \<le> sint (deficitFromWork E work)" "sint (deficitFromWork E work) \<le> sint maxDeficit"
proof -
  let ?f = "unat maxDeficit div unat (MaxBlockWork E)"
  have "unat work * ?f \<le> unat (MaxBlockWork E) * ?f" using assms(2) by (simp add: word_le_nat_alt)
  also have "\<dots> \<le> unat maxDeficit" by simp
  finally have b: "unat work * ?f \<le> 4611686018427387903" by (simp add: sint_maxDeficit)
  have "deficitFromWork E work = word_of_nat (unat work * ?f)" by (simp add: deficitFromWork_def unsigned_ucast_eq)
  moreover have "unat work * ?f < 2 ^ 63" by (rule le_less_trans [OF b]) simp
  ultimately have "sint (deficitFromWork E work) = int (unat work * ?f)"
    using sint_of_nat_64 by metis
  then show "0 \<le> sint (deficitFromWork E work)" "sint (deficitFromWork E work) \<le> sint maxDeficit"
    using b unfolding sint_maxDeficit by linarith+
qed

lemma updateDeficit_enough:
  assumes "safemath_ok (se_math E)" "deficits s i = Some d" "0 \<le> sint d" "0 \<le> sint d + sint delta"
  shows "\<exists>d'. updateDeficit E i delta s = (s\<lparr>deficits := (deficits s)(i \<mapsto> d')\<rparr>, Some d') \<and>
    sint d' = min (sint d + sint delta) (sint maxDeficit)"
proof (cases "in_i64 (sint d + sint delta)")
  case True
  then have "sint (word_of_int (sint d + sint delta) :: i64) = sint d + sint delta" by (rule sint_word_of_int_64)
  then show ?thesis using True assms
    by (auto simp: updateDeficit_def safemath_laws fit_i64_def min_def)
next
  case False
  then show ?thesis using assms sint_range_64 [of delta] sint_range_64 [of d]
    by (auto simp: updateDeficit_def safemath_laws fit_i64_def min_def in_i64_def sint_maxDeficit)
qed

lemma updateDeficit_short:
  assumes "safemath_ok (se_math E)" "deficits s i = Some d" "0 \<le> sint d" "sint d + sint delta < 0"
  shows "updateDeficit E i delta s = (trigger (LogPanic i) (s\<lparr>deficits := (deficits s)(i \<mapsto> 0)\<rparr>), None)"
proof -
  have i: "in_i64 (sint d + sint delta)" using assms(3,4) sint_range_64 [of delta] by (simp add: in_i64_def)
  then have "sint (word_of_int (sint d + sint delta) :: i64) = sint d + sint delta" by (rule sint_word_of_int_64)
  then show ?thesis using i assms by (simp add: updateDeficit_def safemath_laws fit_i64_def sint_maxDeficit)
qed

lemma trunc_div_pos: "0 < q \<Longrightarrow> 0 \<le> n \<Longrightarrow> trunc_div n q = n div q"
  by (cases "n = 0") (simp_all add: trunc_div_def sgn_if)

lemma trunc_div_neg: "0 < q \<Longrightarrow> n \<le> 0 \<Longrightarrow> trunc_div n q \<le> 0 \<and> n \<le> trunc_div n q"
proof -
  assume q: "0 < q" "n \<le> 0"
  have "0 \<le> - n div q" "- n div q \<le> - n" using q zdiv_mono2 [of "- n" 1 q] by (simp_all add: pos_imp_zdiv_nonneg_iff)
  then show ?thesis using q by (cases "n = 0") (simp_all add: trunc_div_def sgn_if)
qed

lemma roundsFor_eq:
  assumes "safemath_ok (se_math E)" "0 \<le> sint d" "sint d \<le> sint maxDeficit" "0 < MaxBlockWork E" "work \<le> MaxBlockWork E"
    and "1 \<le> sint q" "sint q \<le> sint maxDeficit"
  defines "N \<equiv> sint (deficitFromWork E work) - sint d + sint q - 1"
  shows "\<exists>r. roundsFor E work d q = Some r \<and> sint r = trunc_div N (sint q) \<and> \<bar>sint r\<bar> < 9223372036854775807"
proof -
  let ?c = "deficitFromWork E work"
  note c = deficitFromWork_range [OF assms(4,5)]
  have rem: "sint (?c - d) = sint ?c - sint d"
    using sint_word_of_int_64 [of "sint ?c - sint d"] c assms(2,3) by (simp add: in_i64_def word_of_int_sint_diff sint_maxDeficit)
  have q1: "sint (q - 1) = sint q - 1"
    using sint_word_of_int_64 [of "sint q - 1"] assms(6,7) word_of_int_sint_diff [of q 1] by (simp add: in_i64_def sint_maxDeficit)
  have N: "- 4611686018427387903 \<le> N" "N < 9223372036854775806" using c assms(2,3,6,7) unfolding N_def sint_maxDeficit by linarith+
  then have N64: "in_i64 N" by (simp add: in_i64_def)
  have num: "add_i64 (se_math E) (?c - d) (q - 1) = Some (word_of_int N)"
    using N64 by (simp add: safemath_add_i64 [OF assms(1)] rem q1 fit_i64_def N_def algebra_simps)
  have R: "\<bar>trunc_div N (sint q)\<bar> < 9223372036854775807"
  proof (cases "0 \<le> N")
    case True
    have "N div sint q \<le> N" "0 \<le> N div sint q" using True assms(6) zdiv_mono2 [of N 1 "sint q"] by (simp_all add: pos_imp_zdiv_nonneg_iff)
    then show ?thesis using True N trunc_div_pos [of "sint q" N] assms(6) by simp
  next
    case False
    then show ?thesis using N trunc_div_neg [of "sint q" N] assms(6) by simp
  qed
  then have R64: "in_i64 (trunc_div N (sint q))" by (simp add: in_i64_def abs_less_iff)
  have "q \<noteq> 0" using assms(6) by auto
  then have "roundsFor E work d q = Some (word_of_int (trunc_div N (sint q)))"
    using R64 N64 by (simp add: roundsFor_def num safemath_div_i64 [OF assms(1)] sint_word_of_int_64 fit_i64_def)
  then show ?thesis using R R64 by (simp add: sint_word_of_int_64)
qed

lemma incrementDeficit_enough:
  assumes "safemath_ok (se_math E)" "deficits s i = Some d" "0 \<le> sint d" "quantumFunc E i slot = Some q" "0 \<le> sint r"
  shows "\<exists>d'. incrementDeficit E i r slot s = (s\<lparr>deficits := (deficits s)(i \<mapsto> d')\<rparr>, Some d') \<and>
    sint d' = min (sint d + sint q * sint r) (sint maxDeficit)"
proof -
  note q = quantumFunc_range [OF assms(4)]
  have pos: "0 \<le> sint q * sint r" using q(1) assms(5) by simp
  define delta where "delta = (case mul_i64 (se_math E) q r of None \<Rightarrow> maxDeficit | Some d \<Rightarrow> d)"
  have inc: "incrementDeficit E i r slot s = updateDeficit E i delta s" using assms(4) by (simp add: incrementDeficit_def delta_def)
  show ?thesis
  proof (cases "in_i64 (sint q * sint r)")
    case True
    then have "delta = word_of_int (sint q * sint r)" using assms(1) by (simp add: delta_def safemath_laws fit_i64_def)
    then have "sint delta = sint q * sint r" using True by (simp only: sint_word_of_int_64)
    then show ?thesis using updateDeficit_enough [OF assms(1-3), of delta] pos assms(3) inc by simp
  next
    case False
    then have "delta = maxDeficit" "sint maxDeficit \<le> sint q * sint r"
      using assms(1) pos by (simp_all add: delta_def safemath_laws fit_i64_def in_i64_def sint_maxDeficit)
    then show ?thesis using updateDeficit_enough [OF assms(1-3), of maxDeficit] assms(3) inc by (auto simp: min_def sint_maxDeficit)
  qed
qed

text \<open>Rounding up a quotient.\<close>

lemma rounds_up:
  fixes k q :: int
  assumes "0 < k" "1 \<le> q"
  defines "r \<equiv> (k + q - 1) div q"
  shows "k \<le> q * r" "q * (r - 1) < k" "0 < r"
proof -
  have m: "q * r = (k + q - 1) - (k + q - 1) mod q" unfolding r_def by (simp add: minus_mod_eq_mult_div)
  have b: "0 \<le> (k + q - 1) mod q" "(k + q - 1) mod q < q" using assms(2) by simp_all
  show up: "k \<le> q * r" and "q * (r - 1) < k" using m b by (simp_all add: right_diff_distrib)
  show "0 < r"
  proof (rule ccontr)
    assume "\<not> 0 < r"
    then show False using mult_nonneg_nonpos [of q r] up assms by simp
  qed
qed

lemma trunc_div_less: "0 < q \<Longrightarrow> n < q \<Longrightarrow> trunc_div n q \<le> 0"
  using trunc_div_pos [of q n] trunc_div_neg [of q n] by (cases "0 \<le> n") (simp_all add: div_pos_pos_trivial)

text \<open>
  C17. The number of rounds that the selection computes is exact: when the deficit of an issuer already
  covers its block it is not positive; otherwise that many increments cover the block, one less does
  not, and charging the issuer for the block afterwards succeeds and leaves a deficit between zero and
  the maximum.
\<close>

theorem rounds_pay_for_block:
  assumes "safemath_ok (se_math E)" "deficits s i = Some d" "0 \<le> sint d" "sint d \<le> sint maxDeficit"
    and "0 < MaxBlockWork E" "work \<le> MaxBlockWork E" "quantumFunc E i slot = Some q"
  shows "\<exists>r. roundsFor E work d q = Some r \<and>
    (if sint (deficitFromWork E work) \<le> sint d then sint r \<le> 0
     else 0 < sint r \<and> sint d + sint q * (sint r - 1) < sint (deficitFromWork E work) \<and>
       (\<exists>s1 d1 s2 d2. incrementDeficit E i r slot s = (s1, Some d1) \<and> sint (deficitFromWork E work) \<le> sint d1 \<and>
          updateDeficit E i (- deficitFromWork E work) s1 = (s2, Some d2) \<and>
          sint d2 = sint d1 - sint (deficitFromWork E work) \<and> sint d1 \<le> sint maxDeficit))"
proof -
  let ?c = "deficitFromWork E work"
  note c = deficitFromWork_range [OF assms(5,6)] and q = quantumFunc_range [OF assms(7)]
  let ?N = "sint ?c - sint d + sint q - 1"
  obtain r where r: "roundsFor E work d q = Some r" "sint r = trunc_div ?N (sint q)"
    using roundsFor_eq [OF assms(1,3-6) q] by blast
  show ?thesis
  proof (cases "sint ?c \<le> sint d")
    case True
    then have "sint r \<le> 0" unfolding r(2) using q(1) by (intro trunc_div_less) simp_all
    then show ?thesis using r(1) True by auto
  next
    case False
    define k where "k = sint ?c - sint d"
    have k: "0 < k" using False by (simp add: k_def)
    have sr: "sint r = (k + sint q - 1) div sint q" using r(2) trunc_div_pos [of "sint q" ?N] k q(1) by (simp add: k_def)
    note up = rounds_up(1) [OF k q(1), folded sr] and low = rounds_up(2) [OF k q(1), folded sr] and pos = rounds_up(3) [OF k q(1), folded sr]
    obtain d1 where d1: "incrementDeficit E i r slot s = (s\<lparr>deficits := (deficits s)(i \<mapsto> d1)\<rparr>, Some d1)"
      "sint d1 = min (sint d + sint q * sint r) (sint maxDeficit)"
      using incrementDeficit_enough [OF assms(1-3,7), of r] pos by auto
    have enough: "sint ?c \<le> sint d1" using d1(2) up c(2) by (simp add: k_def min_def)
    have "in_i64 (- sint ?c)" using c by (simp add: in_i64_def sint_maxDeficit)
    from sint_word_of_int_64 [OF this] have neg: "sint (- ?c) = - sint ?c" by (simp add: of_int_sint)
    obtain d2 where d2: "updateDeficit E i (- ?c) (s\<lparr>deficits := (deficits s)(i \<mapsto> d1)\<rparr>) =
        (s\<lparr>deficits := (deficits s)(i \<mapsto> d1)\<rparr>\<lparr>deficits := (deficits (s\<lparr>deficits := (deficits s)(i \<mapsto> d1)\<rparr>))(i \<mapsto> d2)\<rparr>, Some d2)"
      "sint d2 = min (sint d1 - sint ?c) (sint maxDeficit)"
      using updateDeficit_enough [OF assms(1), of "s\<lparr>deficits := (deficits s)(i \<mapsto> d1)\<rparr>" i d1 "- ?c"] enough c(1) neg by auto
    have "sint d1 \<le> sint maxDeficit" using d1(2) by simp
    then have "sint d2 = sint d1 - sint ?c" using d2(2) c(1) by simp
    then show ?thesis using r(1) False pos low d1(1) d2(1) enough \<open>sint d1 \<le> sint maxDeficit\<close> by (auto simp: k_def)
  qed
qed

definition demo_sched_env :: sched_env where
  "demo_sched_env =
     \<lparr>se_queue = std_queue_env, se_math = checked_math, manaOnAccount = (\<lambda>_ _. Some 999), se_latestCommittedSlot = 0,
      MaxBlockWork = 100, MaxBufferSize = 2, MaxValidationBufferSize = 2, se_now = 50, maxCommittableAgeDuration = 20,
      parentsOf = (\<lambda>_. []), childrenOf = (\<lambda>_. []), inBlockCache = (\<lambda>_. True), se_iterAccounts = sorted_list_of_set,
      committeeInSlot = (\<lambda>_. None)\<rparr>"

definition no_flags :: block_flags where
  "no_flags = \<lparr>fl_accepted = False, fl_scheduled = False, fl_skipped = False, fl_dropped = False, fl_enqueued = False\<rparr>"

theorem rounds_pay_for_block_witness:
  "\<exists>r. roundsFor demo_sched_env 1 0 1000 = Some r \<and> 0 < sint r"
proof -
  let ?s = "(New_scheduler (\<lambda>_. no_flags))\<lparr>deficits := [7 \<mapsto> 0]\<rparr>"
  have q: "quantumFunc demo_sched_env 7 0 = Some 1000"
    by (simp add: quantumFunc_def demo_sched_env_def maxDeficit_def min_def)
  have c: "\<not> sint (deficitFromWork demo_sched_env 1) \<le> sint (0 :: i64)"
    by (simp add: deficitFromWork_def demo_sched_env_def maxDeficit_def)
  show ?thesis
    using rounds_pay_for_block [of demo_sched_env ?s 7 0 1 0 1000] q c
    by (auto simp: demo_sched_env_def maxDeficit_def)
qed

section \<open>The selection of an issuer\<close>

text \<open>
  The rounds of a queue whose front is not committed, and what the selection needs to know of such a
  queue: the deficit of the issuer and its quantum.
\<close>

definition queueRounds :: "sched_env \<Rightarrow> slot_index \<Rightarrow> scheduler \<Rightarrow> addr \<Rightarrow> i64 option" where
  "queueRounds E slot s a =
     (case Front (queueAt (sc_buffer s) a) of
        None \<Rightarrow> None
      | Some blk \<Rightarrow>
          if \<not> blk_IssuingTime blk < se_now E then None
          else roundsFor E (blk_WorkScore blk) (the (deficits s (blk_IssuerID blk))) (the (quantumFunc E (blk_IssuerID blk) slot)))"

definition examinable :: "sched_env \<Rightarrow> slot_index \<Rightarrow> scheduler \<Rightarrow> addr \<Rightarrow> bool" where
  "examinable E slot s a \<longleftrightarrow> (\<forall>blk. Front (queueAt (sc_buffer s) a) = Some blk \<longrightarrow> blk_IssuingTime blk < se_now E \<longrightarrow>
     \<not> IsCommitted E s blk \<and> blk_WorkScore blk \<le> MaxBlockWork E \<and> quantumFunc E (blk_IssuerID blk) slot \<noteq> None \<and>
     (\<exists>d. deficits s (blk_IssuerID blk) = Some d \<and> 0 \<le> sint d \<and> sint d \<le> sint maxDeficit))"

lemma examineQueue_rounds:
  assumes "safemath_ok (se_math E)" "0 < MaxBlockWork E" "examinable E slot s a"
  shows "examineQueue E slot a s = Some (Inr (s, queueRounds E slot s a))"
    "\<And>r. queueRounds E slot s a = Some r \<Longrightarrow> sint r < 9223372036854775807"
    "queueRounds E slot s a = None \<longleftrightarrow>
      (\<forall>blk. Front (queueAt (sc_buffer s) a) = Some blk \<longrightarrow> se_now E \<le> blk_IssuingTime blk)"
proof -
  have "examineQueue E slot a s = Some (Inr (s, queueRounds E slot s a)) \<and>
    (\<forall>r. queueRounds E slot s a = Some r \<longrightarrow> sint r < 9223372036854775807) \<and>
    (queueRounds E slot s a = None \<longleftrightarrow>
      (\<forall>blk. Front (queueAt (sc_buffer s) a) = Some blk \<longrightarrow> se_now E \<le> blk_IssuingTime blk))"
  proof (cases "\<exists>blk. Front (queueAt (sc_buffer s) a) = Some blk \<and> blk_IssuingTime blk < se_now E")
    case False
    then show ?thesis by (subst examineQueue.simps) (auto simp: queueRounds_def not_less split: option.splits)
  next
    case True
    then obtain blk where b: "Front (queueAt (sc_buffer s) a) = Some blk" "blk_IssuingTime blk < se_now E" by blast
    then obtain d q where d: "\<not> IsCommitted E s blk" "blk_WorkScore blk \<le> MaxBlockWork E"
      "quantumFunc E (blk_IssuerID blk) slot = Some q" "deficits s (blk_IssuerID blk) = Some d" "0 \<le> sint d" "sint d \<le> sint maxDeficit"
      using assms(3) by (auto simp: examinable_def)
    obtain r where r: "roundsFor E (blk_WorkScore blk) d q = Some r" "\<bar>sint r\<bar> < 9223372036854775807"
      using roundsFor_eq [OF assms(1) d(5,6) assms(2) d(2) quantumFunc_range [OF d(3)]] by blast
    have "queueRounds E slot s a = Some r" using b d r(1) by (simp add: queueRounds_def)
    moreover have "examineQueue E slot a s = Some (Inr (s, Some r))" using b d r(1) by (subst examineQueue.simps) simp
    ultimately show ?thesis using r(2) b by (auto simp: not_le)
  qed
  then show "examineQueue E slot a s = Some (Inr (s, queueRounds E slot s a))"
    "\<And>r. queueRounds E slot s a = Some r \<Longrightarrow> sint r < 9223372036854775807"
    "queueRounds E slot s a = None \<longleftrightarrow>
      (\<forall>blk. Front (queueAt (sc_buffer s) a) = Some blk \<longrightarrow> se_now E \<le> blk_IssuingTime blk)" by blast+
qed

text \<open>The first queue with the least rounds, after the queues \<open>ys\<close> have been examined.\<close>

definition firstLeast :: "(addr \<Rightarrow> i64 option) \<Rightarrow> addr list \<Rightarrow> i64 \<Rightarrow> addr option \<Rightarrow> bool" where
  "firstLeast f xs m c \<longleftrightarrow>
     (case c of
        None \<Rightarrow> m = 9223372036854775807 \<and> (\<forall>x\<in>set xs. f x = None)
      | Some a \<Rightarrow> f a = Some m \<and> (\<exists>ys zs. xs = ys @ a # zs \<and>
          (\<forall>y\<in>set ys. \<forall>r. f y = Some r \<longrightarrow> sint m < sint r) \<and> (\<forall>z\<in>set zs. \<forall>r. f z = Some r \<longrightarrow> sint m \<le> sint r)))"

lemma firstLeast_Some:
  assumes "f a = Some m" "xs = ys @ a # zs" "\<And>y r. y \<in> set ys \<Longrightarrow> f y = Some r \<Longrightarrow> sint m < sint r"
    and "\<And>z r. z \<in> set zs \<Longrightarrow> f z = Some r \<Longrightarrow> sint m \<le> sint r"
  shows "firstLeast f xs m (Some a)"
  unfolding firstLeast_def option.case using assms by blast

lemma firstLeast_keep:
  assumes "firstLeast f xs m c" "\<And>r. f a = Some r \<Longrightarrow> c \<noteq> None \<and> sint m \<le> sint r"
  shows "firstLeast f (xs @ [a]) m c"
proof (cases c)
  case None
  then show ?thesis using assms by (cases "f a") (auto simp: firstLeast_def)
next
  case (Some x)
  then obtain ys zs where "f x = Some m" "xs = ys @ x # zs"
    "\<forall>y\<in>set ys. \<forall>r. f y = Some r \<longrightarrow> sint m < sint r" "\<forall>z\<in>set zs. \<forall>r. f z = Some r \<longrightarrow> sint m \<le> sint r"
    using assms(1) by (auto simp: firstLeast_def)
  then show ?thesis unfolding Some using assms(2) by (intro firstLeast_Some [where ys = ys and zs = "zs @ [a]"]) auto
qed

lemma firstLeast_better:
  assumes "firstLeast f xs m c" "f a = Some r" "sint r < sint m"
  shows "firstLeast f (xs @ [a]) r (Some a)"
proof -
  have "\<forall>y\<in>set xs. \<forall>k. f y = Some k \<longrightarrow> sint r < sint k"
  proof (cases c)
    case None
    then show ?thesis using assms(1) by (simp add: firstLeast_def)
  next
    case (Some x)
    then show ?thesis using assms(1,3) by (fastforce simp: firstLeast_def)
  qed
  then show ?thesis using assms(2) by (intro firstLeast_Some [where ys = xs and zs = "[]"]) auto
qed

lemma selectLoop_firstLeast:
  assumes "safemath_ok (se_math E)" "0 < MaxBlockWork E" "\<forall>a\<in>set as. examinable E slot s a"
    and "firstLeast (queueRounds E slot s) xs m c"
  shows "\<exists>m' c'. selectLoop E slot as s m c = Some (Inr (s, m', c')) \<and> firstLeast (queueRounds E slot s) (xs @ as) m' c'"
  using assms(3,4)
proof (induction as arbitrary: xs m c)
  case (Cons a as)
  note e = examineQueue_rounds [OF assms(1,2), of slot s a]
  have a: "examinable E slot s a" "\<forall>a\<in>set as. examinable E slot s a" using Cons(2) by auto
  show ?case
  proof (cases "\<exists>r. queueRounds E slot s a = Some r \<and> sint r < sint m")
    case True
    then obtain r where r: "queueRounds E slot s a = Some r" "sint r < sint m" by blast
    from Cons(1) [OF a(2) firstLeast_better [OF Cons(3) r]] show ?thesis using e(1) [OF a(1)] r by simp
  next
    case False
    have "firstLeast (queueRounds E slot s) (xs @ [a]) m c"
    proof (rule firstLeast_keep [OF Cons(3)])
      fix r assume r: "queueRounds E slot s a = Some r"
      have "c \<noteq> None"
      proof
        assume "c = None"
        then have "m = 9223372036854775807" using Cons(3) by (simp add: firstLeast_def)
        then have "sint m = 9223372036854775807" by simp
        then show False using False r e(2) [OF a(1) r] by auto
      qed
      then show "c \<noteq> None \<and> sint m \<le> sint r" using False r by auto
    qed
    from Cons(1) [OF a(2) this] show ?thesis using e(1) [OF a(1)] False by (cases "queueRounds E slot s a") auto
  qed
qed simp


definition demo_scheduler :: scheduler where
  "demo_scheduler =
     (New_scheduler (\<lambda>_. no_flags))
       \<lparr>sc_buffer := setQueue 0 (demo_queue, \<lparr>totalBlocksCount = 3, readyBlocksCount = 2\<rparr>) demo_buffer, deficits := [7 \<mapsto> 0]\<rparr>"

lemma demo_scheduler_fronts:
  "Front (queueAt (sc_buffer demo_scheduler) 0) = Some (queue_block 1 7 10 1)"
  "Front (queueAt (sc_buffer demo_scheduler) 1) = None" "Front (queueAt (sc_buffer demo_scheduler) 2) = None"
  using demo_buffer_queues by (simp_all add: demo_scheduler_def Front_def demo_queue_def NewIssuerQueue_def)


section \<open>Blocks that are dropped on submission\<close>

lemma dropBlocks_flags:
  "\<not> fl_enqueued (flagsOf s i) \<Longrightarrow> flagsOf (fold dropBlock d s) i = flagsOf s i"
proof (induction d arbitrary: s)
  case (Cons x d)
  have "flagsOf (dropBlock x s) i = flagsOf s i"
    using Cons(2) by (auto simp: dropBlock_def setFlags_def SetDropped_def trigger_def Let_def)
  then show ?case using Cons by simp
qed simp

lemma dropBlocks_other:
  "sc_events (fold dropBlock d s) = sc_events s @ map BlockDropped d" "sc_buffer (fold dropBlock d s) = sc_buffer s"
  by (induction d arbitrary: s) (simp_all add: dropBlock_def setFlags_def trigger_def split: prod.splits)

text \<open>
  C39. A block that the buffer drops in the same call that submits it is reported as dropped and then as
  enqueued: it is not in the enqueued state yet when it should be marked as dropped, so that its dropped
  flag stays as it was, and it is marked as enqueued afterwards.
\<close>

theorem dropped_block_is_enqueued:
  assumes "\<not> isShutdown s" "activeIssuers (sc_buffer s) (blk_IssuerID blk) = Some a"
    and "Buffer_Submit (se_queue E) blk a (quantumInSlot E (se_latestCommittedSlot E)) (MaxBufferSize E) (sc_buffer s) = Some (Inr (b, d, True))"
    and "blk \<in> set d" "\<not> fl_enqueued (flagsOf s (blk_ID blk))"
  shows "\<exists>s'. enqueueBasicBlock E blk s = Some (Inr s') \<and>
    flagsOf s' (blk_ID blk) = (flagsOf s (blk_ID blk))\<lparr>fl_enqueued := True\<rparr> \<and>
    sc_events s' = sc_events s @ map BlockDropped d @ [BlockEnqueued blk]"
proof -
  obtain e where g: "getOrCreateIssuer (blk_IssuerID blk) s = Inr (s\<lparr>deficits := e\<rparr>, a)"
    using assms(2) by (simp add: getOrCreateIssuer_def GetOrCreateIssuerQueue_def Let_def)
  define s1 where "s1 = fold dropBlock d (s\<lparr>deficits := e, sc_buffer := b\<rparr>)"
  have f: "flagsOf s1 (blk_ID blk) = flagsOf s (blk_ID blk)" "sc_events s1 = sc_events s @ map BlockDropped d"
    using dropBlocks_flags [of "s\<lparr>deficits := e, sc_buffer := b\<rparr>" "blk_ID blk" d] assms(5) by (simp_all add: s1_def dropBlocks_other)
  define s2 where "s2 = s1\<lparr>flagsOf := (flagsOf s1)(blk_ID blk := (flagsOf s1 (blk_ID blk))\<lparr>fl_enqueued := True\<rparr>)\<rparr>"
  have "setFlags SetEnqueued blk s1 = (s2, True)" using f(1) assms(5) by (simp add: setFlags_def SetEnqueued_def s2_def Let_def)
  then have "enqueueBasicBlock E blk s = Some (Inr (tryReady E blk (trigger (BlockEnqueued blk) s2)))"
    using assms(1,3) g by (simp add: enqueueBasicBlock_def s1_def)
  then show ?thesis using f by (simp add: tryReady_def trigger_def s2_def)
qed

theorem dropped_block_is_enqueued_witness:
  "\<exists>s'. enqueueBasicBlock (demo_sched_env\<lparr>MaxBufferSize := 0\<rparr>) (queue_block 1 7 10 1)
       ((New_scheduler (\<lambda>_. no_flags))\<lparr>sc_buffer := demo_buffer\<rparr>) = Some (Inr s') \<and>
     sc_events s' = [BlockDropped (queue_block 1 7 10 1), BlockEnqueued (queue_block 1 7 10 1)]"
proof -
  let ?E = "demo_sched_env\<lparr>MaxBufferSize := 0\<rparr>" and ?blk = "queue_block 1 7 10 1"
  let ?s = "(New_scheduler (\<lambda>_. no_flags))\<lparr>sc_buffer := demo_buffer\<rparr>"
  let ?q = "quantumInSlot ?E (se_latestCommittedSlot ?E)"
  from Submit_total [OF std_queue_env_ok demo_buffer_ok(1,2) demo_submit(2) order.refl demo_submit(1,3) demo_buffer_blocks(2) demo_submit(4,5), of ?q]
  obtain b d where r: "Buffer_Submit std_queue_env ?blk 0 ?q 0 demo_buffer = Some (Inr (b, d, True))"
    "TotalBlocksCount b \<le> 0" "{#?blk#} = allBlocks b + mset d" "buffer_ok b" unfolding demo_buffer_blocks(1) by blast
  then have d: "d = [?blk]" using only_block_dropped by blast
  have E: "se_queue ?E = std_queue_env" "MaxBufferSize ?E = 0" by (simp_all add: demo_sched_env_def)
  have s: "\<not> isShutdown ?s" "sc_buffer ?s = demo_buffer" "\<not> fl_enqueued (flagsOf ?s (blk_ID ?blk))" "sc_events ?s = []"
    by (simp_all add: New_scheduler_def no_flags_def)
  show ?thesis
    using dropped_block_is_enqueued [of ?s ?blk 0 ?E b d] r(1) s demo_submit(1) unfolding E s d by auto
qed

section \<open>The worker\<close>

text \<open>
  The worker that schedules basic blocks never gets past a positive waiting time: its loop tests a
  variable that it does not update.
\<close>

lemma waitLoop_never_ends: "waitLoop waitTime timers = (if 0 < waitTime then None else Some timers)"
proof (cases "0 < waitTime")
  case True
  have "waitLoop w n = Some y \<Longrightarrow> \<not> 0 < w" for w n y
    by (induction rule: waitLoop.raw_induct [rotated, consumes 1, case_names step]) (auto split: if_splits)
  then show ?thesis using True by (cases "waitLoop waitTime timers") auto
next
  case False
  then show ?thesis by (subst waitLoop.simps) simp
qed

end
