(* ===== verification/Rewards.thy ===== *)
theory Rewards
  imports Seats AccountData Outputs
begin

text \<open>
  Validator performance and rewards: \<^verbatim>\<open>sybilprotectionv1/performance/performance.go\<close>,
  \<^verbatim>\<open>sybilprotectionv1/performance/rewards.go\<close>, and the records of \<^verbatim>\<open>model/poolstats.go\<close> and
  \<^verbatim>\<open>model/validator_performance.go\<close>.

  \<^item> \<open>tracker\<close> is the Go struct with its stores as maps.  A function that opens the store of a slot
    or an epoch can fail, which is None; errors of the key-value store itself are not modelled.
  \<^item> \<open>rewards_api\<close> extends \<open>api\<close> with the reward parameters and the providers of iota.go.
  \<^item> The methods that report an error to \<^verbatim>\<open>errHandler\<close> return it beside the tracker.
  \<^item> The lemmas show what tracking records for a slot, that claims return, and that a validator and its delegators together never get
    more than the rewards of their pool.
\<close>

unbundle bit_operations_syntax

section \<open>State, environment and errors\<close>

record pools_stats =
  ps_TotalStake :: base_token
  ps_TotalValidatorStake :: base_token
  ProfitMargin :: u64

record pool_rewards =
  pr_PoolStake :: base_token
  PoolRewards :: mana
  pr_FixedCost :: mana

record validator_performance =
  SlotActivityVector :: u32
  BlocksIssuedCount :: u8
  HighestSupportedVersionAndHash :: version_and_hash

definition NewValidatorPerformance :: validator_performance where
  "NewValidatorPerformance =
     \<lparr>SlotActivityVector = 0, BlocksIssuedCount = 0,
      HighestSupportedVersionAndHash = \<lparr>vh_Version = 0, vh_Hash = 0\<rparr>\<rparr>"

record claimed_staking = staking_feature +
  StartEpoch :: epoch_index

record tracker =
  rewardsStorePerEpoch :: "epoch_index \<Rightarrow> (account_id \<rightharpoonup> pool_rewards) option"
  poolStatsStore :: "epoch_index \<rightharpoonup> pools_stats"
  committeeStore :: "epoch_index \<rightharpoonup> seated_accounts"
  committeeCandidatesInEpoch :: "epoch_index \<Rightarrow> (account_id \<rightharpoonup> slot_index) option"
  nextEpochCommitteeCandidates :: "account_id \<rightharpoonup> slot_index"
  validatorPerformances :: "slot_index \<Rightarrow> (account_id \<rightharpoonup> validator_performance) option"
  latestAppliedEpoch :: epoch_index

text \<open>Times are nanoseconds, as in the record of blocks.\<close>

record rewards_api = api +
  ProfitMarginExponent :: u8
  PoolCoefficientExponent :: u8
  RetentionPeriod :: "16 word"
  TargetReward :: "epoch_index \<Rightarrow> mana option"
  DecayManaByEpochs :: "mana \<Rightarrow> epoch_index \<Rightarrow> epoch_index \<Rightarrow> mana option"
  EpochStart :: "epoch_index \<Rightarrow> slot_index"
  EpochEnd :: "epoch_index \<Rightarrow> slot_index"
  SlotDurationSeconds :: i64
  SlotStartTime :: "slot_index \<Rightarrow> int"

record tracker_env =
  tr_math :: safemath
  APIForEpoch :: "epoch_index \<Rightarrow> rewards_api"
  tr_APIForSlot :: "slot_index \<Rightarrow> rewards_api"
  tr_iter :: "account_id set \<Rightarrow> account_id list"

datatype rewards_error =
    RewardsStoreError epoch_index
  | PoolStatsNil epoch_index
  | RewardsOverflow
  | PanicDivideByZero
  | PanicNegativeShift
  | PanicRewardsStore epoch_index
  | PanicPoolReward account_id
  | CommitteeNotFound epoch_index
  | CommitteeAccountsError seats_error
  | PerformanceStoreError slot_index
  | CandidateStoreError epoch_index

section \<open>Tracking validation blocks\<close>

text \<open>\<^verbatim>\<open>Time.Sub\<close> saturates at the range of a duration.\<close>

definition time_Sub :: "int \<Rightarrow> int \<Rightarrow> int" where
  "time_Sub a b = max (- (2 ^ 63)) (min (2 ^ 63 - 1) (a - b))"

definition subslotIndex :: "tracker_env \<Rightarrow> tracker \<Rightarrow> slot_index \<Rightarrow> int \<Rightarrow> rewards_error + int" where
  "subslotIndex E t slot issuingTime =
     (let epochAPI = APIForEpoch E (latestAppliedEpoch t);
          valBlocksNum = uint (ValidationBlocksPerSlot epochAPI);
          subslotDur = trunc_div (sint (SlotDurationSeconds epochAPI * 1000000000)) valBlocksNum;
          slotStart = SlotStartTime epochAPI slot
      in if valBlocksNum = 0 \<or> subslotDur = 0 then Inl PanicDivideByZero
         else Inr (trunc_div (time_Sub issuingTime slotStart) subslotDur))"

text \<open>The shift \<^verbatim>\<open>1 << i\<close> on 32 bits: negative counts panic, counts from 32 on give zero.\<close>

definition activityBit :: "int \<Rightarrow> rewards_error + u32" where
  "activityBit i = (if i < 0 then Inl PanicNegativeShift else Inr (push_bit (nat i) 1))"

definition trackCommitteeMemberPerformance ::
  "tracker_env \<Rightarrow> u8 \<Rightarrow> hash_id \<Rightarrow> block \<Rightarrow> tracker \<Rightarrow> rewards_error + tracker" where
  "trackCommitteeMemberPerformance E version hash b t =
     (let slot = bid_slot (blk_ID b) in
      and_then (or_err (PerformanceStoreError slot) (validatorPerformances t slot)) (\<lambda>performances.
      let vp = (case performances (blk_IssuerID b) of None \<Rightarrow> NewValidatorPerformance | Some vp \<Rightarrow> vp) in
      and_then (and_then (subslotIndex E t slot (blk_IssuingTime b)) activityBit) (\<lambda>activity.
      let vp = vp\<lparr>SlotActivityVector := SlotActivityVector vp OR activity\<rparr>;
          vp = (if BlocksIssuedCount vp < ValidationBlocksPerSlot (tr_APIForSlot E slot) + 1
                then vp\<lparr>BlocksIssuedCount := BlocksIssuedCount vp + 1\<rparr> else vp);
          vp = vp\<lparr>HighestSupportedVersionAndHash := \<lparr>vh_Version = version, vh_Hash = hash\<rparr>\<rparr>
      in Inr (t\<lparr>validatorPerformances :=
           (validatorPerformances t)(slot := Some (performances(blk_IssuerID b \<mapsto> vp)))\<rparr>))))"

definition LoadCommitteeForEpoch :: "tracker \<Rightarrow> epoch_index \<Rightarrow> seated_accounts option" where
  "LoadCommitteeForEpoch t epoch = committeeStore t epoch"

definition isCommitteeMember ::
  "tracker_env \<Rightarrow> tracker \<Rightarrow> slot_index \<Rightarrow> account_id \<Rightarrow> rewards_error + bool" where
  "isCommitteeMember E t slot accountID =
     (let epoch = EpochFromSlot (APIForEpoch E (latestAppliedEpoch t)) slot in
      and_then (or_err (CommitteeNotFound epoch) (LoadCommitteeForEpoch t epoch)) (\<lambda>committee.
        Inr (HasAccount committee accountID)))"

text \<open>An error leaves the tracker as it was: it is passed to \<^verbatim>\<open>errHandler\<close>, or it is a panic.\<close>

definition TrackValidationBlock :: "tracker_env \<Rightarrow> block \<Rightarrow> tracker \<Rightarrow> rewards_error + tracker" where
  "TrackValidationBlock E b t =
     (case blk_body b of
        ValidationBlock version hash \<Rightarrow>
          and_then (isCommitteeMember E t (bid_slot (blk_ID b)) (blk_IssuerID b)) (\<lambda>member.
            if member then trackCommitteeMemberPerformance E version hash b t else Inr t)
      | _ \<Rightarrow> Inr t)"

section \<open>Candidates\<close>

definition ClearCandidates :: "tracker \<Rightarrow> tracker" where
  "ClearCandidates t = t\<lparr>nextEpochCommitteeCandidates := Map.empty\<rparr>"

definition Tracker_Reset :: "tracker_env \<Rightarrow> slot_index \<Rightarrow> tracker \<Rightarrow> tracker" where
  "Tracker_Reset E lastCommittedSlot t =
     fold (\<lambda>i t. case nextEpochCommitteeCandidates t i of
              None \<Rightarrow> t
            | Some index \<Rightarrow>
                if index > lastCommittedSlot
                then t\<lparr>nextEpochCommitteeCandidates := (nextEpochCommitteeCandidates t)(i := None)\<rparr> else t)
       (tr_iter E (dom (nextEpochCommitteeCandidates t))) t"

text \<open>\<^verbatim>\<open>Compute\<close> stores the value it returns, the zero slot when the entry did not exist.\<close>

definition TrackCandidateBlock ::
  "tracker_env \<Rightarrow> bool \<Rightarrow> block \<Rightarrow> tracker \<Rightarrow> tracker \<times> rewards_error option" where
  "TrackCandidateBlock E announcesCandidacy b t =
     (if \<not> announcesCandidacy then (t, None)
      else
        let slot = bid_slot (blk_ID b);
            issuer = blk_IssuerID b;
            blockEpoch = EpochFromSlot (tr_APIForSlot E slot) slot;
            known = nextEpochCommitteeCandidates t issuer;
            currentValue = (case known of None \<Rightarrow> 0 | Some s \<Rightarrow> s);
            computed = (\<lambda>v t. t\<lparr>nextEpochCommitteeCandidates :=
              (nextEpochCommitteeCandidates t)(issuer \<mapsto> v)\<rparr>)
        in if known = None \<or> currentValue > slot
           then case committeeCandidatesInEpoch t blockEpoch of
                  None \<Rightarrow>
                    (let t = computed currentValue t
                     in (if known = None
                         then t\<lparr>nextEpochCommitteeCandidates := (nextEpochCommitteeCandidates t)(issuer := None)\<rparr>
                         else t, Some (CandidateStoreError blockEpoch)))
                | Some store \<Rightarrow>
                    (computed slot (t\<lparr>committeeCandidatesInEpoch :=
                       (committeeCandidatesInEpoch t)(blockEpoch := Some (store(issuer \<mapsto> slot)))\<rparr>), None)
           else (computed currentValue t, None))"

definition getValidatorCandidates :: "tracker \<Rightarrow> epoch_index \<Rightarrow> rewards_error + account_id set" where
  "getValidatorCandidates t epoch =
     and_then (or_err (CandidateStoreError epoch) (committeeCandidatesInEpoch t epoch)) (\<lambda>store. Inr (dom store))"

section \<open>Rewards of an epoch\<close>

definition OnesCount32 :: "u32 \<Rightarrow> nat" where
  "OnesCount32 v = length (filter (bit v) [0..<32])"

fun sumPerformance :: "u8 \<Rightarrow> validator_performance option list \<Rightarrow> u64 \<Rightarrow> u64 option" where
  "sumPerformance limit [] epochPerformanceFactor = Some epochPerformanceFactor"
| "sumPerformance limit (None # pfs) epochPerformanceFactor = sumPerformance limit pfs epochPerformanceFactor"
| "sumPerformance limit (Some pf # pfs) epochPerformanceFactor =
     (if BlocksIssuedCount pf > limit then None
      else sumPerformance limit pfs
        (epochPerformanceFactor + word_of_nat (OnesCount32 (SlotActivityVector pf))))"

definition aggregatePerformanceFactors ::
  "tracker_env \<Rightarrow> validator_performance option list \<Rightarrow> epoch_index \<Rightarrow> u64" where
  "aggregatePerformanceFactors E slotActivityVector epoch =
     (if slotActivityVector = [] then 0
      else case sumPerformance (ValidationBlocksPerSlot (APIForEpoch E epoch)) slotActivityVector 0 of
        None \<Rightarrow> 0
      | Some f \<Rightarrow> drop_bit (unat (SlotsPerEpochExponent (APIForEpoch E epoch))) f)"

definition calculateProfitMargin ::
  "tracker_env \<Rightarrow> base_token \<Rightarrow> base_token \<Rightarrow> epoch_index \<Rightarrow> rewards_error + u64" where
  "calculateProfitMargin E totalValidatorsStake totalPoolStake epoch =
     and_then (or_err RewardsOverflow
         (shl_u64 (tr_math E) totalValidatorsStake (ProfitMarginExponent (APIForEpoch E epoch)))) (\<lambda>scaled.
       if totalValidatorsStake + totalPoolStake = 0 then Inl PanicDivideByZero
       else Inr (scaled div (totalValidatorsStake + totalPoolStake)))"

definition scaleUpComplement :: "safemath \<Rightarrow> u64 \<Rightarrow> u8 \<Rightarrow> rewards_error + u64" where
  "scaleUpComplement sm val shift =
     and_then (or_err RewardsOverflow (shl_u64 sm 1 shift)) (\<lambda>shiftedOne.
       or_err RewardsOverflow (sub_u64 sm shiftedOne val))"

definition calculatePoolCoefficient ::
  "tracker_env \<Rightarrow> base_token \<Rightarrow> base_token \<Rightarrow> base_token \<Rightarrow> base_token \<Rightarrow> slot_index \<Rightarrow> rewards_error + u64" where
  "calculatePoolCoefficient E poolStake allStake validatorStake allValidatorStake slot =
     (let sm = tr_math E; e = PoolCoefficientExponent (tr_APIForSlot E slot) in
      and_then (or_err RewardsOverflow (shl_u64 sm poolStake e)) (\<lambda>scaledUpPoolStake.
      and_then (or_err RewardsOverflow (div_u64 sm scaledUpPoolStake allStake)) (\<lambda>result1.
      and_then (or_err RewardsOverflow (shl_u64 sm validatorStake e)) (\<lambda>scaledUpValidatorStake.
      and_then (or_err RewardsOverflow (div_u64 sm scaledUpValidatorStake allValidatorStake)) (\<lambda>result2.
      or_err RewardsOverflow (add_u64 sm result1 result2))))))"

definition poolReward ::
  "tracker_env \<Rightarrow> slot_index \<Rightarrow> base_token \<Rightarrow> base_token \<Rightarrow> base_token \<Rightarrow> base_token \<Rightarrow> u64 \<Rightarrow> rewards_error + mana" where
  "poolReward E slot totalValidatorsStake allStake poolStake validatorStake performanceFactor =
     (let sm = tr_math E; A = tr_APIForSlot E slot; epoch = EpochFromSlot A slot in
      and_then (or_err RewardsOverflow (TargetReward A epoch)) (\<lambda>targetReward.
      and_then (calculatePoolCoefficient E poolStake allStake validatorStake totalValidatorsStake slot) (\<lambda>poolCoefficient.
      and_then (or_err RewardsOverflow (mul_u64 sm poolCoefficient targetReward)) (\<lambda>result.
      let result = drop_bit (unat (PoolCoefficientExponent A)) result in
      and_then (or_err RewardsOverflow (mul_u64 sm result performanceFactor)) (\<lambda>scaledPoolReward.
      and_then (or_err RewardsOverflow (div_u64 sm scaledPoolReward (ucast (ValidationBlocksPerSlot A)))) (\<lambda>result.
      Inr (drop_bit 1 result)))))))"

definition slotPerformance :: "tracker \<Rightarrow> account_id \<Rightarrow> slot_index \<Rightarrow> validator_performance option" where
  "slotPerformance t accountID slot =
     (case validatorPerformances t slot of
        None \<Rightarrow> None
      | Some performances \<Rightarrow>
          Some (case performances accountID of None \<Rightarrow> NewValidatorPerformance | Some vp \<Rightarrow> vp))"

definition applyAccount ::
  "tracker_env \<Rightarrow> epoch_index \<Rightarrow> accounts \<Rightarrow> tracker \<Rightarrow> validator_performance option list \<Rightarrow> account_id \<Rightarrow> pool \<Rightarrow>
   (account_id \<rightharpoonup> pool_rewards) \<Rightarrow> rewards_error + (account_id \<rightharpoonup> pool_rewards)" where
  "applyAccount E epoch committeeAccounts t performances accountID p rewardsMap =
     (let epochPerformanceFactor = aggregatePerformanceFactors E performances epoch in
      if epochPerformanceFactor = 0 then Inr rewardsMap
      else
        case poolReward E (EpochEnd (APIForEpoch E epoch) epoch) (totalValidatorStake committeeAccounts)
            (totalStake committeeAccounts) (PoolStake p) (ValidatorStake p) epochPerformanceFactor of
          Inl _ \<Rightarrow> Inl (PanicPoolReward accountID)
        | Inr r \<Rightarrow> Inr (rewardsMap(accountID \<mapsto>
            \<lparr>pr_PoolStake = PoolStake p, PoolRewards = r, pr_FixedCost = PoolFixedCost p\<rparr>)))"

text \<open>
  The performances of an account are collected slot by slot; that loop does not end when the
  epoch ends in the greatest slot, and then neither does the method.
\<close>

fun applyAccounts ::
  "tracker_env \<Rightarrow> epoch_index \<Rightarrow> accounts \<Rightarrow> tracker \<Rightarrow> account_id list \<Rightarrow>
   (account_id \<rightharpoonup> pool_rewards) \<Rightarrow> (rewards_error + (account_id \<rightharpoonup> pool_rewards)) option" where
  "applyAccounts E epoch committeeAccounts t [] rewardsMap = Some (Inr rewardsMap)"
| "applyAccounts E epoch committeeAccounts t (accountID # ids) rewardsMap =
     (let A = APIForEpoch E epoch in
      Option.bind (up_loop (\<lambda>slot pfs. pfs @ [slotPerformance t accountID slot]) (EpochStart A epoch) (EpochEnd A epoch) [])
        (\<lambda>performances.
          case applyAccount E epoch committeeAccounts t performances accountID
              (the (accountPools committeeAccounts accountID)) rewardsMap of
            Inl e \<Rightarrow> Some (Inl e)
          | Inr rewardsMap \<Rightarrow> applyAccounts E epoch committeeAccounts t ids rewardsMap))"

definition ApplyEpoch ::
  "tracker_env \<Rightarrow> epoch_index \<Rightarrow> seated_accounts \<Rightarrow> tracker \<Rightarrow> (rewards_error + tracker) option" where
  "ApplyEpoch E epoch committee t =
     (case SeatedAccounts_Accounts (tr_math E) (tr_iter E) committee of
        Inl e \<Rightarrow> Some (Inl (CommitteeAccountsError e))
      | Inr committeeAccounts \<Rightarrow>
     (case calculateProfitMargin E (totalValidatorStake committeeAccounts) (totalStake committeeAccounts) epoch of
        Inl e \<Rightarrow> Some (Inl e)
      | Inr profitMargin \<Rightarrow>
          let t = t\<lparr>poolStatsStore := (poolStatsStore t)(epoch \<mapsto>
                \<lparr>ps_TotalStake = totalStake committeeAccounts,
                 ps_TotalValidatorStake = totalValidatorStake committeeAccounts,
                 ProfitMargin = profitMargin\<rparr>)\<rparr>
          in case rewardsStorePerEpoch t epoch of
               None \<Rightarrow> Some (Inl (PanicRewardsStore epoch))
             | Some rewardsMap \<Rightarrow>
                 map_option (map_sum id (\<lambda>rewardsMap.
                     t\<lparr>rewardsStorePerEpoch := (rewardsStorePerEpoch t)(epoch := Some rewardsMap),
                       latestAppliedEpoch := epoch\<rparr>))
                   (applyAccounts E epoch committeeAccounts t
                     (tr_iter E (dom (accountPools committeeAccounts))) rewardsMap)))"

section \<open>Claiming rewards\<close>

definition decayEndEpoch :: "epoch_index \<Rightarrow> epoch_index \<Rightarrow> epoch_index" where
  "decayEndEpoch claimingEpoch lastRewardEpoch =
     max (if claimingEpoch \<ge> 1 then claimingEpoch - 1 else claimingEpoch) lastRewardEpoch"

definition earliestRewardEpoch :: "tracker_env \<Rightarrow> epoch_index \<Rightarrow> epoch_index \<Rightarrow> epoch_index" where
  "earliestRewardEpoch E firstRewardEpoch claimingEpoch =
     (let retentionPeriod = ucast (RetentionPeriod (APIForEpoch E claimingEpoch));
          earliestRetainedRewardEpoch =
            (if retentionPeriod < claimingEpoch then claimingEpoch - retentionPeriod else 0)
      in max earliestRetainedRewardEpoch firstRewardEpoch)"

definition rewardsForAccount ::
  "tracker \<Rightarrow> account_id \<Rightarrow> epoch_index \<Rightarrow> rewards_error + pool_rewards option" where
  "rewardsForAccount t accountID epoch =
     and_then (or_err (RewardsStoreError epoch) (rewardsStorePerEpoch t epoch)) (\<lambda>m. Inr (m accountID))"

definition PoolRewardsForAccount :: "tracker \<Rightarrow> account_id \<Rightarrow> rewards_error + mana option" where
  "PoolRewardsForAccount t accountID =
     and_then (rewardsForAccount t accountID (latestAppliedEpoch t)) (\<lambda>r. Inr (map_option PoolRewards r))"

text \<open>The undecayed reward of the validator in an epoch, when the rewards cover its fixed cost.\<close>

definition validatorShare :: "safemath \<Rightarrow> u64 \<Rightarrow> u8 \<Rightarrow> base_token \<Rightarrow> pool_rewards \<Rightarrow> rewards_error + mana" where
  "validatorShare sm profitMargin e stakedAmount r =
     (let poolRewardsNoFixedCost = PoolRewards r - pr_FixedCost r in
      and_then (scaleUpComplement sm profitMargin e) (\<lambda>profitMarginComplement.
      and_then (or_err RewardsOverflow (mul_u64 sm profitMargin poolRewardsNoFixedCost)) (\<lambda>result.
      let profitMarginFactor = drop_bit (unat e) result in
      and_then (or_err RewardsOverflow (mul_u64 sm profitMarginComplement poolRewardsNoFixedCost)) (\<lambda>result.
      and_then (or_err RewardsOverflow
          (muldiv_u64 sm (drop_bit (unat e) result) stakedAmount (pr_PoolStake r))) (\<lambda>residualValidatorFactor.
      and_then (or_err RewardsOverflow (add_u64 sm (pr_FixedCost r) profitMarginFactor)) (\<lambda>result.
      or_err RewardsOverflow (add_u64 sm result residualValidatorFactor)))))))"

text \<open>The undecayed reward of a delegator in an epoch.\<close>

definition delegatorShare :: "safemath \<Rightarrow> u64 \<Rightarrow> u8 \<Rightarrow> base_token \<Rightarrow> pool_rewards \<Rightarrow> rewards_error + mana" where
  "delegatorShare sm profitMargin e delegatedAmount r =
     and_then (scaleUpComplement sm profitMargin e) (\<lambda>profitMarginComplement.
     let reward = (if PoolRewards r \<ge> pr_FixedCost r then PoolRewards r - pr_FixedCost r else PoolRewards r) in
     and_then (or_err RewardsOverflow (mul_u64 sm profitMarginComplement reward)) (\<lambda>result.
     or_err RewardsOverflow (muldiv_u64 sm (drop_bit (unat e) result) delegatedAmount (pr_PoolStake r))))"

text \<open>One round of each loop over epochs; the state is the reward so far and the first rewarded epoch.\<close>

definition validatorEpoch ::
  "tracker_env \<Rightarrow> tracker \<Rightarrow> account_id \<Rightarrow> base_token \<Rightarrow> epoch_index \<Rightarrow> epoch_index \<Rightarrow> epoch_index \<Rightarrow>
   mana \<times> epoch_index \<Rightarrow> rewards_error + mana \<times> epoch_index" where
  "validatorEpoch E t validatorID stakedAmount lastRewardEpoch decayEnd epoch s =
     (let (validatorReward, firstRewardEpoch) = s; sm = tr_math E; A = APIForEpoch E epoch in
      and_then (rewardsForAccount t validatorID epoch) (\<lambda>rewards.
      case rewards of
        None \<Rightarrow> Inr (validatorReward,
          if epoch < lastRewardEpoch \<and> firstRewardEpoch = epoch then epoch + 1 else firstRewardEpoch)
      | Some r \<Rightarrow>
          if pr_PoolStake r = 0
          then Inr (validatorReward,
            if epoch < lastRewardEpoch \<and> firstRewardEpoch = epoch then epoch + 1 else firstRewardEpoch)
          else
            and_then (or_err (PoolStatsNil epoch) (poolStatsStore t epoch)) (\<lambda>poolStats.
            if PoolRewards r < pr_FixedCost r then Inr (validatorReward, firstRewardEpoch)
            else
              and_then (validatorShare sm (ProfitMargin poolStats) (ProfitMarginExponent A) stakedAmount r) (\<lambda>undecayed.
              and_then (or_err RewardsOverflow (DecayManaByEpochs A undecayed epoch decayEnd)) (\<lambda>decayed.
              and_then (or_err RewardsOverflow (add_u64 sm validatorReward decayed)) (\<lambda>reward.
              Inr (reward, firstRewardEpoch)))))))"

definition delegatorEpoch ::
  "tracker_env \<Rightarrow> tracker \<Rightarrow> account_id \<Rightarrow> base_token \<Rightarrow> epoch_index \<Rightarrow> epoch_index \<Rightarrow>
   mana \<times> epoch_index \<Rightarrow> rewards_error + mana \<times> epoch_index" where
  "delegatorEpoch E t validatorID delegatedAmount decayEnd epoch s =
     (let (delegatorsReward, firstRewardEpoch) = s; A = APIForEpoch E epoch in
      and_then (rewardsForAccount t validatorID epoch) (\<lambda>rewards.
      case rewards of
        None \<Rightarrow> Inr (delegatorsReward, if firstRewardEpoch = epoch then epoch + 1 else firstRewardEpoch)
      | Some r \<Rightarrow>
          if pr_PoolStake r = 0
          then Inr (delegatorsReward, if firstRewardEpoch = epoch then epoch + 1 else firstRewardEpoch)
          else
            and_then (or_err (PoolStatsNil epoch) (poolStatsStore t epoch)) (\<lambda>poolStats.
            and_then (delegatorShare (tr_math E) (ProfitMargin poolStats) (ProfitMarginExponent A) delegatedAmount r) (\<lambda>undecayed.
            and_then (or_err RewardsOverflow (DecayManaByEpochs A undecayed epoch decayEnd)) (\<lambda>decayed.
            Inr (delegatorsReward + decayed, firstRewardEpoch))))))"

text \<open>The loop over epochs ends with the first error; it does not end when \<open>last\<close> is the greatest epoch.\<close>

partial_function (option) epoch_loop ::
  "(epoch_index \<Rightarrow> 's \<Rightarrow> 'e + 's) \<Rightarrow> epoch_index \<Rightarrow> epoch_index \<Rightarrow> 's \<Rightarrow> ('e + 's) option" where
  "epoch_loop f epoch lastEpoch s =
     (if epoch \<le> lastEpoch
      then case f epoch s of Inl e \<Rightarrow> Some (Inl e) | Inr s' \<Rightarrow> epoch_loop f (epoch + 1) lastEpoch s'
      else Some (Inr s))"

definition ValidatorReward ::
  "tracker_env \<Rightarrow> tracker \<Rightarrow> account_id \<Rightarrow> claimed_staking \<Rightarrow> epoch_index \<Rightarrow>
   (rewards_error + mana \<times> epoch_index \<times> epoch_index) option" where
  "ValidatorReward E t validatorID stakingFeature claimingEpoch =
     (let firstRewardEpoch = (if StartEpoch stakingFeature \<noteq> 0 then StartEpoch stakingFeature + 1 else 0);
          lastRewardEpoch = min (EndEpoch stakingFeature) (latestAppliedEpoch t);
          decayEnd = decayEndEpoch claimingEpoch lastRewardEpoch;
          firstRewardEpoch = earliestRewardEpoch E firstRewardEpoch claimingEpoch
      in map_option (map_sum id (\<lambda>(reward, first). (reward, first, lastRewardEpoch)))
           (epoch_loop (validatorEpoch E t validatorID (StakedAmount stakingFeature) lastRewardEpoch decayEnd)
             firstRewardEpoch lastRewardEpoch (0, firstRewardEpoch)))"

definition DelegatorReward ::
  "tracker_env \<Rightarrow> tracker \<Rightarrow> account_id \<Rightarrow> base_token \<Rightarrow> epoch_index \<Rightarrow> epoch_index \<Rightarrow> epoch_index \<Rightarrow>
   (rewards_error + mana \<times> epoch_index \<times> epoch_index) option" where
  "DelegatorReward E t validatorID delegatedAmount epochStart epochEnd claimingEpoch =
     (let lastRewardEpoch = min epochEnd (latestAppliedEpoch t);
          decayEnd = decayEndEpoch claimingEpoch lastRewardEpoch;
          firstRewardEpoch = earliestRewardEpoch E epochStart claimingEpoch
      in map_option (map_sum id (\<lambda>(reward, first). (reward, first, lastRewardEpoch)))
           (epoch_loop (delegatorEpoch E t validatorID delegatedAmount decayEnd)
             firstRewardEpoch lastRewardEpoch (0, firstRewardEpoch)))"

section \<open>Rewards stay within the pool\<close>

text \<open>What the delegators share, before division by stake.\<close>

definition delegated_part :: "u64 \<Rightarrow> u8 \<Rightarrow> pool_rewards \<Rightarrow> nat" where
  "delegated_part pm e r =
     (2 ^ unat e - unat pm) *
     (if pr_FixedCost r \<le> PoolRewards r then unat (PoolRewards r) - unat (pr_FixedCost r) else unat (PoolRewards r))
     div 2 ^ unat e"

lemma scaleUpComplement_Inr:
  assumes "safemath_ok sm" "scaleUpComplement sm pm e = Inr c"
  shows "unat pm \<le> 2 ^ unat e" "unat c = 2 ^ unat e - unat pm"
proof -
  from assms obtain one where one: "fit_u64 (2 ^ unat e) = Some one" "unat pm \<le> unat one" "c = one - pm"
    by (auto simp: scaleUpComplement_def go_result safemath_shl_u64 safemath_sub_u64 split: if_splits)
  have "unat one = 2 ^ unat e" using one(1) by (rule unat_fit_u64)
  then show "unat pm \<le> 2 ^ unat e" "unat c = 2 ^ unat e - unat pm"
    using one by (simp_all add: unat_sub word_le_nat_alt)
qed

lemma unat_drop_bit: "unat (drop_bit n w) = unat w div 2 ^ n"
  unfolding unat_drop_bit_eq by (simp add: drop_bit_eq_div)

lemma delegatorShare_Inr:
  assumes sm: "safemath_ok sm" and s: "delegatorShare sm pm e d r = Inr x"
  shows "unat pm \<le> 2 ^ unat e" "unat x = delegated_part pm e r * unat d div unat (pr_PoolStake r)"
proof -
  let ?R = "if PoolRewards r \<ge> pr_FixedCost r then PoolRewards r - pr_FixedCost r else PoolRewards r"
  from s obtain c y where c: "scaleUpComplement sm pm e = Inr c" and y: "mul_u64 sm c ?R = Some y"
    and x: "muldiv_u64 sm (drop_bit (unat e) y) d (pr_PoolStake r) = Some x"
    by (auto simp: delegatorShare_def go_result Let_def)
  have yv: "unat y = unat c * unat ?R" using y sm by (simp add: safemath_mul_u64 unat_fit_u64)
  have xv: "unat x = unat y div 2 ^ unat e * unat d div unat (pr_PoolStake r)"
    using x sm by (auto simp: safemath_muldiv_u64 unat_drop_bit dest!: unat_fit_u64 split: if_splits)
  have "unat ?R = (if pr_FixedCost r \<le> PoolRewards r then unat (PoolRewards r) - unat (pr_FixedCost r) else unat (PoolRewards r))"
    by (simp add: unat_sub)
  then show "unat pm \<le> 2 ^ unat e" "unat x = delegated_part pm e r * unat d div unat (pr_PoolStake r)"
    using scaleUpComplement_Inr [OF sm c] xv yv by (simp_all add: delegated_part_def)
qed

lemma validatorShare_Inr:
  assumes sm: "safemath_ok sm" and s: "validatorShare sm pm e d r = Inr x" and f: "pr_FixedCost r \<le> PoolRewards r"
  shows "unat pm \<le> 2 ^ unat e"
    "unat x = unat (pr_FixedCost r) + unat pm * (unat (PoolRewards r) - unat (pr_FixedCost r)) div 2 ^ unat e
       + delegated_part pm e r * unat d div unat (pr_PoolStake r)"
proof -
  let ?R = "PoolRewards r - pr_FixedCost r"
  from s obtain c p y z w where c: "scaleUpComplement sm pm e = Inr c" and p: "mul_u64 sm pm ?R = Some p"
    and y: "mul_u64 sm c ?R = Some y"
    and z: "muldiv_u64 sm (drop_bit (unat e) y) d (pr_PoolStake r) = Some z"
    and w: "add_u64 sm (pr_FixedCost r) (drop_bit (unat e) p) = Some w" and x: "add_u64 sm w z = Some x"
    by (auto simp: validatorShare_def go_result Let_def)
  have R: "unat ?R = unat (PoolRewards r) - unat (pr_FixedCost r)" using f by (simp add: unat_sub)
  have pv: "unat p = unat pm * unat ?R" and yv: "unat y = unat c * unat ?R"
    using p y sm by (simp_all add: safemath_mul_u64 unat_fit_u64)
  have zv: "unat z = unat y div 2 ^ unat e * unat d div unat (pr_PoolStake r)"
    using z sm by (auto simp: safemath_muldiv_u64 unat_drop_bit dest!: unat_fit_u64 split: if_splits)
  have "unat w = unat (pr_FixedCost r) + unat p div 2 ^ unat e" "unat x = unat w + unat z"
    using w x sm by (auto simp: safemath_add_u64 unat_drop_bit dest!: unat_fit_u64)
  then show "unat pm \<le> 2 ^ unat e"
    "unat x = unat (pr_FixedCost r) + unat pm * (unat (PoolRewards r) - unat (pr_FixedCost r)) div 2 ^ unat e
       + delegated_part pm e r * unat d div unat (pr_PoolStake r)"
    using scaleUpComplement_Inr [OF sm c] zv yv pv f R by (simp_all add: delegated_part_def)
qed

lemma div_add_le: "(a :: nat) div n + b div n \<le> (a + b) div n"
  by (subst div_add1_eq) simp

lemma shares_le:
  fixes x n :: nat
  assumes "sum_list ds \<le> n"
  shows "(\<Sum>d\<leftarrow>ds. x * d div n) \<le> x"
proof -
  have "(\<Sum>d\<leftarrow>ds. x * d div n) \<le> x * sum_list ds div n"
  proof (induction ds)
    case (Cons d ds)
    then show ?case using div_add_le [of "x * d" n "x * sum_list ds"] by (simp add: distrib_left)
  qed simp
  also have "\<dots> \<le> x * n div n" by (intro div_le_mono mult_le_mono2 assms)
  finally show ?thesis by (cases "n = 0") simp_all
qed

lemma margin_split:
  fixes m n x :: nat
  assumes "m \<le> n"
  shows "m * x div n + (n - m) * x div n \<le> x"
proof -
  have "m * x + (n - m) * x = n * x" using assms by (simp flip: distrib_right)
  then show ?thesis using div_add_le [of "m * x" n "(n - m) * x"] by (cases "n = 0") simp_all
qed

text \<open>The greatest reward of one epoch for the validator and for a delegation.\<close>

definition rewarded :: "tracker \<Rightarrow> account_id \<Rightarrow> epoch_index \<Rightarrow> (pool_rewards \<times> u64) option" where
  "rewarded t v epoch =
     (case rewardsForAccount t v epoch of
        Inr (Some r) \<Rightarrow>
          (if pr_PoolStake r = 0 then None else map_option (\<lambda>ps. (r, ProfitMargin ps)) (poolStatsStore t epoch))
      | _ \<Rightarrow> None)"

definition delegator_most :: "tracker_env \<Rightarrow> tracker \<Rightarrow> account_id \<Rightarrow> nat \<Rightarrow> epoch_index \<Rightarrow> nat" where
  "delegator_most E t v d epoch =
     (case rewarded t v epoch of
        None \<Rightarrow> 0
      | Some (r, pm) \<Rightarrow>
          let e = ProfitMarginExponent (APIForEpoch E epoch) in
          if 2 ^ unat e < unat pm then 0 else delegated_part pm e r * d div unat (pr_PoolStake r))"

definition validator_most :: "tracker_env \<Rightarrow> tracker \<Rightarrow> account_id \<Rightarrow> nat \<Rightarrow> epoch_index \<Rightarrow> nat" where
  "validator_most E t v d epoch =
     (case rewarded t v epoch of
        None \<Rightarrow> 0
      | Some (r, pm) \<Rightarrow>
          let e = ProfitMarginExponent (APIForEpoch E epoch) in
          if 2 ^ unat e < unat pm \<or> PoolRewards r < pr_FixedCost r then 0
          else unat (pr_FixedCost r) + unat pm * (unat (PoolRewards r) - unat (pr_FixedCost r)) div 2 ^ unat e
            + delegated_part pm e r * d div unat (pr_PoolStake r))"

definition pool_rewards_of :: "tracker \<Rightarrow> account_id \<Rightarrow> epoch_index \<Rightarrow> nat" where
  "pool_rewards_of t v epoch = (case rewarded t v epoch of None \<Rightarrow> 0 | Some (r, _) \<Rightarrow> unat (PoolRewards r))"

definition stake_covers :: "tracker \<Rightarrow> account_id \<Rightarrow> nat \<Rightarrow> bool" where
  "stake_covers t v n \<longleftrightarrow> (\<forall>epoch r pm. rewarded t v epoch = Some (r, pm) \<longrightarrow> n \<le> unat (pr_PoolStake r))"

lemma most_within_pool:
  assumes "stake_covers t v (d + sum_list ds)"
  shows "validator_most E t v d epoch + (\<Sum>x\<leftarrow>ds. delegator_most E t v x epoch) \<le> pool_rewards_of t v epoch"
proof (cases "rewarded t v epoch")
  case None
  then show ?thesis by (simp add: validator_most_def delegator_most_def)
next
  case (Some p)
  then obtain r pm where p: "rewarded t v epoch = Some (r, pm)" by (cases p) simp
  define n where "n = (2 :: nat) ^ unat (ProfitMarginExponent (APIForEpoch E epoch))"
  define x where "x = delegated_part pm (ProfitMarginExponent (APIForEpoch E epoch)) r"
  have l: "sum_list (d # ds) \<le> unat (pr_PoolStake r)" using assms p unfolding stake_covers_def by auto
  have s: "x * d div unat (pr_PoolStake r) + (\<Sum>y\<leftarrow>ds. x * y div unat (pr_PoolStake r)) \<le> x"
    using shares_le [OF l, of x] by simp
  note defs = p validator_most_def delegator_most_def pool_rewards_of_def Let_def n_def [symmetric] x_def [symmetric]
  consider "n < unat pm" | "unat pm \<le> n" "PoolRewards r < pr_FixedCost r" | "unat pm \<le> n" "pr_FixedCost r \<le> PoolRewards r"
    by (meson not_le)
  then show ?thesis
  proof cases
    case 1
    then show ?thesis by (simp add: defs)
  next
    case 2
    have "x \<le> unat (PoolRewards r)"
      using 2 margin_split [of "unat pm" n "unat (PoolRewards r)"] by (simp add: x_def delegated_part_def n_def)
    then show ?thesis using 2 s by (simp add: defs)
  next
    case 3
    have "unat pm * (unat (PoolRewards r) - unat (pr_FixedCost r)) div n + x \<le> unat (PoolRewards r) - unat (pr_FixedCost r)"
      using 3 margin_split [of "unat pm" n "unat (PoolRewards r) - unat (pr_FixedCost r)"]
      by (simp add: x_def delegated_part_def n_def)
    moreover have "unat (pr_FixedCost r) \<le> unat (PoolRewards r)" using 3 by (simp add: word_le_nat_alt)
    ultimately show ?thesis using 3 s by (simp add: defs not_less [symmetric])
  qed
qed

lemma map_sum_Inr_eq: "map_sum id f r = Inr y \<longleftrightarrow> (\<exists>x. r = Inr x \<and> y = f x)"
  by (cases r) auto

lemma epoch_loop_range:
  assumes "lastEpoch \<noteq> - 1"
  shows "epoch_loop f epoch lastEpoch s = Some (range_loop f (slots_upto epoch lastEpoch) s)"
proof (induction "Suc (unat lastEpoch) - unat epoch" arbitrary: epoch s rule: less_induct)
  case less
  show ?case
  proof (cases "epoch \<le> lastEpoch")
    case True
    note c = slots_upto_Cons [OF True assms]
    have "Suc (unat lastEpoch) - unat (epoch + 1) < Suc (unat lastEpoch) - unat epoch"
      using True c(2) by (simp add: word_le_nat_alt)
    from less.hyps [OF this] show ?thesis
      using True c(1) by (cases "f epoch s") (simp_all add: epoch_loop.simps)
  next
    case False
    then show ?thesis by (simp add: epoch_loop.simps slots_upto_empty)
  qed
qed

lemma distinct_slots_upto: "distinct (slots_upto i j)"
proof -
  have "x = y" if "x < Suc (unat j)" "y < Suc (unat j)" "(word_of_nat x :: u32) = word_of_nat y" for x y
  proof -
    have "x < 2 ^ 32" "y < 2 ^ 32" using that(1,2) unat_less_u32 [of j] by simp_all
    then have "unat (word_of_nat x :: u32) = x" "unat (word_of_nat y :: u32) = y" by (simp_all add: unsigned_of_nat take_bit_nat_eq_self)
    then show ?thesis using that(3) by metis
  qed
  then show ?thesis by (auto simp: slots_upto_def distinct_map inj_on_def simp del: upt_Suc)
qed

lemma claim_loop:
  fixes f :: "epoch_index \<Rightarrow> mana \<times> epoch_index \<Rightarrow> rewards_error + mana \<times> epoch_index"
  assumes step: "\<And>epoch s s'. f epoch s = Inr s' \<Longrightarrow> unat (fst s') \<le> unat (fst s) + most epoch"
    and last: "lastEpoch \<le> applied" "applied \<noteq> - 1"
    and loop: "epoch_loop f i lastEpoch (0, j) = Some (Inr s)"
  shows "unat (fst s) \<le> (\<Sum>epoch | epoch \<le> applied. most epoch)"
proof -
  have l: "lastEpoch \<noteq> - 1" using last by (metis word_order.extremum_uniqueI)
  have "range_loop f ks s0 = Inr s1 \<Longrightarrow> unat (fst s1) \<le> unat (fst s0) + (\<Sum>k\<leftarrow>ks. most k)" for ks s0 s1
  proof (induction ks arbitrary: s0)
    case (Cons k ks)
    then obtain s2 where s2: "f k s0 = Inr s2" "range_loop f ks s2 = Inr s1" by (auto simp: go_result)
    show ?case using Cons.IH [OF s2(2)] step [OF s2(1)] by simp
  qed simp
  from this [of "slots_upto i lastEpoch" "(0, j)" s]
  have "unat (fst s) \<le> (\<Sum>k\<leftarrow>slots_upto i lastEpoch. most k)"
    using loop by (simp add: epoch_loop_range [OF l])
  also have "\<dots> = (\<Sum>k | i \<le> k \<and> k \<le> lastEpoch. most k)"
    by (simp add: sum_list_distinct_conv_sum_set distinct_slots_upto set_slots_upto)
  also have "\<dots> \<le> (\<Sum>epoch | epoch \<le> applied. most epoch)"
    using last(1) by (intro sum_mono2) auto
  finally show ?thesis .
qed

text \<open>Mana decays: the decay provider never returns more than it is given.\<close>

definition decays :: "tracker_env \<Rightarrow> bool" where
  "decays E \<longleftrightarrow> (\<forall>epoch m a b r. DecayManaByEpochs (APIForEpoch E epoch) m a b = Some r \<longrightarrow> r \<le> m)"

lemma decaysD: "decays E \<Longrightarrow> DecayManaByEpochs (APIForEpoch E epoch) m a b = Some r \<Longrightarrow> unat r \<le> unat m"
  unfolding decays_def word_le_nat_alt by blast

lemma unat_add_le: "unat (a + b) \<le> unat a + unat (b :: u64)"
  by (simp add: unat_word_ariths(1))

lemma delegatorEpoch_most:
  assumes "safemath_ok (tr_math E)" "decays E" "delegatorEpoch E t v d decayEnd epoch s = Inr s'"
  shows "unat (fst s') \<le> unat (fst s) + delegator_most E t v (unat d) epoch"
proof (cases "rewardsForAccount t v epoch")
  case (Inl e)
  then show ?thesis using assms(3) by (simp add: delegatorEpoch_def split_beta)
next
  case (Inr o')
  show ?thesis
  proof (cases "\<exists>r. o' = Some r \<and> pr_PoolStake r \<noteq> 0")
    case False
    then have "fst s' = fst s" using assms(3) Inr
      by (cases o') (auto simp: delegatorEpoch_def split_beta Let_def)
    then show ?thesis by simp
  next
    case True
    then obtain r where r: "o' = Some r" "pr_PoolStake r \<noteq> 0" by blast
    let ?A = "APIForEpoch E epoch"
    from assms(3) obtain ps x y where ps: "poolStatsStore t epoch = Some ps"
      and x: "delegatorShare (tr_math E) (ProfitMargin ps) (ProfitMarginExponent ?A) d r = Inr x"
      and y: "DecayManaByEpochs ?A x epoch decayEnd = Some y" and s': "fst s' = fst s + y"
      using Inr r by (auto simp: delegatorEpoch_def split_beta Let_def go_result)
    have "rewarded t v epoch = Some (r, ProfitMargin ps)" using Inr r ps by (simp add: rewarded_def)
    then have "unat x = delegator_most E t v (unat d) epoch"
      using delegatorShare_Inr [OF assms(1) x] by (simp add: delegator_most_def Let_def)
    then show ?thesis using decaysD [OF assms(2) y] unat_add_le [of "fst s" y] s' by simp
  qed
qed

lemma validatorEpoch_most:
  assumes "safemath_ok (tr_math E)" "decays E" "validatorEpoch E t v d l decayEnd epoch s = Inr s'"
  shows "unat (fst s') \<le> unat (fst s) + validator_most E t v (unat d) epoch"
proof (cases "rewardsForAccount t v epoch")
  case (Inl e)
  then show ?thesis using assms(3) by (simp add: validatorEpoch_def split_beta)
next
  case (Inr o')
  show ?thesis
  proof (cases "\<exists>r. o' = Some r \<and> pr_PoolStake r \<noteq> 0 \<and> pr_FixedCost r \<le> PoolRewards r")
    case False
    then have "fst s' = fst s" using assms(3) Inr
      by (cases o') (auto simp: validatorEpoch_def split_beta Let_def go_result not_le split: if_splits)
    then show ?thesis by simp
  next
    case True
    then obtain r where r: "o' = Some r" "pr_PoolStake r \<noteq> 0" "pr_FixedCost r \<le> PoolRewards r" by blast
    then have nf: "\<not> PoolRewards r < pr_FixedCost r" by simp
    let ?A = "APIForEpoch E epoch"
    from assms(3) obtain ps x y where ps: "poolStatsStore t epoch = Some ps"
      and x: "validatorShare (tr_math E) (ProfitMargin ps) (ProfitMarginExponent ?A) d r = Inr x"
      and y: "DecayManaByEpochs ?A x epoch decayEnd = Some y" and s': "add_u64 (tr_math E) (fst s) y = Some (fst s')"
      using Inr r(1,2) nf by (auto simp: validatorEpoch_def split_beta Let_def go_result)
    have "rewarded t v epoch = Some (r, ProfitMargin ps)" using Inr r ps by (simp add: rewarded_def)
    then have "unat x = validator_most E t v (unat d) epoch"
      using validatorShare_Inr [OF assms(1) x r(3)] nf by (simp add: validator_most_def Let_def)
    moreover have "unat (fst s') = unat (fst s) + unat y"
      using s' assms(1) by (auto simp: safemath_add_u64 dest!: unat_fit_u64)
    ultimately show ?thesis using decaysD [OF assms(2) y] by simp
  qed
qed

lemma DelegatorReward_most:
  assumes "safemath_ok (tr_math E)" "decays E" "latestAppliedEpoch t \<noteq> - 1"
    and "DelegatorReward E t v d start stop claiming = Some (Inr (m, rest))"
  shows "unat m \<le> (\<Sum>epoch | epoch \<le> latestAppliedEpoch t. delegator_most E t v (unat d) epoch)"
proof -
  let ?l = "min stop (latestAppliedEpoch t)"
  let ?i = "earliestRewardEpoch E start claiming"
  from assms(4) obtain s where s: "epoch_loop (delegatorEpoch E t v d (decayEndEpoch claiming ?l)) ?i ?l (0, ?i) = Some (Inr s)"
    "m = fst s"
    by (auto simp: DelegatorReward_def Let_def map_sum_Inr_eq)
  show ?thesis unfolding s(2)
    by (rule claim_loop [OF delegatorEpoch_most [OF assms(1,2)] _ assms(3) s(1)]) simp_all
qed

lemma ValidatorReward_most:
  assumes "safemath_ok (tr_math E)" "decays E" "latestAppliedEpoch t \<noteq> - 1"
    and "ValidatorReward E t v sf claiming = Some (Inr (m, rest))"
  shows "unat m \<le> (\<Sum>epoch | epoch \<le> latestAppliedEpoch t. validator_most E t v (unat (StakedAmount sf)) epoch)"
proof -
  let ?l = "min (EndEpoch sf) (latestAppliedEpoch t)"
  let ?i = "earliestRewardEpoch E (if StartEpoch sf \<noteq> 0 then StartEpoch sf + 1 else 0) claiming"
  from assms(4) obtain s where s:
    "epoch_loop (validatorEpoch E t v (StakedAmount sf) ?l (decayEndEpoch claiming ?l)) ?i ?l (0, ?i) = Some (Inr s)"
    "m = fst s"
    unfolding ValidatorReward_def Let_def by (auto simp: map_sum_Inr_eq simp del: if_split)
  show ?thesis unfolding s(2)
    by (rule claim_loop [OF validatorEpoch_most [OF assms(1,2)] _ assms(3) s(1)]) simp_all
qed

lemma claims_return:
  assumes "latestAppliedEpoch t \<noteq> - 1"
  shows "\<exists>r. ValidatorReward E t v sf claiming = Some r" "\<exists>r. DelegatorReward E t v d start stop claiming = Some r"
proof -
  have l: "min stop (latestAppliedEpoch t) \<noteq> - 1" for stop
    using assms by (metis min.cobounded2 word_order.extremum_uniqueI)
  show "\<exists>r. ValidatorReward E t v sf claiming = Some r" "\<exists>r. DelegatorReward E t v d start stop claiming = Some r"
    by (simp_all add: ValidatorReward_def DelegatorReward_def Let_def epoch_loop_range [OF l])
qed

definition demo_rewards_api :: rewards_api where
  "demo_rewards_api = \<lparr>GenesisSlot = 0, MaxCommittableAge = 20, ValidationBlocksPerSlot = 10, PunishmentEpochs = 9,
     EpochDurationSlots = 8, SlotsPerEpochExponent = 3, MinReferenceManaCost = 1, RMCIncrease = 1, RMCDecrease = 1,
     RMCIncreaseThreshold = 8, RMCDecreaseThreshold = 5, EpochFromSlot = (\<lambda>s. s div 8),
     DecayManaBySlots = (\<lambda>m _ _. Some m), GenerateManaAndDecayBySlots = (\<lambda>m _ _. Some m),
     ProfitMarginExponent = 8, PoolCoefficientExponent = 11, RetentionPeriod = 384, TargetReward = (\<lambda>_. Some 4000),
     DecayManaByEpochs = (\<lambda>m _ _. Some m), EpochStart = (\<lambda>e. e * 8), EpochEnd = (\<lambda>e. e * 8 + 7),
     SlotDurationSeconds = 10, SlotStartTime = (\<lambda>s. uint s * 10000000000)\<rparr>"

definition demo_tracker_env :: tracker_env where
  "demo_tracker_env = \<lparr>tr_math = checked_math, APIForEpoch = (\<lambda>_. demo_rewards_api),
     tr_APIForSlot = (\<lambda>_. demo_rewards_api), tr_iter = sorted_list_of_set\<rparr>"

definition demo_tracker :: tracker where
  "demo_tracker = \<lparr>
     rewardsStorePerEpoch = (\<lambda>epoch. Some (if epoch = 1
       then [7 \<mapsto> \<lparr>pr_PoolStake = 50, PoolRewards = 1000, pr_FixedCost = 100\<rparr>] else Map.empty)),
     poolStatsStore = [1 \<mapsto> \<lparr>ps_TotalStake = 300, ps_TotalValidatorStake = 100, ProfitMargin = 64\<rparr>],
     committeeStore = (\<lambda>_. Some \<lparr>sa_accounts = NewAccounts, seatsByAccount = [7 \<mapsto> 0], reused = False\<rparr>),
     committeeCandidatesInEpoch = (\<lambda>_. Some Map.empty), nextEpochCommitteeCandidates = Map.empty,
     validatorPerformances = (\<lambda>_. Some Map.empty), latestAppliedEpoch = 1\<rparr>"

text \<open>
  C13. For stakes that the pool's stake covers in every rewarded epoch, what a validator and its
  delegators claim together is at most the sum of the rewards of the pool over the applied epochs,
  whatever the epochs of the claims; the unchecked addition of the delegators' rewards included.
\<close>

theorem rewards_within_pool:
  assumes "safemath_ok (tr_math E)" "decays E" "latestAppliedEpoch t \<noteq> - 1"
    and covers: "stake_covers t v (unat (StakedAmount sf) + (\<Sum>(d, start, stop)\<leftarrow>delegations. unat d))"
    and validator: "ValidatorReward E t v sf claiming = Some (Inr (m, rest))"
    and delegators: "list_all2 (\<lambda>(d, start, stop) x. \<exists>rest. DelegatorReward E t v d start stop claiming = Some (Inr (x, rest)))
      delegations xs"
  shows "unat m + (\<Sum>x\<leftarrow>xs. unat x) \<le> (\<Sum>epoch | epoch \<le> latestAppliedEpoch t. pool_rewards_of t v epoch)"
proof -
  let ?S = "{epoch. epoch \<le> latestAppliedEpoch t}"
  let ?ds = "map (\<lambda>(d, start, stop). unat d) delegations"
  have "(\<Sum>x\<leftarrow>xs. unat x) \<le> (\<Sum>epoch\<in>?S. \<Sum>d\<leftarrow>?ds. delegator_most E t v d epoch)"
    using delegators
  proof (induction rule: list_all2_induct)
    case (Cons c cs x xs)
    obtain d start stop where c: "c = (d, start, stop)" by (cases c)
    with Cons(1) obtain rest where "DelegatorReward E t v d start stop claiming = Some (Inr (x, rest))" by auto
    from DelegatorReward_most [OF assms(1-3) this] Cons(3) show ?case by (simp add: c sum.distrib)
  qed simp
  moreover have "unat m \<le> (\<Sum>epoch\<in>?S. validator_most E t v (unat (StakedAmount sf)) epoch)"
    using ValidatorReward_most [OF assms(1-3) validator] .
  moreover have "(\<Sum>epoch\<in>?S. validator_most E t v (unat (StakedAmount sf)) epoch + (\<Sum>d\<leftarrow>?ds. delegator_most E t v d epoch))
      \<le> (\<Sum>epoch\<in>?S. pool_rewards_of t v epoch)"
    by (intro sum_mono most_within_pool covers)
  ultimately show ?thesis by (simp add: sum.distrib)
qed

lemma demo_claims:
  "ValidatorReward demo_tracker_env demo_tracker 7 \<lparr>StakedAmount = 20, sf_FixedCost = 100, EndEpoch = 5, StartEpoch = 0\<rparr> 2
     = Some (Inr (595, 1, 1))"
  "DelegatorReward demo_tracker_env demo_tracker 7 30 1 9 2 = Some (Inr (405, 1, 1))"
  by (simp_all add: ValidatorReward_def DelegatorReward_def earliestRewardEpoch_def decayEndEpoch_def epoch_loop_range slots_upto_def
      validatorEpoch_def delegatorEpoch_def rewardsForAccount_def validatorShare_def delegatorShare_def scaleUpComplement_def
      demo_tracker_env_def demo_tracker_def demo_rewards_api_def checked_math_def fit_u64_def Let_def drop_bit_eq_div)

theorem rewards_within_pool_witness:
  "unat (595 :: mana) + (\<Sum>x\<leftarrow>[405 :: mana]. unat x)
     \<le> (\<Sum>epoch | epoch \<le> latestAppliedEpoch demo_tracker. pool_rewards_of demo_tracker 7 epoch)"
proof (rule rewards_within_pool [where E = demo_tracker_env and delegations = "[(30, 1, 9)]" and claiming = 2])
  show "safemath_ok (tr_math demo_tracker_env)" "decays demo_tracker_env" "latestAppliedEpoch demo_tracker \<noteq> - 1"
    by (simp_all add: demo_tracker_env_def demo_tracker_def decays_def demo_rewards_api_def)
  show "ValidatorReward demo_tracker_env demo_tracker 7
      \<lparr>StakedAmount = 20, sf_FixedCost = 100, EndEpoch = 5, StartEpoch = 0\<rparr> 2 = Some (Inr (595, 1, 1))"
    by (rule demo_claims)
  show "list_all2 (\<lambda>(d, start, stop) x. \<exists>rest. DelegatorReward demo_tracker_env demo_tracker 7 d start stop 2 = Some (Inr (x, rest)))
      [(30, 1, 9)] [405]"
    by (simp add: demo_claims)
  show "stake_covers demo_tracker 7 (unat (StakedAmount
      \<lparr>StakedAmount = 20, sf_FixedCost = 100, EndEpoch = 5, StartEpoch = 0\<rparr>) + (\<Sum>(d, start, stop)\<leftarrow>[(30 :: u64, 1, 9)]. unat d))"
    by (auto simp: stake_covers_def rewarded_def rewardsForAccount_def demo_tracker_def split: if_splits)
qed

section \<open>What tracking a slot records\<close>

definition tracked_for :: "account_id \<Rightarrow> slot_index \<Rightarrow> block \<Rightarrow> bool" where
  "tracked_for i slot b \<longleftrightarrow> IsValidationBlock b \<and> blk_IssuerID b = i \<and> bid_slot (blk_ID b) = slot"

lemma track_frame:
  assumes "TrackValidationBlock E b t = Inr t1"
  shows "latestAppliedEpoch t1 = latestAppliedEpoch t" "committeeStore t1 = committeeStore t"
  using assms by (auto simp: TrackValidationBlock_def trackCommitteeMemberPerformance_def Let_def go_result
      split: block_body.splits if_splits)

lemma track_other:
  assumes "TrackValidationBlock E b t = Inr t1" "\<not> tracked_for i slot b"
  shows "slotPerformance t1 i slot = slotPerformance t i slot"
  using assms by (auto simp: TrackValidationBlock_def trackCommitteeMemberPerformance_def Let_def go_result
      tracked_for_def IsValidationBlock_def slotPerformance_def split: block_body.splits if_splits)

lemma track_own:
  assumes b: "TrackValidationBlock E b t = Inr t1" "tracked_for i slot b" and m: "isCommitteeMember E t slot i = Inr True"
    and vp: "slotPerformance t i slot = Some vp"
  obtains vp' k where "slotPerformance t1 i slot = Some vp'" "subslotIndex E t slot (blk_IssuingTime b) = Inr k" "0 \<le> k"
    "SlotActivityVector vp' = SlotActivityVector vp OR push_bit (nat k) 1"
    "BlocksIssuedCount vp' = (if BlocksIssuedCount vp < ValidationBlocksPerSlot (tr_APIForSlot E slot) + 1
       then BlocksIssuedCount vp + 1 else BlocksIssuedCount vp)"
proof -
  from b(2) obtain version hash where body: "blk_body b = ValidationBlock version hash"
    and i: "blk_IssuerID b = i" "bid_slot (blk_ID b) = slot"
    by (auto simp: tracked_for_def IsValidationBlock_def split: block_body.splits)
  from vp obtain ps where ps: "validatorPerformances t slot = Some ps"
    "vp = (case ps i of None \<Rightarrow> NewValidatorPerformance | Some vp \<Rightarrow> vp)"
    by (auto simp: slotPerformance_def split: option.splits)
  have tr: "trackCommitteeMemberPerformance E version hash b t = Inr t1"
    using b(1) m by (simp add: TrackValidationBlock_def body i)
  then obtain k where k: "subslotIndex E t slot (blk_IssuingTime b) = Inr k" "0 \<le> k"
    by (auto simp: trackCommitteeMemberPerformance_def Let_def go_result i activityBit_def split: if_splits)
  define vp' where "vp' = (let vp = vp\<lparr>SlotActivityVector := SlotActivityVector vp OR push_bit (nat k) 1\<rparr>;
      vp = (if BlocksIssuedCount vp < ValidationBlocksPerSlot (tr_APIForSlot E slot) + 1
            then vp\<lparr>BlocksIssuedCount := BlocksIssuedCount vp + 1\<rparr> else vp)
      in vp\<lparr>HighestSupportedVersionAndHash := \<lparr>vh_Version = version, vh_Hash = hash\<rparr>\<rparr>)"
  have "t1 = t\<lparr>validatorPerformances := (validatorPerformances t)(slot := Some (ps(i \<mapsto> vp')))\<rparr>"
    using tr k ps(1) unfolding vp'_def ps(2)
    by (simp add: trackCommitteeMemberPerformance_def Let_def activityBit_def i)
  then have "slotPerformance t1 i slot = Some vp'" by (simp add: slotPerformance_def)
  then show thesis by (rule that [OF _ k]) (simp_all add: vp'_def Let_def)
qed

lemma unat_count_step:
  fixes c lim :: u8
  assumes "c \<le> lim + 1" "lim \<noteq> - 1"
  shows "unat (if c < lim + 1 then c + 1 else c) = min (unat c + 1) (Suc (unat lim))"
    "(if c < lim + 1 then c + 1 else c) \<le> lim + 1"
proof -
  have l: "unat (lim + 1) = Suc (unat lim)" using assms(2) unatSuc [of lim] by (auto simp: add.commute add_eq_0_iff)
  have "unat (c + 1) = Suc (unat c)" if "c < lim + 1"
  proof -
    have "c \<noteq> - 1" using that by auto
    then show ?thesis using unatSuc [of c] by (simp add: add.commute add_eq_0_iff)
  qed
  then show "unat (if c < lim + 1 then c + 1 else c) = min (unat c + 1) (Suc (unat lim))"
    "(if c < lim + 1 then c + 1 else c) \<le> lim + 1"
    using assms(1) l by (auto simp: word_less_nat_alt word_le_nat_alt)
qed

definition demo_issued :: "nat \<Rightarrow> int \<Rightarrow> block" where
  "demo_issued n time = \<lparr>blk_ID = \<lparr>bid_hash = n, bid_slot = 9\<rparr>, blk_IssuerID = 7, blk_IssuingTime = time,
     blk_WorkScore = 1, blk_body = ValidationBlock 3 11\<rparr>"

text \<open>
  C14. Tracking blocks records, for a committee member and a slot, the number of its validation
  blocks up to one more than is allowed, and sets the activity bit of exactly the subslots in which
  it issued one; blocks of other issuers and slots do not count.
\<close>

theorem tracked_slot_activity:
  assumes "range_loop (TrackValidationBlock E) bs t = Inr t'" "isCommitteeMember E t slot i = Inr True"
    and "slotPerformance t i slot = Some vp" "BlocksIssuedCount vp \<le> lim + 1"
    and lim: "lim = ValidationBlocksPerSlot (tr_APIForSlot E slot)" "lim \<noteq> - 1"
  shows "\<exists>vp'. slotPerformance t' i slot = Some vp' \<and>
    unat (BlocksIssuedCount vp') =
      min (unat (BlocksIssuedCount vp) + length (filter (tracked_for i slot) bs)) (Suc (unat lim)) \<and>
    (\<forall>k<32. bit (SlotActivityVector vp') k \<longleftrightarrow> bit (SlotActivityVector vp) k \<or>
      (\<exists>b\<in>set bs. tracked_for i slot b \<and> subslotIndex E t slot (blk_IssuingTime b) = Inr (int k)))"
  using assms(1-4)
proof (induction bs arbitrary: t vp)
  case Nil
  have "unat (lim + 1) = Suc (unat lim)" using lim(2) unatSuc [of lim] by (auto simp: add.commute add_eq_0_iff)
  then show ?case using Nil by (auto simp: word_le_nat_alt)
next
  case (Cons b bs)
  from Cons.prems(1) obtain t1 where t1: "TrackValidationBlock E b t = Inr t1" "range_loop (TrackValidationBlock E) bs t1 = Inr t'"
    by (auto simp: go_result)
  have frame: "isCommitteeMember E t1 = isCommitteeMember E t" "subslotIndex E t1 = subslotIndex E t"
    using track_frame [OF t1(1)]
    by (auto simp: fun_eq_iff isCommitteeMember_def subslotIndex_def LoadCommitteeForEpoch_def)
  show ?case
  proof (cases "tracked_for i slot b")
    case False
    have "slotPerformance t1 i slot = Some vp" using track_other [OF t1(1) False] Cons.prems(3) by simp
    from Cons.IH [OF t1(2) _ this Cons.prems(4)] show ?thesis using False Cons.prems(2) by (simp add: frame)
  next
    case True
    obtain vp1 k where vp1: "slotPerformance t1 i slot = Some vp1" "subslotIndex E t slot (blk_IssuingTime b) = Inr k" "0 \<le> k"
      "SlotActivityVector vp1 = SlotActivityVector vp OR push_bit (nat k) 1"
      "BlocksIssuedCount vp1 = (if BlocksIssuedCount vp < lim + 1 then BlocksIssuedCount vp + 1 else BlocksIssuedCount vp)"
      using track_own [OF t1(1) True Cons.prems(2,3)] lim(1) by blast
    note c = unat_count_step [OF Cons.prems(4) lim(2), folded vp1(5)]
    from Cons.IH [OF t1(2) _ vp1(1) c(2)] Cons.prems(2)
    obtain vp' where vp': "slotPerformance t' i slot = Some vp'"
      "unat (BlocksIssuedCount vp') = min (unat (BlocksIssuedCount vp1) + length (filter (tracked_for i slot) bs)) (Suc (unat lim))"
      "\<forall>j<32. bit (SlotActivityVector vp') j \<longleftrightarrow> bit (SlotActivityVector vp1) j \<or>
        (\<exists>b\<in>set bs. tracked_for i slot b \<and> subslotIndex E t slot (blk_IssuingTime b) = Inr (int j))"
      by (auto simp: frame)
    have "bit (SlotActivityVector vp1) j \<longleftrightarrow> bit (SlotActivityVector vp) j \<or> k = int j" if "j < 32" for j
      using that vp1(3) by (auto simp: vp1(4) bit_or_iff bit_exp_iff)
    then show ?thesis using vp' True c(1) vp1(2) by auto
  qed
qed

theorem tracked_slot_activity_witness:
  "\<exists>vp'. slotPerformance (projr (range_loop (TrackValidationBlock demo_tracker_env)
        [demo_issued 1 90500000000, demo_issued 2 93000000000] demo_tracker)) 7 9 = Some vp' \<and>
     unat (BlocksIssuedCount vp') = 2 \<and> bit (SlotActivityVector vp') 3 \<and> \<not> bit (SlotActivityVector vp') 4"
proof -
  let ?bs = "[demo_issued 1 90500000000, demo_issued 2 93000000000]"
  let ?t = "range_loop (TrackValidationBlock demo_tracker_env) ?bs demo_tracker"
  note d = demo_tracker_env_def demo_tracker_def demo_rewards_api_def demo_issued_def
  have sub: "subslotIndex demo_tracker_env t 9 90500000000 = Inr 0" "subslotIndex demo_tracker_env t 9 93000000000 = Inr 3" for t
    by (simp_all add: subslotIndex_def d time_Sub_def trunc_div_def Let_def)
  have member: "isCommitteeMember demo_tracker_env demo_tracker 9 7 = Inr True"
    by (simp add: isCommitteeMember_def LoadCommitteeForEpoch_def HasAccount_def d)
  have "is_ok ?t"
    by (simp add: TrackValidationBlock_def trackCommitteeMemberPerformance_def isCommitteeMember_def LoadCommitteeForEpoch_def
        HasAccount_def sub activityBit_def Let_def demo_tracker_def demo_issued_def)
  then have run: "?t = Inr (projr ?t)" by (cases ?t) simp_all
  have lim: "(10 :: u8) = ValidationBlocksPerSlot (tr_APIForSlot demo_tracker_env 9)"
    by (simp add: demo_tracker_env_def demo_rewards_api_def)
  have vp: "slotPerformance demo_tracker 7 9 = Some NewValidatorPerformance"
    by (simp add: slotPerformance_def demo_tracker_def)
  have tr: "tracked_for 7 9 (demo_issued n time)" for n time
    by (simp add: tracked_for_def demo_issued_def IsValidationBlock_def)
  have time: "blk_IssuingTime (demo_issued n time) = time" for n time by (simp add: demo_issued_def)
  obtain vp' where v: "slotPerformance (projr ?t) 7 9 = Some vp'"
    "unat (BlocksIssuedCount vp') = min (unat (BlocksIssuedCount NewValidatorPerformance) + length (filter (tracked_for 7 9) ?bs)) (Suc (unat (10 :: u8)))"
    "\<forall>k<32. bit (SlotActivityVector vp') k \<longleftrightarrow> bit (SlotActivityVector NewValidatorPerformance) k \<or>
      (\<exists>b\<in>set ?bs. tracked_for 7 9 b \<and> subslotIndex demo_tracker_env demo_tracker 9 (blk_IssuingTime b) = Inr (int k))"
    using tracked_slot_activity [OF run member vp _ lim] by (auto simp: NewValidatorPerformance_def)
  have "unat (BlocksIssuedCount vp') = 2" using v(2) by (simp add: tr NewValidatorPerformance_def)
  moreover have "bit (SlotActivityVector vp') 3" "\<not> bit (SlotActivityVector vp') 4"
    using v(3) [rule_format, of 3] v(3) [rule_format, of 4] by (simp_all add: tr time sub NewValidatorPerformance_def)
  ultimately show ?thesis using v(1) by blast
qed

end
